(* ===== verification/Muduo_Prelude.thy ===== *)
theory Muduo_Prelude
  imports Main "HOL-Library.Word" "HOL-Library.Monad_Syntax" "HOL-Library.Sublist"
begin

text \<open>
  The vocabulary every component theory shares.

  \<^item> Assertions. The library is built in Debug mode by default
    (\<^verbatim>\<open>CMAKE_BUILD_TYPE "Debug"\<close>), so a failing \<^verbatim>\<open>assert\<close> ends the process. An operation
    that contains assertions returns an \<open>option\<close>: \<open>None\<close> is the failed assertion, \<open>Some s\<close> the
    state after a normal return. \<open>check\<close> is one such assertion.
  \<^item> Bytes. A C++ \<^verbatim>\<open>char\<close> is HOL's 8-bit \<open>char\<close>; a \<^verbatim>\<open>std::string\<close>, a \<^verbatim>\<open>StringPiece\<close> and the
    contents of a \<^verbatim>\<open>std::vector<char>\<close> are \<open>char\<close> lists.
  \<^item> Memory copies. \<open>splice i xs ys\<close> is \<^verbatim>\<open>memcpy\<close>/\<^verbatim>\<open>std::copy\<close> of \<open>xs\<close> to offset \<open>i\<close> of \<open>ys\<close>.
  \<^item> The part of \<^verbatim>\<open>printf\<close> the library uses (\<^verbatim>\<open>%d\<close>, \<^verbatim>\<open>%u\<close>, \<^verbatim>\<open>%0nd\<close>, \<^verbatim>\<open>%nd\<close>, \<^verbatim>\<open>snprintf\<close> truncation).
\<close>

named_theorems state_simps \<open>unfolding rules for the state-passing operations\<close>

section \<open>Assertions\<close>

definition check :: "bool \<Rightarrow> unit option" where
  "check b = (if b then Some () else None)"

lemma check_bind_eq_Some [simp]: "(check b \<bind> f) = Some y \<longleftrightarrow> b \<and> f () = Some y"
  by (simp add: check_def)

lemma check_bind_eq_None [simp]: "(check b \<bind> f) = None \<longleftrightarrow> (b \<longrightarrow> f () = None)"
  by (simp add: check_def)

lemma check_bind_True [simp]: "b \<Longrightarrow> (check b \<bind> f) = f ()"
  by (simp add: check_def)

lemma check_simps [simp]: "check True = Some ()" "check False = None"
  by (simp_all add: check_def)

section \<open>Copying bytes into a list\<close>

definition splice_at :: "nat \<Rightarrow> 'a list \<Rightarrow> 'a list \<Rightarrow> 'a list" where
  "splice_at i xs ys = take i ys @ xs @ drop (i + length xs) ys"

lemma length_splice_at [simp]:
  "i + length xs \<le> length ys \<Longrightarrow> length (splice_at i xs ys) = length ys"
  by (simp add: splice_at_def)

lemma take_splice_at [simp]: "j \<le> i \<Longrightarrow> i \<le> length ys \<Longrightarrow> take j (splice_at i xs ys) = take j ys"
  by (simp add: splice_at_def min_def)

lemma drop_splice_at_self:
  "i \<le> length ys \<Longrightarrow> drop i (splice_at i xs ys) = xs @ drop (i + length xs) ys"
  by (simp add: splice_at_def)

lemma splice_at_Nil [simp]: "splice_at i [] ys = ys"
  by (simp add: splice_at_def)

text \<open>The segment \<open>[i, j)\<close> of a list, the value of the C++ iterator range.\<close>

definition segment :: "nat \<Rightarrow> nat \<Rightarrow> 'a list \<Rightarrow> 'a list" where
  "segment i j xs = take (j - i) (drop i xs)"

lemma length_segment [simp]: "j \<le> length xs \<Longrightarrow> length (segment i j xs) = j - i"
  by (simp add: segment_def)

lemma segment_self [simp]: "segment i i xs = []"
  by (simp add: segment_def)

lemma segment_splice_append:
  assumes "i \<le> j" "j + length ys \<le> length xs"
  shows "segment i (j + length ys) (splice_at j ys xs) = segment i j xs @ ys"
proof -
  have "drop i (splice_at j ys xs) = drop i (take j xs) @ ys @ drop (j + length ys) xs"
    using assms by (simp add: splice_at_def)
  moreover have "length (drop i (take j xs)) = j - i"
    using assms by simp
  moreover have "j + length ys - i = (j - i) + length ys"
    using assms by simp
  ultimately show ?thesis
    using assms by (simp add: segment_def drop_take)
qed

lemma segment_splice_prepend:
  assumes "length ys \<le> i" "i \<le> j" "j \<le> length xs"
  shows "segment (i - length ys) j (splice_at (i - length ys) ys xs) = ys @ segment i j xs"
proof -
  have "drop (i - length ys) (splice_at (i - length ys) ys xs) = ys @ drop i xs"
    using assms by (simp add: drop_splice_at_self)
  moreover have "j - (i - length ys) = length ys + (j - i)"
    using assms by simp
  ultimately show ?thesis
    by (simp add: segment_def)
qed

lemma segment_splice_front:
  assumes "k + length ys \<le> length xs"
  shows "segment k (k + length ys) (splice_at k ys xs) = ys"
  using assms by (simp add: segment_def drop_splice_at_self)

lemma segment_drop: "i + n \<le> j \<Longrightarrow> segment (i + n) j xs = drop n (segment i j xs)"
  by (simp add: segment_def drop_take add.commute)

lemma segment_append_left: "j \<le> length xs \<Longrightarrow> segment i j (xs @ ys) = segment i j xs"
  by (cases "i \<le> length xs") (simp_all add: segment_def)

section \<open>Decimal output\<close>

text \<open>\<^verbatim>\<open>printf("%u")\<close> and \<^verbatim>\<open>printf("%d")\<close> of the C library.\<close>

definition digit :: "nat \<Rightarrow> char" where
  "digit d = char_of (48 + d)"

fun print_nat :: "nat \<Rightarrow> string" where
  "print_nat n = (if n < 10 then [digit n] else print_nat (n div 10) @ [digit (n mod 10)])"

declare print_nat.simps [simp del]

definition print_int :: "int \<Rightarrow> string" where
  "print_int k = (if k < 0 then CHR ''-'' # print_nat (nat (- k)) else print_nat (nat k))"

text \<open>\<^verbatim>\<open>%0nd\<close> and \<^verbatim>\<open>%nd\<close>: minimum field width, padded with zeros or blanks on the left.\<close>

definition pad_left :: "char \<Rightarrow> nat \<Rightarrow> string \<Rightarrow> string" where
  "pad_left c n s = replicate (n - length s) c @ s"

text \<open>
  \<^verbatim>\<open>%0nd\<close> puts the zeros after the sign.
\<close>

definition print_int0 :: "nat \<Rightarrow> int \<Rightarrow> string" where
  "print_int0 n k = (if k < 0 then CHR ''-'' # pad_left (CHR ''0'') (n - 1) (print_nat (nat (- k)))
     else pad_left (CHR ''0'') n (print_nat (nat k)))"

text \<open>
  \<^verbatim>\<open>snprintf(buf, size, ...)\<close>: the string left in \<^verbatim>\<open>buf\<close> is the output cut to \<open>size - 1\<close>
  characters (the terminating zero takes one); the return value is the full length.
\<close>

definition snprintf :: "nat \<Rightarrow> string \<Rightarrow> string" where
  "snprintf sz s = take (sz - 1) s"

text \<open>Reading a decimal string back, most significant digit first (\<^verbatim>\<open>atoi\<close> on digits).\<close>

definition digit_value :: "char \<Rightarrow> nat" where
  "digit_value c = of_char c - 48"

definition read_nat :: "string \<Rightarrow> nat" where
  "read_nat s = foldl (\<lambda>acc c. 10 * acc + digit_value c) 0 s"

definition read_int :: "string \<Rightarrow> int" where
  "read_int s = (case s of c # cs \<Rightarrow> if c = CHR ''-'' then - int (read_nat cs) else int (read_nat s)
     | [] \<Rightarrow> 0)"

definition is_digit :: "char \<Rightarrow> bool" where
  "is_digit c \<longleftrightarrow> 48 \<le> (of_char c :: nat) \<and> (of_char c :: nat) \<le> 57"

lemma digit_chars:
  "digit 0 = CHR ''0''" "digit 1 = CHR ''1''" "digit (Suc 0) = CHR ''1''" "digit 2 = CHR ''2''" "digit 3 = CHR ''3''" "digit 4 = CHR ''4''"
  "digit 5 = CHR ''5''" "digit 6 = CHR ''6''" "digit 7 = CHR ''7''" "digit 8 = CHR ''8''" "digit 9 = CHR ''9''"
  by code_simp+

lemma of_char_digit: "d < 10 \<Longrightarrow> (of_char (digit d) :: nat) = 48 + d"
  by (simp add: digit_def)

lemma digit_value_digit [simp]: "d < 10 \<Longrightarrow> digit_value (digit d) = d"
  by (simp add: digit_value_def of_char_digit)

lemma is_digit_digit [simp]: "d < 10 \<Longrightarrow> is_digit (digit d)"
  by (simp add: is_digit_def of_char_digit)

lemma minus_not_digit: "\<not> is_digit (CHR ''-'')"
  by (simp add: is_digit_def)

lemma print_nat_small: "n < 10 \<Longrightarrow> print_nat n = [digit n]"
  by (simp add: print_nat.simps)

lemma print_nat_not_Nil [simp]: "print_nat n \<noteq> []"
  by (subst print_nat.simps) simp

lemma print_nat_is_digit: "c \<in> set (print_nat n) \<Longrightarrow> is_digit c"
proof (induction n rule: print_nat.induct)
  case (1 n)
  show ?case
  proof (cases "n < 10")
    case True
    with "1.prems" show ?thesis by (simp add: print_nat_small)
  next
    case False
    with "1" show ?thesis by (auto simp: print_nat.simps [of n])
  qed
qed

lemma read_nat_snoc: "read_nat (s @ [c]) = 10 * read_nat s + digit_value c"
  by (simp add: read_nat_def)

lemma read_nat_print_nat [simp]: "read_nat (print_nat n) = n"
proof (induction n rule: print_nat.induct)
  case (1 n)
  show ?case
  proof (cases "n < 10")
    case True
    then show ?thesis by (simp add: print_nat_small read_nat_def)
  next
    case False
    with "1" show ?thesis by (simp add: print_nat.simps [of n] read_nat_snoc)
  qed
qed

lemma read_int_print_int: "read_int (print_int k) = k"
proof (cases "k < 0")
  case True
  then show ?thesis by (simp add: print_int_def read_int_def)
next
  case False
  obtain c cs where cs: "print_nat (nat k) = c # cs"
    by (metis list.exhaust print_nat_not_Nil)
  have "is_digit c"
    using print_nat_is_digit [of c "nat k"] cs by simp
  then have "c \<noteq> CHR ''-''"
    using minus_not_digit by blast
  moreover have "read_nat (c # cs) = nat k"
    by (metis cs read_nat_print_nat)
  ultimately show ?thesis
    using False cs by (simp add: print_int_def read_int_def)
qed

lemma print_int_inject: "print_int j = print_int k \<Longrightarrow> j = k"
  by (metis read_int_print_int)

lemma length_print_nat_le: "n < 10 ^ k \<Longrightarrow> 0 < k \<Longrightarrow> length (print_nat n) \<le> k"
proof (induction n arbitrary: k rule: print_nat.induct)
  case (1 n)
  show ?case
  proof (cases "n < 10")
    case True
    with "1.prems" show ?thesis by (simp add: print_nat_small)
  next
    case False
    then have k: "1 < k"
      using "1.prems" by (cases "k = 1") auto
    then obtain j where j: "k = Suc j" "0 < j"
      by (cases k) auto
    then have "n div 10 < 10 ^ j"
      using "1.prems" by (simp add: less_mult_imp_div_less mult.commute)
    with "1.IH" [OF False] j show ?thesis
      using False by (simp add: print_nat.simps [of n])
  qed
qed

lemma print_nat_snoc: "0 < n \<Longrightarrow> d < 10 \<Longrightarrow> print_nat (10 * n + d) = print_nat n @ [digit d]"
  by (simp add: print_nat.simps [of "10 * n + d"])

lemma print_int_of_nat: "print_int (int n) = print_nat n"
  by (simp add: print_int_def)

lemma length_print_nat_ge: "10 ^ k \<le> n \<Longrightarrow> k < length (print_nat n)"
proof (induction k arbitrary: n)
  case (Suc k)
  then have big: "\<not> n < 10" and "10 ^ k \<le> n div 10"
    using less_eq_div_iff_mult_less_eq [of 10 "10 ^ k" n] by (auto simp: mult.commute)
  then show ?case using Suc.IH [of "n div 10"] by (simp add: print_nat.simps [of n])
qed (simp add: Suc_leI)

lemma length_print_int0: "0 \<le> k \<Longrightarrow> k < 10 ^ n \<Longrightarrow> 0 < n \<Longrightarrow> length (print_int0 n k) = n"
  using length_print_nat_le [of "nat k" n] by (simp add: print_int0_def pad_left_def nat_less_iff)

end
