(* ===== verification/Net_Endian.thy ===== *)
theory Net_Endian
  imports Muduo_Prelude
begin

text \<open>
  Byte order conversion (\<^verbatim>\<open>muduo/net/Endian.h\<close>) and the object representation of integers that
  \<^verbatim>\<open>memcpy\<close> sees. The byte order of the host is a parameter of every definition, so what is
  proved holds on both kinds of machine. \<^verbatim>\<open>htobe32\<close> and its kin are glibc's \<^verbatim>\<open>endian.h\<close>:
  the identity on a big-endian host and a byte swap on a little-endian one.
\<close>

datatype endian = Little | Big

section \<open>Words as byte lists\<close>

text \<open>\<open>word_bytes n w\<close>: the \<open>n\<close> low bytes of \<open>w\<close>, least significant first.\<close>

definition nat_bytes :: "nat \<Rightarrow> nat \<Rightarrow> char list" where
  "nat_bytes n k = map (\<lambda>i. char_of (k div 256 ^ i)) [0..<n]"

definition word_bytes :: "nat \<Rightarrow> 'a::len word \<Rightarrow> char list" where
  "word_bytes n w = nat_bytes n (unat w)"

primrec bytes_nat :: "char list \<Rightarrow> nat" where
  "bytes_nat [] = 0"
| "bytes_nat (c # cs) = of_char c + 256 * bytes_nat cs"

definition bytes_word :: "char list \<Rightarrow> 'a::len word" where
  "bytes_word cs = of_nat (bytes_nat cs)"

text \<open>The object representation of an \<open>n\<close>-byte integer in memory.\<close>

definition mem_store :: "endian \<Rightarrow> nat \<Rightarrow> 'a::len word \<Rightarrow> char list" where
  "mem_store e n w = (case e of Little \<Rightarrow> word_bytes n w | Big \<Rightarrow> rev (word_bytes n w))"

definition mem_load :: "endian \<Rightarrow> char list \<Rightarrow> 'a::len word" where
  "mem_load e cs = (case e of Little \<Rightarrow> bytes_word cs | Big \<Rightarrow> bytes_word (rev cs))"

definition bswap :: "nat \<Rightarrow> 'a::len word \<Rightarrow> 'a word" where
  "bswap n w = bytes_word (rev (word_bytes n w))"

definition htobe :: "endian \<Rightarrow> nat \<Rightarrow> 'a::len word \<Rightarrow> 'a word" where
  "htobe e n w = (case e of Little \<Rightarrow> bswap n w | Big \<Rightarrow> w)"

definition hostToNetwork64 :: "endian \<Rightarrow> 64 word \<Rightarrow> 64 word" where
  "hostToNetwork64 e host64 = htobe e 8 host64"

definition hostToNetwork32 :: "endian \<Rightarrow> 32 word \<Rightarrow> 32 word" where
  "hostToNetwork32 e host32 = htobe e 4 host32"

definition hostToNetwork16 :: "endian \<Rightarrow> 16 word \<Rightarrow> 16 word" where
  "hostToNetwork16 e host16 = htobe e 2 host16"

definition networkToHost64 :: "endian \<Rightarrow> 64 word \<Rightarrow> 64 word" where
  "networkToHost64 e net64 = htobe e 8 net64"

definition networkToHost32 :: "endian \<Rightarrow> 32 word \<Rightarrow> 32 word" where
  "networkToHost32 e net32 = htobe e 4 net32"

definition networkToHost16 :: "endian \<Rightarrow> 16 word \<Rightarrow> 16 word" where
  "networkToHost16 e net16 = htobe e 2 net16"

section \<open>Round trips\<close>

lemma length_nat_bytes [simp]: "length (nat_bytes n k) = n"
  by (simp add: nat_bytes_def)

lemma length_word_bytes [simp]: "length (word_bytes n w) = n"
  by (simp add: word_bytes_def)

lemma length_mem_store [simp]: "length (mem_store e n w) = n"
  by (simp add: mem_store_def split: endian.split)

lemma nat_bytes_Suc: "nat_bytes (Suc n) k = char_of k # nat_bytes n (k div 256)"
proof -
  have "map (\<lambda>i. char_of (k div 256 ^ i)) (map Suc [0..<n]) =
        map (\<lambda>i. char_of (k div 256 div 256 ^ i)) [0..<n]"
    by (simp add: div_mult2_eq)
  then show ?thesis
    unfolding nat_bytes_def upt_conv_Cons [OF zero_less_Suc]
    by (simp only: map_Suc_upt [symmetric] list.map power_0 div_by_1)
qed

lemma bytes_nat_less: "bytes_nat cs < 256 ^ length cs"
proof (induction cs)
  case (Cons c cs)
  have "(of_char c :: nat) < 256" by simp
  then have "of_char c + 256 * bytes_nat cs < 256 * (bytes_nat cs + 1)" by simp
  also have "\<dots> \<le> 256 * 256 ^ length cs"
    using Cons.IH by (intro mult_le_mono2) simp
  finally show ?case by simp
qed simp

lemma nat_bytes_bytes_nat: "nat_bytes (length cs) (bytes_nat cs) = cs"
proof (induction cs)
  case (Cons c cs)
  have "(of_char c + 256 * bytes_nat cs) div 256 = bytes_nat cs" by simp
  moreover have "char_of (of_char c + 256 * bytes_nat cs :: nat) = c"
    by (simp add: char_of_eq_iff take_bit_eq_mod)
  ultimately show ?case
    using Cons.IH by (simp add: nat_bytes_Suc)
qed (simp add: nat_bytes_def)

lemma bytes_nat_nat_bytes: "bytes_nat (nat_bytes n k) = k mod 256 ^ n"
proof (induction n arbitrary: k)
  case 0
  then show ?case by (simp add: nat_bytes_def)
next
  case (Suc n)
  then show ?case
    by (simp add: nat_bytes_Suc mod_mult2_eq add.commute)
qed

lemma bytes_word_word_bytes:
  fixes w :: "'a::len word"
  assumes "LENGTH('a) = 8 * n"
  shows "bytes_word (word_bytes n w) = w"
proof -
  have "unat w < 256 ^ n"
    using unsigned_less [of w] assms by (simp add: power_mult)
  then show ?thesis
    by (simp add: bytes_word_def word_bytes_def bytes_nat_nat_bytes)
qed

lemma word_bytes_bytes_word:
  assumes "LENGTH('a::len) = 8 * length cs"
  shows "word_bytes (length cs) (bytes_word cs :: 'a word) = cs"
proof -
  have "bytes_nat cs < 2 ^ LENGTH('a)"
    using bytes_nat_less [of cs] assms by (simp add: power_mult)
  then have "unat (of_nat (bytes_nat cs) :: 'a word) = bytes_nat cs"
    by (simp add: unat_of_nat take_bit_nat_eq_self)
  then show ?thesis
    by (simp add: word_bytes_def bytes_word_def nat_bytes_bytes_nat)
qed

lemma word_bytes_bswap:
  fixes w :: "'a::len word"
  assumes "LENGTH('a) = 8 * n"
  shows "word_bytes n (bytes_word (rev (word_bytes n w)) :: 'a word) = rev (word_bytes n w)"
  using word_bytes_bytes_word [where 'a = 'a, of "rev (word_bytes n w)"] assms by simp

text \<open>
  On either host the bytes that go out are the most significant first, and loading them and
  converting back gives the value.
\<close>

lemma mem_store_htobe:
  fixes w :: "'a::len word"
  assumes "LENGTH('a) = 8 * n"
  shows "mem_store e n (htobe e n w) = rev (word_bytes n w)"
proof (cases e)
  case Little
  with assms show ?thesis by (simp add: mem_store_def htobe_def bswap_def word_bytes_bswap)
next
  case Big
  then show ?thesis by (simp add: mem_store_def htobe_def)
qed

lemma htobe_mem_load:
  fixes w :: "'a::len word"
  assumes "LENGTH('a) = 8 * n"
  shows "htobe e n (mem_load e (rev (word_bytes n w))) = w"
proof (cases e)
  case Little
  with assms show ?thesis
    by (simp add: mem_load_def htobe_def bswap_def bytes_word_word_bytes word_bytes_bswap)
next
  case Big
  then show ?thesis
    using assms by (simp add: mem_load_def htobe_def bytes_word_word_bytes)
qed

lemma htobe_involution:
  fixes w :: "'a::len word"
  assumes "LENGTH('a) = 8 * n"
  shows "htobe e n (htobe e n w) = w"
proof (cases e)
  case Little
  with assms show ?thesis
    by (simp add: htobe_def bswap_def bytes_word_word_bytes word_bytes_bswap)
qed (simp add: htobe_def)

end
