(* ===== verification/Net_Buffer.thy ===== *)
theory Net_Buffer
  imports Net_Endian
begin

text \<open>
  The network buffer (\<^verbatim>\<open>muduo/net/Buffer.h\<close>, \<^verbatim>\<open>Buffer.cc\<close>): a vector of bytes with a read and a
  write index. Pointers into the vector (\<^verbatim>\<open>peek()\<close>, \<^verbatim>\<open>beginWrite()\<close>, the results of \<^verbatim>\<open>findCRLF\<close>)
  are offsets from \<^verbatim>\<open>begin()\<close>. Sizes are \<open>nat\<close>: every sum the code forms is bounded by the size
  of a vector that exists in memory, far below the range of \<^verbatim>\<open>size_t\<close>; running out of memory is
  not modelled. The contract of the buffer is the locale \<open>byte_queue\<close>, a FIFO of bytes.
\<close>

section \<open>State\<close>

definition kCheapPrepend :: nat where
  "kCheapPrepend = 8"

definition kInitialSize :: nat where
  "kInitialSize = 1024"

definition kCRLF :: string where
  "kCRLF = [CHR 0x0D, CHR 0x0A]"

record buffer =
  buf :: "char list"
  readerIndex :: nat
  writerIndex :: nat

definition Buffer_new :: buffer where
  "Buffer_new = \<lparr>buf = replicate (kCheapPrepend + kInitialSize) (CHR 0x00),
     readerIndex = kCheapPrepend, writerIndex = kCheapPrepend\<rparr>"

definition swap_buffer :: "buffer \<Rightarrow> buffer \<Rightarrow> buffer \<times> buffer" where
  "swap_buffer a b =
     (a\<lparr>buf := buf b, readerIndex := readerIndex b, writerIndex := writerIndex b\<rparr>,
      b\<lparr>buf := buf a, readerIndex := readerIndex a, writerIndex := writerIndex a\<rparr>)"

definition readableBytes :: "buffer \<Rightarrow> nat" where
  "readableBytes b = writerIndex b - readerIndex b"

definition writableBytes :: "buffer \<Rightarrow> nat" where
  "writableBytes b = length (buf b) - writerIndex b"

definition prependableBytes :: "buffer \<Rightarrow> nat" where
  "prependableBytes b = readerIndex b"

definition peek :: "buffer \<Rightarrow> nat" where
  "peek b = readerIndex b"

definition beginWrite :: "buffer \<Rightarrow> nat" where
  "beginWrite b = writerIndex b"

text \<open>The bytes a reader sees, from \<^verbatim>\<open>peek()\<close> up to \<^verbatim>\<open>beginWrite()\<close>.\<close>

definition readable :: "buffer \<Rightarrow> char list" where
  "readable b = segment (peek b) (beginWrite b) (buf b)"

section \<open>Searching\<close>

text \<open>\<^verbatim>\<open>std::search\<close>: the offset of the first occurrence of a pattern, or the length.\<close>

fun std_search :: "'a list \<Rightarrow> 'a list \<Rightarrow> nat" where
  "std_search [] pat = 0"
| "std_search (x # xs) pat = (if prefix pat (x # xs) then 0 else Suc (std_search xs pat))"

definition findCRLF :: "buffer \<Rightarrow> nat option" where
  "findCRLF b =
     (let crlf = peek b + std_search (segment (peek b) (beginWrite b) (buf b)) kCRLF
      in if crlf = beginWrite b then None else Some crlf)"

definition findCRLF_from :: "buffer \<Rightarrow> nat \<Rightarrow> nat option option" where
  "findCRLF_from b start =
     do {
       check (peek b \<le> start);
       check (start \<le> beginWrite b);
       Some (let crlf = start + std_search (segment start (beginWrite b) (buf b)) kCRLF
             in if crlf = beginWrite b then None else Some crlf)
     }"

section \<open>Consuming\<close>

definition retrieveAll :: "buffer \<Rightarrow> buffer" where
  "retrieveAll b = b\<lparr>readerIndex := kCheapPrepend, writerIndex := kCheapPrepend\<rparr>"

definition retrieve :: "buffer \<Rightarrow> nat \<Rightarrow> buffer option" where
  "retrieve b len =
     do {
       check (len \<le> readableBytes b);
       Some (if len < readableBytes b then b\<lparr>readerIndex := readerIndex b + len\<rparr>
             else retrieveAll b)
     }"

definition retrieveUntil :: "buffer \<Rightarrow> nat \<Rightarrow> buffer option" where
  "retrieveUntil b endp =
     do {
       check (peek b \<le> endp);
       check (endp \<le> beginWrite b);
       retrieve b (endp - peek b)
     }"

definition retrieveInt32 :: "buffer \<Rightarrow> buffer option" where
  "retrieveInt32 b = retrieve b 4"

definition retrieveInt16 :: "buffer \<Rightarrow> buffer option" where
  "retrieveInt16 b = retrieve b 2"

definition retrieveInt8 :: "buffer \<Rightarrow> buffer option" where
  "retrieveInt8 b = retrieve b 1"

definition retrieveAsString :: "buffer \<Rightarrow> nat \<Rightarrow> (string \<times> buffer) option" where
  "retrieveAsString b len =
     do {
       check (len \<le> readableBytes b);
       let result = take len (drop (peek b) (buf b));
       b' \<leftarrow> retrieve b len;
       Some (result, b')
     }"

definition retrieveAllAsString :: "buffer \<Rightarrow> (string \<times> buffer) option" where
  "retrieveAllAsString b = retrieveAsString b (readableBytes b)"

text \<open>
  \<^verbatim>\<open>StringPiece\<close> holds its length in an \<^verbatim>\<open>int\<close>: \<open>None\<close> when the readable length does not fit.
\<close>

definition toStringPiece :: "buffer \<Rightarrow> string option" where
  "toStringPiece b =
     (if readableBytes b < 2 ^ 31 then Some (take (readableBytes b) (drop (peek b) (buf b))) else None)"

section \<open>Making room and appending\<close>

definition vector_resize :: "nat \<Rightarrow> char list \<Rightarrow> char list" where
  "vector_resize n xs = take n xs @ replicate (n - length xs) (CHR 0x00)"

definition makeSpace :: "buffer \<Rightarrow> nat \<Rightarrow> buffer option" where
  "makeSpace b len =
     (if writableBytes b + prependableBytes b < len + kCheapPrepend
      then Some (b\<lparr>buf := vector_resize (writerIndex b + len) (buf b)\<rparr>)
      else do {
        check (kCheapPrepend < readerIndex b);
        let rd = readableBytes b;
        let b' = b\<lparr>buf := splice_at kCheapPrepend
                     (segment (readerIndex b) (writerIndex b) (buf b)) (buf b),
                   readerIndex := kCheapPrepend,
                   writerIndex := kCheapPrepend + rd\<rparr>;
        check (rd = readableBytes b');
        Some b'
      })"

definition ensureWritableBytes :: "buffer \<Rightarrow> nat \<Rightarrow> buffer option" where
  "ensureWritableBytes b len =
     do {
       b' \<leftarrow> (if writableBytes b < len then makeSpace b len else Some b);
       check (len \<le> writableBytes b');
       Some b'
     }"

definition hasWritten :: "buffer \<Rightarrow> nat \<Rightarrow> buffer" where
  "hasWritten b len = b\<lparr>writerIndex := writerIndex b + len\<rparr>"

definition append_buffer :: "buffer \<Rightarrow> char list \<Rightarrow> buffer option" where
  "append_buffer b data =
     do {
       b' \<leftarrow> ensureWritableBytes b (length data);
       let b'' = b'\<lparr>buf := splice_at (beginWrite b') data (buf b')\<rparr>;
       Some (hasWritten b'' (length data))
     }"

definition prepend :: "buffer \<Rightarrow> char list \<Rightarrow> buffer option" where
  "prepend b data =
     do {
       check (length data \<le> prependableBytes b);
       let r = readerIndex b - length data;
       Some (b\<lparr>readerIndex := r, buf := splice_at r data (buf b)\<rparr>)
     }"

definition shrink :: "buffer \<Rightarrow> nat \<Rightarrow> buffer option" where
  "shrink b reserve =
     do {
       other \<leftarrow> ensureWritableBytes Buffer_new (readableBytes b + reserve);
       piece \<leftarrow> toStringPiece b;
       other' \<leftarrow> append_buffer other piece;
       Some (fst (swap_buffer b other'))
     }"

section \<open>Integers in network byte order\<close>

definition appendInt32 :: "endian \<Rightarrow> buffer \<Rightarrow> 32 word \<Rightarrow> buffer option" where
  "appendInt32 e b x = (let be32 = hostToNetwork32 e x in append_buffer b (mem_store e 4 be32))"

definition appendInt16 :: "endian \<Rightarrow> buffer \<Rightarrow> 16 word \<Rightarrow> buffer option" where
  "appendInt16 e b x = (let be16 = hostToNetwork16 e x in append_buffer b (mem_store e 2 be16))"

definition appendInt8 :: "endian \<Rightarrow> buffer \<Rightarrow> 8 word \<Rightarrow> buffer option" where
  "appendInt8 e b x = append_buffer b (mem_store e 1 x)"

definition peekInt32 :: "endian \<Rightarrow> buffer \<Rightarrow> 32 word option" where
  "peekInt32 e b =
     do {
       check (4 \<le> readableBytes b);
       let be32 = mem_load e (take 4 (drop (peek b) (buf b)));
       Some (networkToHost32 e be32)
     }"

definition peekInt16 :: "endian \<Rightarrow> buffer \<Rightarrow> 16 word option" where
  "peekInt16 e b =
     do {
       check (2 \<le> readableBytes b);
       let be16 = mem_load e (take 2 (drop (peek b) (buf b)));
       Some (networkToHost16 e be16)
     }"

definition peekInt8 :: "endian \<Rightarrow> buffer \<Rightarrow> 8 word option" where
  "peekInt8 e b =
     do {
       check (1 \<le> readableBytes b);
       Some (mem_load e (take 1 (drop (peek b) (buf b))))
     }"

definition readInt32 :: "endian \<Rightarrow> buffer \<Rightarrow> (32 word \<times> buffer) option" where
  "readInt32 e b = do { result \<leftarrow> peekInt32 e b; b' \<leftarrow> retrieveInt32 b; Some (result, b') }"

definition readInt16 :: "endian \<Rightarrow> buffer \<Rightarrow> (16 word \<times> buffer) option" where
  "readInt16 e b = do { result \<leftarrow> peekInt16 e b; b' \<leftarrow> retrieveInt16 b; Some (result, b') }"

definition readInt8 :: "endian \<Rightarrow> buffer \<Rightarrow> (8 word \<times> buffer) option" where
  "readInt8 e b = do { result \<leftarrow> peekInt8 e b; b' \<leftarrow> retrieveInt8 b; Some (result, b') }"

definition prependInt32 :: "endian \<Rightarrow> buffer \<Rightarrow> 32 word \<Rightarrow> buffer option" where
  "prependInt32 e b x = (let be32 = hostToNetwork32 e x in prepend b (mem_store e 4 be32))"

definition prependInt16 :: "endian \<Rightarrow> buffer \<Rightarrow> 16 word \<Rightarrow> buffer option" where
  "prependInt16 e b x = (let be16 = hostToNetwork16 e x in prepend b (mem_store e 2 be16))"

definition prependInt8 :: "endian \<Rightarrow> buffer \<Rightarrow> 8 word \<Rightarrow> buffer option" where
  "prependInt8 e b x = prepend b (mem_store e 1 x)"

section \<open>Reading from a descriptor\<close>

text \<open>
  What \<^verbatim>\<open>readv(2)\<close> did: it failed with an error number, or it delivered some bytes, first into
  the writable part of the vector and then into the 65536 bytes of \<^verbatim>\<open>extrabuf\<close> on the stack.
\<close>

datatype readv_result = ReadvError int | ReadvData "char list"

definition extrabuf_size :: nat where
  "extrabuf_size = 65536"

definition readFd :: "buffer \<Rightarrow> readv_result \<Rightarrow> (buffer \<times> int \<times> int option) option" where
  "readFd b r =
     (let writable = writableBytes b in
      case r of
        ReadvError errno \<Rightarrow> Some (b, - 1, Some errno)
      | ReadvData d \<Rightarrow>
          let n = length d;
              b' = b\<lparr>buf := splice_at (writerIndex b) (take writable d) (buf b)\<rparr>;
              extrabuf = drop writable d
          in if n \<le> writable
             then Some (b'\<lparr>writerIndex := writerIndex b' + n\<rparr>, int n, None)
             else do {
               b'' \<leftarrow> append_buffer (b'\<lparr>writerIndex := length (buf b')\<rparr>) extrabuf;
               Some (b'', int n, None)
             })"

section \<open>The contract: a FIFO of bytes\<close>

text \<open>
  What the clients of the buffer (connections, codecs, parsers) rely on.
\<close>

locale byte_queue =
  fixes empty :: "'q"
    and push :: "'q \<Rightarrow> char list \<Rightarrow> 'q option"
    and pop :: "'q \<Rightarrow> nat \<Rightarrow> 'q option"
    and contents :: "'q \<Rightarrow> char list"
    and invar :: "'q \<Rightarrow> bool"
  assumes invar_empty: "invar empty"
    and contents_empty: "contents empty = []"
    and push_ok: "invar q \<Longrightarrow> \<exists>q'. push q xs = Some q' \<and> invar q' \<and> contents q' = contents q @ xs"
    and pop_ok: "invar q \<Longrightarrow> n \<le> length (contents q) \<Longrightarrow>
      \<exists>q'. pop q n = Some q' \<and> invar q' \<and> contents q' = drop n (contents q)"
    and pop_overrun: "invar q \<Longrightarrow> length (contents q) < n \<Longrightarrow> pop q n = None"

text \<open>A client's use of a queue: a sequence of appends and retrieves, and its run.\<close>

datatype queue_op = Push "char list" | Pop nat

fun run_queue :: "('q \<Rightarrow> char list \<Rightarrow> 'q option) \<Rightarrow> ('q \<Rightarrow> nat \<Rightarrow> 'q option) \<Rightarrow> 'q \<Rightarrow>
    queue_op list \<Rightarrow> 'q option" where
  "run_queue push pop q [] = Some q"
| "run_queue push pop q (Push xs # ops) = push q xs \<bind> (\<lambda>q'. run_queue push pop q' ops)"
| "run_queue push pop q (Pop n # ops) = pop q n \<bind> (\<lambda>q'. run_queue push pop q' ops)"

text \<open>The abstract queue: a list of bytes.\<close>

definition list_push :: "char list \<Rightarrow> char list \<Rightarrow> char list option" where
  "list_push xs ys = Some (xs @ ys)"

definition list_pop :: "char list \<Rightarrow> nat \<Rightarrow> char list option" where
  "list_pop xs n = (if n \<le> length xs then Some (drop n xs) else None)"

context byte_queue
begin

lemma run_refines:
  "invar q \<Longrightarrow> map_option contents (run_queue push pop q ops) =
     run_queue list_push list_pop (contents q) ops"
proof (induction ops arbitrary: q)
  case Nil
  then show ?case by simp
next
  case (Cons op ops)
  show ?case
  proof (cases op)
    case (Push xs)
    with push_ok [OF Cons.prems, of xs] Cons.IH show ?thesis
      by (auto simp: list_push_def)
  next
    case (Pop n)
    show ?thesis
    proof (cases "n \<le> length (contents q)")
      case True
      with pop_ok [OF Cons.prems True] Cons.IH Pop show ?thesis
        by (auto simp: list_pop_def)
    next
      case False
      with pop_overrun [OF Cons.prems, of n] Pop show ?thesis
        by (simp add: list_pop_def)
    qed
  qed
qed

lemma run_invar: "invar q \<Longrightarrow> run_queue push pop q ops = Some q' \<Longrightarrow> invar q'"
proof (induction ops arbitrary: q)
  case Nil
  then show ?case by simp
next
  case (Cons op ops)
  show ?case
  proof (cases op)
    case (Push xs)
    with push_ok [OF Cons.prems(1), of xs] Cons show ?thesis by auto
  next
    case (Pop n)
    with Cons.prems have "n \<le> length (contents q)"
      using pop_overrun [OF Cons.prems(1), of n] by (cases "n \<le> length (contents q)") auto
    with pop_ok [OF Cons.prems(1) this] Cons Pop show ?thesis by auto
  qed
qed

lemma run_push_all: "invar q \<Longrightarrow>
  \<exists>q'. run_queue push pop q (map Push xss) = Some q' \<and> invar q' \<and> contents q' = contents q @ concat xss"
proof (induction xss arbitrary: q)
  case Nil
  then show ?case by simp
next
  case (Cons xs xss)
  obtain q1 where q1: "push q xs = Some q1" "invar q1" "contents q1 = contents q @ xs"
    using push_ok [OF Cons.prems] by blast
  from Cons.IH [OF q1(2)] q1 show ?case by auto
qed

end

section \<open>The buffer meets the contract\<close>

definition buffer_inv :: "buffer \<Rightarrow> bool" where
  "buffer_inv b \<longleftrightarrow> readerIndex b \<le> writerIndex b \<and> writerIndex b \<le> length (buf b) \<and>
     kCheapPrepend \<le> length (buf b)"

lemmas buffer_index_defs =
  readableBytes_def writableBytes_def prependableBytes_def peek_def beginWrite_def

lemma Buffer_new_inv [simp]: "buffer_inv Buffer_new"
  by (simp add: buffer_inv_def Buffer_new_def)

lemma readable_Buffer_new [simp]: "readable Buffer_new = []"
  by (simp add: readable_def Buffer_new_def buffer_index_defs)

lemma length_readable: "buffer_inv b \<Longrightarrow> length (readable b) = readableBytes b"
  by (simp add: buffer_inv_def readable_def buffer_index_defs)

lemma retrieveAll_inv [simp]: "buffer_inv b \<Longrightarrow> buffer_inv (retrieveAll b)"
  by (simp add: buffer_inv_def retrieveAll_def)

lemma readable_retrieveAll [simp]: "readable (retrieveAll b) = []"
  by (simp add: readable_def retrieveAll_def buffer_index_defs)

lemma retrieve_ok:
  assumes "buffer_inv b" "n \<le> length (readable b)"
  shows "\<exists>b'. retrieve b n = Some b' \<and> buffer_inv b' \<and> readable b' = drop n (readable b)"
proof (cases "n < readableBytes b")
  case True
  then have "readable (b\<lparr>readerIndex := readerIndex b + n\<rparr>) = drop n (readable b)"
    by (simp add: readable_def buffer_index_defs segment_drop)
  with True assms show ?thesis
    by (simp add: retrieve_def length_readable buffer_inv_def buffer_index_defs)
next
  case False
  with assms show ?thesis by (simp add: retrieve_def length_readable)
qed

lemma retrieve_overrun: "buffer_inv b \<Longrightarrow> length (readable b) < n \<Longrightarrow> retrieve b n = None"
  by (simp add: retrieve_def length_readable)

lemma makeSpace_ok:
  assumes "buffer_inv b" "writableBytes b < len"
  shows "\<exists>b'. makeSpace b len = Some b' \<and> buffer_inv b' \<and> readable b' = readable b \<and>
    len \<le> writableBytes b'"
proof (cases "writableBytes b + prependableBytes b < len + kCheapPrepend")
  case True
  let ?v = "vector_resize (writerIndex b + len) (buf b)"
  from assms have len: "length (buf b) < writerIndex b + len"
    by (simp add: buffer_index_defs)
  then have v: "?v = buf b @ replicate (writerIndex b + len - length (buf b)) (CHR 0x00)"
    by (simp add: vector_resize_def)
  then have "length ?v = writerIndex b + len"
    using len by simp
  moreover have "segment (readerIndex b) (writerIndex b) ?v = readable b"
    using assms v by (simp add: segment_append_left readable_def buffer_inv_def buffer_index_defs)
  ultimately show ?thesis
    using True assms len
    by (simp add: makeSpace_def buffer_inv_def readable_def buffer_index_defs)
next
  case False
  let ?seg = "segment (readerIndex b) (writerIndex b) (buf b)"
  from False assms have room: "kCheapPrepend < readerIndex b"
    by (simp add: buffer_index_defs)
  have seg: "length ?seg = writerIndex b - readerIndex b"
    using assms by (simp add: buffer_inv_def)
  then have fits: "kCheapPrepend + length ?seg \<le> length (buf b)"
    using assms room by (auto simp: buffer_inv_def)
  then have "segment kCheapPrepend (kCheapPrepend + length ?seg) (splice_at kCheapPrepend ?seg (buf b)) = ?seg"
    by (rule segment_splice_front)
  then show ?thesis
    using False assms room seg fits
    by (auto simp: makeSpace_def buffer_inv_def readable_def buffer_index_defs)
qed

lemma ensureWritableBytes_ok:
  assumes "buffer_inv b"
  shows "\<exists>b'. ensureWritableBytes b len = Some b' \<and> buffer_inv b' \<and> readable b' = readable b \<and>
    len \<le> writableBytes b'"
proof (cases "writableBytes b < len")
  case True
  from makeSpace_ok [OF assms True] True show ?thesis
    by (auto simp: ensureWritableBytes_def)
next
  case False
  with assms show ?thesis by (simp add: ensureWritableBytes_def)
qed

text \<open>Writing into room that is already there.\<close>

lemma write_in_place:
  assumes "buffer_inv b" "length data \<le> writableBytes b"
  defines "b' \<equiv> b\<lparr>buf := splice_at (writerIndex b) data (buf b), writerIndex := writerIndex b + length data\<rparr>"
  shows "buffer_inv b'" and "readable b' = readable b @ data"
proof -
  have fits: "writerIndex b + length data \<le> length (buf b)"
    using assms by (auto simp: buffer_inv_def buffer_index_defs)
  with assms show "buffer_inv b'"
    by (simp add: buffer_inv_def)
  from fits assms show "readable b' = readable b @ data"
    by (simp add: readable_def buffer_index_defs buffer_inv_def segment_splice_append)
qed

lemma append_ok:
  assumes "buffer_inv b"
  shows "\<exists>b'. append_buffer b data = Some b' \<and> buffer_inv b' \<and> readable b' = readable b @ data"
proof -
  obtain b1 where b1: "ensureWritableBytes b (length data) = Some b1" "buffer_inv b1"
      "readable b1 = readable b" "length data \<le> writableBytes b1"
    using ensureWritableBytes_ok [OF assms] by blast
  show ?thesis
    using write_in_place [OF b1(2,4)] b1
    by (simp add: append_buffer_def hasWritten_def beginWrite_def)
qed

interpretation net_buffer: byte_queue Buffer_new append_buffer retrieve readable buffer_inv
  by unfold_locales (simp_all add: append_ok retrieve_ok retrieve_overrun)

text \<open>
  Only \<^verbatim>\<open>prepend\<close> uses the room in front of the data: a buffer that is appended to and
  retrieved from keeps its first eight bytes free.
\<close>

definition cheap_inv :: "buffer \<Rightarrow> bool" where
  "cheap_inv b \<longleftrightarrow> buffer_inv b \<and> kCheapPrepend \<le> readerIndex b"

lemma makeSpace_cheap:
  "makeSpace b len = Some b' \<Longrightarrow> kCheapPrepend \<le> readerIndex b \<Longrightarrow> kCheapPrepend \<le> readerIndex b'"
  by (auto simp: makeSpace_def Let_def split: if_splits)

lemma append_cheap:
  "append_buffer b data = Some b' \<Longrightarrow> kCheapPrepend \<le> readerIndex b \<Longrightarrow> kCheapPrepend \<le> readerIndex b'"
  by (auto simp: append_buffer_def ensureWritableBytes_def hasWritten_def bind_eq_Some_conv
      dest: makeSpace_cheap split: if_splits)

lemma retrieve_cheap:
  "retrieve b n = Some b' \<Longrightarrow> kCheapPrepend \<le> readerIndex b \<Longrightarrow> kCheapPrepend \<le> readerIndex b'"
  by (auto simp: retrieve_def retrieveAll_def)

interpretation cheap_buffer: byte_queue Buffer_new append_buffer retrieve readable cheap_inv
proof unfold_locales
  show "cheap_inv Buffer_new" by (simp add: cheap_inv_def) (simp add: Buffer_new_def)
  show "readable Buffer_new = []" by simp
next
  fix q xs
  assume "cheap_inv q"
  then show "\<exists>q'. append_buffer q xs = Some q' \<and> cheap_inv q' \<and> readable q' = readable q @ xs"
    using append_ok [of q xs] append_cheap [of q xs] by (auto simp: cheap_inv_def)
next
  fix q n
  assume "cheap_inv q" "n \<le> length (readable q)"
  then show "\<exists>q'. retrieve q n = Some q' \<and> cheap_inv q' \<and> readable q' = drop n (readable q)"
    using retrieve_ok [of q n] retrieve_cheap [of q n] by (auto simp: cheap_inv_def)
next
  fix q n
  assume "cheap_inv q" "length (readable q) < n"
  then show "retrieve q n = None" by (simp add: cheap_inv_def retrieve_overrun)
qed

section \<open>Prepending, shrinking, reading from a descriptor\<close>

lemma prepend_ok:
  assumes "buffer_inv b" "length data \<le> prependableBytes b"
  shows "\<exists>b'. prepend b data = Some b' \<and> buffer_inv b' \<and> readable b' = data @ readable b"
proof -
  have "segment (readerIndex b - length data) (writerIndex b)
      (splice_at (readerIndex b - length data) data (buf b)) = data @ readable b"
    using assms segment_splice_prepend [of data "readerIndex b" "writerIndex b" "buf b"]
    by (simp add: readable_def buffer_inv_def buffer_index_defs)
  then show ?thesis
    using assms by (auto simp: prepend_def readable_def buffer_inv_def buffer_index_defs Let_def)
qed

lemma take_readable:
  "buffer_inv b \<Longrightarrow> n \<le> readableBytes b \<Longrightarrow> take n (drop (peek b) (buf b)) = take n (readable b)"
  by (simp add: readable_def segment_def buffer_index_defs min_def)

lemma toStringPiece_eq:
  "buffer_inv b \<Longrightarrow> readableBytes b < 2 ^ 31 \<Longrightarrow> toStringPiece b = Some (readable b)"
  by (simp add: toStringPiece_def take_readable length_readable)

lemma append_room:
  assumes "buffer_inv b" "length data \<le> writableBytes b" "append_buffer b data = Some b'"
  shows "writableBytes b' = writableBytes b - length data"
proof -
  have "writerIndex b + length data \<le> length (buf b)"
    using assms(1,2) by (auto simp: buffer_inv_def buffer_index_defs)
  with assms show ?thesis
    by (auto simp: append_buffer_def ensureWritableBytes_def hasWritten_def buffer_index_defs)
qed

lemma readFd_ok:
  assumes "buffer_inv b"
  shows "\<exists>b'. readFd b (ReadvData d) = Some (b', int (length d), None) \<and> buffer_inv b' \<and>
    readable b' = readable b @ d"
proof (cases "length d \<le> writableBytes b")
  case True
  then show ?thesis
    using write_in_place [OF assms True] by (simp add: readFd_def Let_def)
next
  case False
  let ?d = "take (writableBytes b) d"
  let ?b = "b\<lparr>buf := splice_at (writerIndex b) ?d (buf b), writerIndex := writerIndex b + length ?d\<rparr>"
  have len: "length ?d = writableBytes b"
    using False by simp
  then have b: "buffer_inv ?b" "readable ?b = readable b @ ?d"
    using write_in_place [OF assms, of ?d] by simp_all
  have "writerIndex b + length ?d = length (splice_at (writerIndex b) ?d (buf b))"
    using assms len by (auto simp: buffer_inv_def writableBytes_def)
  then have "readFd b (ReadvData d) =
      append_buffer ?b (drop (writableBytes b) d) \<bind> (\<lambda>b''. Some (b'', int (length d), None))"
    using False by (simp add: readFd_def Let_def)
  then show ?thesis
    using append_ok [OF b(1), of "drop (writableBytes b) d"] b(2) by auto
qed

section \<open>Integers\<close>

lemma mem_store_net32 [simp]: "mem_store e 4 (hostToNetwork32 e x) = rev (word_bytes 4 x)"
  by (simp add: hostToNetwork32_def mem_store_htobe)

lemma mem_store_net16 [simp]: "mem_store e 2 (hostToNetwork16 e x) = rev (word_bytes 2 x)"
  by (simp add: hostToNetwork16_def mem_store_htobe)

lemma peekInt32_ok:
  assumes "buffer_inv b" "readable b = rev (word_bytes 4 x) @ rest"
  shows "peekInt32 e b = Some x"
proof -
  have "4 \<le> readableBytes b"
    using assms length_readable [of b] by simp
  then show ?thesis
    using assms take_readable [of b 4]
    by (simp add: peekInt32_def networkToHost32_def htobe_mem_load)
qed

lemma peekInt16_ok:
  assumes "buffer_inv b" "readable b = rev (word_bytes 2 x) @ rest"
  shows "peekInt16 e b = Some x"
proof -
  have "2 \<le> readableBytes b"
    using assms length_readable [of b] by simp
  then show ?thesis
    using assms take_readable [of b 2]
    by (simp add: peekInt16_def networkToHost16_def htobe_mem_load)
qed

lemma readInt32_ok:
  assumes "buffer_inv b" "readable b = rev (word_bytes 4 x) @ rest"
  shows "\<exists>b'. readInt32 e b = Some (x, b') \<and> buffer_inv b' \<and> readable b' = rest"
  using retrieve_ok [OF assms(1), of 4] peekInt32_ok [OF assms] assms(2)
  by (auto simp: readInt32_def retrieveInt32_def)

lemma readInt16_ok:
  assumes "buffer_inv b" "readable b = rev (word_bytes 2 x) @ rest"
  shows "\<exists>b'. readInt16 e b = Some (x, b') \<and> buffer_inv b' \<and> readable b' = rest"
  using retrieve_ok [OF assms(1), of 2] peekInt16_ok [OF assms] assms(2)
  by (auto simp: readInt16_def retrieveInt16_def)

text \<open>A client that writes a list of integers and one that reads them back.\<close>

fun appendInt32s :: "endian \<Rightarrow> buffer \<Rightarrow> 32 word list \<Rightarrow> buffer option" where
  "appendInt32s e b [] = Some b"
| "appendInt32s e b (x # xs) = appendInt32 e b x \<bind> (\<lambda>b'. appendInt32s e b' xs)"

fun readInt32s :: "endian \<Rightarrow> buffer \<Rightarrow> nat \<Rightarrow> (32 word list \<times> buffer) option" where
  "readInt32s e b 0 = Some ([], b)"
| "readInt32s e b (Suc n) =
     do { (x, b') \<leftarrow> readInt32 e b; (xs, b'') \<leftarrow> readInt32s e b' n; Some (x # xs, b'') }"

lemma appendInt32s_ok:
  assumes "buffer_inv b"
  shows "\<exists>b'. appendInt32s e b xs = Some b' \<and> buffer_inv b' \<and>
    readable b' = readable b @ concat (map (\<lambda>x. rev (word_bytes 4 x)) xs)"
  using assms
proof (induction xs arbitrary: b)
  case (Cons x xs)
  obtain b1 where "append_buffer b (rev (word_bytes 4 x)) = Some b1" "buffer_inv b1"
      "readable b1 = readable b @ rev (word_bytes 4 x)"
    using append_ok [OF Cons.prems] by blast
  with Cons.IH [of b1] show ?case by (auto simp: appendInt32_def)
qed simp

lemma readInt32s_ok:
  assumes "buffer_inv b" "readable b = concat (map (\<lambda>x. rev (word_bytes 4 x)) xs) @ rest"
  shows "\<exists>b'. readInt32s e b (length xs) = Some (xs, b') \<and> buffer_inv b' \<and> readable b' = rest"
  using assms
proof (induction xs arbitrary: b)
  case (Cons x xs)
  obtain b1 where "readInt32 e b = Some (x, b1)" "buffer_inv b1"
      "readable b1 = concat (map (\<lambda>x. rev (word_bytes 4 x)) xs) @ rest"
    using readInt32_ok [of b x "concat (map (\<lambda>x. rev (word_bytes 4 x)) xs) @ rest" e] Cons.prems
    by auto
  with Cons.IH [of b1] show ?case by auto
qed simp

section \<open>Searching\<close>

lemma std_search_least:
  assumes "pat \<noteq> []"
  shows "std_search xs pat =
    (if \<exists>k. prefix pat (drop k xs) then LEAST k. prefix pat (drop k xs) else length xs)"
proof (induction xs)
  case Nil
  with assms show ?case by simp
next
  case (Cons x xs)
  have shift: "(\<exists>k. prefix pat (drop k (x # xs))) \<longleftrightarrow> prefix pat (x # xs) \<or> (\<exists>k. prefix pat (drop k xs))"
    by (metis drop0 drop_Suc_Cons not0_implies_Suc)
  show ?case
  proof (cases "prefix pat (x # xs)")
    case True
    moreover from this have "(LEAST k. prefix pat (drop k (x # xs))) = 0"
      by (intro Least_equality) simp_all
    ultimately show ?thesis by (auto intro: exI [of _ 0])
  next
    case False
    have "(LEAST k. prefix pat (drop k (x # xs))) = Suc (LEAST k. prefix pat (drop (Suc k) (x # xs)))"
      if "prefix pat (drop k xs)" for k
      using False that by (intro Least_Suc [of _ "Suc k"]) simp_all
    with False Cons.IH shift show ?thesis by auto
  qed
qed

lemma std_search_found:
  assumes "pat \<noteq> []" "std_search xs pat \<noteq> length xs"
  shows "prefix pat (drop (std_search xs pat) xs)" "std_search xs pat + length pat \<le> length xs"
    "j < std_search xs pat \<Longrightarrow> \<not> prefix pat (drop j xs)"
proof -
  have ex: "\<exists>k. prefix pat (drop k xs)" and eq: "std_search xs pat = (LEAST k. prefix pat (drop k xs))"
    using std_search_least [OF assms(1), of xs] assms(2) by (auto split: if_splits)
  show pre: "prefix pat (drop (std_search xs pat) xs)"
    unfolding eq using ex by (rule LeastI_ex)
  show "j < std_search xs pat \<Longrightarrow> \<not> prefix pat (drop j xs)"
    unfolding eq by (rule not_less_Least)
  from pre have "length pat \<le> length xs - std_search xs pat"
    using prefix_length_le by fastforce
  moreover have "0 < length pat" using assms(1) by simp
  ultimately show "std_search xs pat + length pat \<le> length xs" by linarith
qed

lemma findCRLF_eq:
  assumes "buffer_inv b"
  shows "findCRLF b = (if std_search (readable b) kCRLF = length (readable b) then None
    else Some (peek b + std_search (readable b) kCRLF))"
  using assms by (auto simp: findCRLF_def readable_def buffer_inv_def buffer_index_defs Let_def)

lemma sublist_iff_prefix_drop: "sublist pat xs \<longleftrightarrow> (\<exists>k. prefix pat (drop k xs))"
proof
  assume "sublist pat xs"
  then obtain ps ss where "xs = ps @ pat @ ss" by (auto simp: sublist_def)
  then have "prefix pat (drop (length ps) xs)" by simp
  then show "\<exists>k. prefix pat (drop k xs)" ..
next
  assume "\<exists>k. prefix pat (drop k xs)"
  then obtain k ss where "drop k xs = pat @ ss" by (auto simp: prefix_def)
  then have "xs = take k xs @ pat @ ss" by (metis append_take_drop_id)
  then show "sublist pat xs" by (metis sublist_def)
qed

lemma std_search_none:
  assumes "pat \<noteq> []" "std_search xs pat = length xs"
  shows "\<not> sublist pat xs"
proof
  assume "sublist pat xs"
  then have ex: "\<exists>k. prefix pat (drop k xs)"
    by (simp add: sublist_iff_prefix_drop)
  then have "prefix pat (drop (std_search xs pat) xs)"
    using LeastI_ex [OF ex] by (simp add: std_search_least [OF assms(1)])
  with assms show False by simp
qed

lemma first_CRLF:
  assumes "xs = line @ kCRLF @ rest" and first: "\<And>j. j < length line \<Longrightarrow> \<not> prefix kCRLF (drop j xs)"
  shows "\<not> sublist kCRLF (line @ [CHR 0x0D])"
proof
  assume "sublist kCRLF (line @ [CHR 0x0D])"
  then obtain j where j: "prefix kCRLF (drop j (line @ [CHR 0x0D]))"
    by (auto simp: sublist_iff_prefix_drop)
  then have "length kCRLF \<le> length (drop j (line @ [CHR 0x0D]))"
    by (rule prefix_length_le)
  then have less: "j < length line" by (simp add: kCRLF_def)
  have "xs = (line @ [CHR 0x0D]) @ CHR 0x0A # rest"
    using assms(1) by (simp add: kCRLF_def)
  then have "drop j xs = drop j (line @ [CHR 0x0D]) @ CHR 0x0A # rest"
    using less by simp
  with j have "prefix kCRLF (drop j xs)" by (metis prefix_prefix)
  with first [OF less] show False ..
qed

lemma shrink_ok:
  assumes "buffer_inv b" "readableBytes b < 2 ^ 31"
  shows "\<exists>b'. shrink b reserve = Some b' \<and> buffer_inv b' \<and> readable b' = readable b \<and>
    reserve \<le> writableBytes b'"
proof -
  obtain o1 where o1: "ensureWritableBytes Buffer_new (readableBytes b + reserve) = Some o1"
      "buffer_inv o1" "readable o1 = []" "readableBytes b + reserve \<le> writableBytes o1"
    using ensureWritableBytes_ok [OF Buffer_new_inv, of "readableBytes b + reserve"] by auto
  obtain o2 where o2: "append_buffer o1 (readable b) = Some o2" "buffer_inv o2"
      "readable o2 = readable b"
    using append_ok [OF o1(2), of "readable b"] o1(3) by auto
  have "writableBytes o2 = writableBytes o1 - readableBytes b"
    using append_room [OF o1(2) _ o2(1)] o1(4) length_readable [OF assms(1)] by simp
  moreover have "fst (swap_buffer b o2) = o2"
    by (simp add: swap_buffer_def)
  ultimately show ?thesis
    using o1 o2 toStringPiece_eq [OF assms] by (simp add: shrink_def)
qed

section \<open>Properties\<close>

text \<open>C4. A buffer is a FIFO of bytes. Whatever sequence of \<^verbatim>\<open>append\<close> and \<^verbatim>\<open>retrieve\<close> calls a client
  makes on a fresh buffer, through every growth of the vector and every move of the data to the
  front, no assertion of the code fails except the one on retrieving more than is readable, and
  the readable bytes are exactly those of a list that is appended to and dropped from.\<close>

theorem buffer_is_byte_queue:
  "map_option readable (run_queue append_buffer retrieve Buffer_new ops) = run_queue list_push list_pop [] ops"
  using net_buffer.run_refines [OF Buffer_new_inv, of ops] by simp

text \<open>C17. \<^verbatim>\<open>readFd\<close> keeps every byte \<^verbatim>\<open>readv\<close> delivered, in order, whether they fit the writable
  part of the vector or spill into the stack buffer, and returns their number.\<close>

theorem readFd_keeps_all_bytes:
  assumes "buffer_inv b"
  shows "\<exists>b'. readFd b (ReadvData d) = Some (b', int (length d), None) \<and> buffer_inv b' \<and>
    readable b' = readable b @ d"
  using assms by (rule readFd_ok)

theorem readFd_keeps_all_bytes_witness:
  "\<exists>b'. readFd Buffer_new (ReadvData (replicate 2000 (CHR ''a''))) = Some (b', 2000, None) \<and>
     buffer_inv b' \<and> readable b' = replicate 2000 (CHR ''a'')"
  using readFd_keeps_all_bytes [OF Buffer_new_inv, of "replicate 2000 (CHR ''a'')"] by simp

text \<open>C34. Integers travel in network byte order and come out as they went in: a list of 32-bit
  values written with \<^verbatim>\<open>appendInt32\<close> on a host of one byte order is read back by \<^verbatim>\<open>readInt32\<close> on a
  host of any byte order, in the same order, and empties the buffer; the bytes in between are
  those of each value, most significant first.\<close>

theorem int32_round_trip:
  "\<exists>b b'. appendInt32s e1 Buffer_new xs = Some b \<and>
     readable b = concat (map (\<lambda>x. rev (word_bytes 4 x)) xs) \<and>
     readInt32s e2 b (length xs) = Some (xs, b') \<and> readable b' = []"
proof -
  obtain b where b: "appendInt32s e1 Buffer_new xs = Some b" "buffer_inv b"
      "readable b = concat (map (\<lambda>x. rev (word_bytes 4 x)) xs)"
    using appendInt32s_ok [OF Buffer_new_inv, of e1 xs] by auto
  with readInt32s_ok [OF b(2), of xs "[]" e2] show ?thesis by auto
qed

text \<open>The eight bytes in front are always there for a length header: after any sequence of
  appends and retrieves, prepending up to \<^verbatim>\<open>kCheapPrepend\<close> bytes passes its assertion and puts
  them before the readable bytes.\<close>

theorem cheap_prepend_available:
  assumes "run_queue append_buffer retrieve Buffer_new ops = Some b" and "length data \<le> kCheapPrepend"
  shows "\<exists>b'. prepend b data = Some b' \<and> buffer_inv b' \<and> readable b' = data @ readable b"
proof -
  have "cheap_inv b"
    using cheap_buffer.run_invar [OF cheap_buffer.invar_empty assms(1)] .
  then show ?thesis
    using assms(2) by (intro prepend_ok) (simp_all add: cheap_inv_def prependableBytes_def)
qed

theorem cheap_prepend_available_witness:
  "\<exists>b b'. run_queue append_buffer retrieve Buffer_new [Push ''abc'', Pop 3] = Some b \<and>
     prepend b ''len!'' = Some b' \<and> buffer_inv b' \<and> readable b' = ''len!'' @ readable b"
proof -
  have "map_option readable (run_queue append_buffer retrieve Buffer_new [Push ''abc'', Pop 3]) = Some []"
    using net_buffer.run_refines [OF Buffer_new_inv, of "[Push ''abc'', Pop 3]"]
    by (simp add: list_push_def list_pop_def)
  then obtain b where b: "run_queue append_buffer retrieve Buffer_new [Push ''abc'', Pop 3] = Some b"
    by auto
  then show ?thesis
    using cheap_prepend_available [OF b, of "''len!''"] by (simp add: kCheapPrepend_def)
qed

text \<open>Line framing. When \<^verbatim>\<open>findCRLF\<close> answers, the readable bytes are a line, the CR LF pair and
  a rest, the pair is the first one, and \<^verbatim>\<open>retrieveUntil(crlf + 2)\<close> passes its assertions and leaves
  exactly the rest; when it answers null there is no CR LF among the readable bytes.\<close>

theorem findCRLF_frames_lines:
  assumes "buffer_inv b"
  shows "case findCRLF b of
      None \<Rightarrow> \<not> sublist kCRLF (readable b)
    | Some i \<Rightarrow> \<exists>line rest b'. readable b = line @ kCRLF @ rest \<and> i = peek b + length line \<and>
        \<not> sublist kCRLF (line @ [CHR 0x0D]) \<and>
        retrieveUntil b (i + 2) = Some b' \<and> buffer_inv b' \<and> readable b' = rest"
proof (cases "std_search (readable b) kCRLF = length (readable b)")
  case True
  then have "\<not> sublist kCRLF (readable b)"
    by (intro std_search_none) (simp_all add: kCRLF_def)
  with True show ?thesis
    using assms by (simp add: findCRLF_eq)
next
  case False
  let ?k = "std_search (readable b) kCRLF"
  have ne: "kCRLF \<noteq> []" by (simp add: kCRLF_def)
  note found = std_search_found [OF ne False]
  obtain rest where rest: "drop ?k (readable b) = kCRLF @ rest"
    using found(1) by (auto simp: prefix_def)
  define line where "line = take ?k (readable b)"
  have split: "readable b = line @ kCRLF @ rest"
    unfolding line_def rest [symmetric] by simp
  have len: "length line = ?k"
    using found(2) by (simp add: line_def)
  have "\<not> sublist kCRLF (line @ [CHR 0x0D])"
    using first_CRLF [OF split] found(3) len by simp
  moreover have "\<exists>b'. retrieve b (?k + 2) = Some b' \<and> buffer_inv b' \<and> readable b' = rest"
    using retrieve_ok [OF assms, of "?k + 2"] split len by (auto simp: kCRLF_def)
  moreover have "peek b + ?k + 2 \<le> beginWrite b"
    using split len length_readable [OF assms] assms
    by (auto simp: buffer_inv_def buffer_index_defs kCRLF_def)
  ultimately show ?thesis
    using False assms split len by (auto simp: findCRLF_eq retrieveUntil_def)
qed

theorem findCRLF_frames_lines_witness:
  "let b = \<lparr>buf = replicate 8 (CHR 0x00) @ ''ab'' @ kCRLF @ ''c'', readerIndex = 8, writerIndex = 13\<rparr>
   in findCRLF b = Some 10 \<and> (\<exists>b'. retrieveUntil b 12 = Some b' \<and> readable b' = ''c'')"
proof -
  let ?b = "\<lparr>buf = replicate 8 (CHR 0x00) @ ''ab'' @ kCRLF @ ''c'', readerIndex = 8, writerIndex = 13\<rparr>"
  have inv: "buffer_inv ?b" by (simp add: buffer_inv_def kCheapPrepend_def kCRLF_def)
  have rd: "readable ?b = ''ab'' @ kCRLF @ ''c''"
    by (simp add: readable_def segment_def buffer_index_defs kCRLF_def)
  have f: "findCRLF ?b = Some 10"
    using inv rd by (simp add: findCRLF_eq peek_def kCRLF_def)
  obtain line rest b' where l: "readable ?b = line @ kCRLF @ rest" "10 = peek ?b + length line"
      "retrieveUntil ?b (10 + 2) = Some b'" "readable b' = rest"
    using findCRLF_frames_lines [OF inv] unfolding f by auto
  then have "length line = length ''ab''" by (simp add: peek_def)
  then have "rest = ''c''"
    using l(1) unfolding rd by (metis append_eq_append_conv)
  then show ?thesis
    using l f by simp
qed

end
