(* ===== verification/Net_Channel.thy ===== *)
theory Net_Channel
  imports Muduo_Prelude
begin

unbundle bit_operations_syntax

text \<open>
  Channels (\<^verbatim>\<open>muduo/net/Channel.h\<close>, \<^verbatim>\<open>Channel.cc\<close>): a descriptor, the events of interest, the
  events the poller reported and the callbacks they select. Channels are objects that pollers,
  loops and connections point to, so they live in a store: a map from addresses (\<open>nat\<close>) to
  \<open>channel\<close> records. A callback is a value of the type parameter \<open>'c\<close>; what running one does to
  the program is a parameter of the theories that dispatch events. Event masks are 32-bit words.
\<close>

definition POLLIN :: "32 word" where "POLLIN = 0x001"
definition POLLPRI :: "32 word" where "POLLPRI = 0x002"
definition POLLOUT :: "32 word" where "POLLOUT = 0x004"
definition POLLERR :: "32 word" where "POLLERR = 0x008"
definition POLLHUP :: "32 word" where "POLLHUP = 0x010"
definition POLLNVAL :: "32 word" where "POLLNVAL = 0x020"
definition POLLRDHUP :: "32 word" where "POLLRDHUP = 0x2000"

lemmas poll_bits = POLLIN_def POLLPRI_def POLLOUT_def POLLERR_def POLLHUP_def POLLNVAL_def POLLRDHUP_def

definition kNoneEvent :: "32 word" where
  "kNoneEvent = 0"

definition kReadEvent :: "32 word" where
  "kReadEvent = POLLIN OR POLLPRI"

definition kWriteEvent :: "32 word" where
  "kWriteEvent = POLLOUT"

lemmas event_bits = kNoneEvent_def kReadEvent_def kWriteEvent_def poll_bits

record 'c channel =
  ownerLoop :: nat
  fd :: int
  events :: "32 word"
  revents :: "32 word"
  index :: int
  logHup :: bool
  tie :: "nat option"
  tied :: bool
  eventHandling :: bool
  readCallback :: "'c option"
  writeCallback :: "'c option"
  closeCallback :: "'c option"
  errorCallback :: "'c option"

type_synonym 'c store = "nat \<rightharpoonup> 'c channel"

definition Channel_new :: "nat \<Rightarrow> int \<Rightarrow> 'c channel" where
  "Channel_new loop fd' = \<lparr>ownerLoop = loop, fd = fd', events = 0, revents = 0, index = - 1,
     logHup = True, tie = None, tied = False, eventHandling = False,
     readCallback = None, writeCallback = None, closeCallback = None, errorCallback = None\<rparr>"

text \<open>The destructor asserts that no event of the channel is being handled.\<close>

definition Channel_delete :: "nat \<Rightarrow> 'c store \<Rightarrow> 'c store option" where
  "Channel_delete c s =
     do { ch \<leftarrow> s c; check (\<not> eventHandling ch); Some (s(c := None)) }"

definition Channel_tie :: "'c channel \<Rightarrow> nat \<Rightarrow> 'c channel" where
  "Channel_tie ch obj = ch\<lparr>tie := Some obj, tied := True\<rparr>"

definition setReadCallback :: "'c channel \<Rightarrow> 'c \<Rightarrow> 'c channel" where
  "setReadCallback ch cb = ch\<lparr>readCallback := Some cb\<rparr>"

definition setWriteCallback :: "'c channel \<Rightarrow> 'c \<Rightarrow> 'c channel" where
  "setWriteCallback ch cb = ch\<lparr>writeCallback := Some cb\<rparr>"

definition setCloseCallback :: "'c channel \<Rightarrow> 'c \<Rightarrow> 'c channel" where
  "setCloseCallback ch cb = ch\<lparr>closeCallback := Some cb\<rparr>"

definition setErrorCallback :: "'c channel \<Rightarrow> 'c \<Rightarrow> 'c channel" where
  "setErrorCallback ch cb = ch\<lparr>errorCallback := Some cb\<rparr>"

definition set_revents :: "'c channel \<Rightarrow> 32 word \<Rightarrow> 'c channel" where
  "set_revents ch revt = ch\<lparr>revents := revt\<rparr>"

definition isNoneEvent :: "'c channel \<Rightarrow> bool" where
  "isNoneEvent ch \<longleftrightarrow> events ch = kNoneEvent"

definition isWriting :: "'c channel \<Rightarrow> bool" where
  "isWriting ch \<longleftrightarrow> events ch AND kWriteEvent \<noteq> 0"

definition set_index :: "'c channel \<Rightarrow> int \<Rightarrow> 'c channel" where
  "set_index ch idx = ch\<lparr>index := idx\<rparr>"

definition doNotLogHup :: "'c channel \<Rightarrow> 'c channel" where
  "doNotLogHup ch = ch\<lparr>logHup := False\<rparr>"

text \<open>
  The mask updates of \<^verbatim>\<open>enableReading\<close>, \<^verbatim>\<open>enableWriting\<close>, \<^verbatim>\<open>disableWriting\<close> and \<^verbatim>\<open>disableAll\<close>; the
  call of \<^verbatim>\<open>update()\<close> that follows each of them goes to the loop that owns the channel.
\<close>

datatype event_change = EnableReading | EnableWriting | DisableWriting | DisableAll

fun apply_change :: "event_change \<Rightarrow> 'c channel \<Rightarrow> 'c channel" where
  "apply_change EnableReading ch = ch\<lparr>events := events ch OR kReadEvent\<rparr>"
| "apply_change EnableWriting ch = ch\<lparr>events := events ch OR kWriteEvent\<rparr>"
| "apply_change DisableWriting ch = ch\<lparr>events := events ch AND NOT kWriteEvent\<rparr>"
| "apply_change DisableAll ch = ch\<lparr>events := kNoneEvent\<rparr>"

text \<open>
  The calls \<^verbatim>\<open>handleEventWithGuard\<close> makes, in order. \<^verbatim>\<open>revents_\<close> is written by the pollers only,
  and a callback cannot poll (a nested \<^verbatim>\<open>loop()\<close> fails its assertion), so the tests of the later
  branches see the mask that the earlier ones saw.
\<close>

datatype 'c call = CallClose 'c | CallError 'c | CallRead 'c int | CallWrite 'c

definition opt_call :: "bool \<Rightarrow> ('c \<Rightarrow> 'c call) \<Rightarrow> 'c option \<Rightarrow> 'c call list" where
  "opt_call b f cb = (if b then (case cb of None \<Rightarrow> [] | Some k \<Rightarrow> [f k]) else [])"

definition handleEventWithGuard :: "'c channel \<Rightarrow> int \<Rightarrow> 'c call list" where
  "handleEventWithGuard ch receiveTime =
     opt_call (revents ch AND POLLHUP \<noteq> 0 \<and> \<not> revents ch AND POLLIN \<noteq> 0) CallClose (closeCallback ch) @
     opt_call (revents ch AND (POLLERR OR POLLNVAL) \<noteq> 0) CallError (errorCallback ch) @
     opt_call (revents ch AND (POLLIN OR POLLPRI OR POLLRDHUP) \<noteq> 0)
       (\<lambda>k. CallRead k receiveTime) (readCallback ch) @
     opt_call (revents ch AND POLLOUT \<noteq> 0) CallWrite (writeCallback ch)"

text \<open>
  \<^verbatim>\<open>handleEvent\<close>: a tied channel is handled only while the object it is tied to is alive
  (\<^verbatim>\<open>tie_.lock()\<close>; \<open>alive\<close> is what the reference counts say).
\<close>

definition handleEvent :: "(nat \<Rightarrow> bool) \<Rightarrow> 'c channel \<Rightarrow> int \<Rightarrow> 'c call list" where
  "handleEvent alive ch receiveTime =
     (if tied ch
      then (case tie ch of
              Some obj \<Rightarrow> if alive obj then handleEventWithGuard ch receiveTime else []
            | None \<Rightarrow> [])
      else handleEventWithGuard ch receiveTime)"

definition reventsToString :: "'c channel \<Rightarrow> string" where
  "reventsToString ch =
     print_int (fd ch) @ '': '' @
     (if revents ch AND POLLIN \<noteq> 0 then ''IN '' else []) @
     (if revents ch AND POLLPRI \<noteq> 0 then ''PRI '' else []) @
     (if revents ch AND POLLOUT \<noteq> 0 then ''OUT '' else []) @
     (if revents ch AND POLLHUP \<noteq> 0 then ''HUP '' else []) @
     (if revents ch AND POLLRDHUP \<noteq> 0 then ''RDHUP '' else []) @
     (if revents ch AND POLLERR \<noteq> 0 then ''ERR '' else []) @
     (if revents ch AND POLLNVAL \<noteq> 0 then ''NVAL '' else [])"

section \<open>Event masks\<close>

text \<open>The masks the interface can produce: no bits but the read and write events.\<close>

definition valid_events :: "32 word \<Rightarrow> bool" where
  "valid_events e \<longleftrightarrow> e AND NOT (kReadEvent OR kWriteEvent) = 0"

lemma valid_events_iff_bits: "valid_events e \<longleftrightarrow> (\<forall>n<32. bit e n \<longrightarrow> n < 3)"
proof -
  have mask: "kReadEvent OR kWriteEvent = (mask 3 :: 32 word)"
    by (simp add: event_bits mask_eq_exp_minus_1)
  have "e AND NOT (mask 3) = 0 \<longleftrightarrow> (\<forall>n<32. bit e n \<longrightarrow> n < 3)"
    by (auto simp: bit_eq_iff bit_simps)
  then show ?thesis by (simp add: valid_events_def mask)
qed

lemma valid_events_none [simp]: "valid_events 0"
  by (simp add: valid_events_def)

lemma valid_events_less_8:
  assumes "valid_events e"
  shows "e < 8"
proof -
  have "e = take_bit 3 e"
    using assms by (intro bit_eqI) (auto simp: valid_events_iff_bits bit_simps)
  then have "unat e = take_bit 3 (unat e)"
    by (metis unsigned_take_bit_eq)
  also have "\<dots> < 2 ^ 3"
    by (rule take_bit_nat_less_exp)
  finally show ?thesis by (simp add: word_less_nat_alt)
qed

lemma events_apply_change:
  "events (apply_change EnableReading ch) = events ch OR kReadEvent"
  "events (apply_change EnableWriting ch) = events ch OR kWriteEvent"
  "events (apply_change DisableWriting ch) = events ch AND NOT kWriteEvent"
  "events (apply_change DisableAll ch) = kNoneEvent"
  by simp_all

lemma apply_change_other [simp]:
  "fd (apply_change x ch) = fd ch"
  "index (apply_change x ch) = index ch"
  "ownerLoop (apply_change x ch) = ownerLoop ch"
  "revents (apply_change x ch) = revents ch"
  "tied (apply_change x ch) = tied ch"
  "tie (apply_change x ch) = tie ch"
  by (cases x; simp)+

lemma valid_events_or: "valid_events e \<Longrightarrow> valid_events e' \<Longrightarrow> valid_events (e OR e')"
  by (auto simp: valid_events_iff_bits bit_simps)

lemma valid_events_and: "valid_events e \<Longrightarrow> valid_events (e AND e')"
  by (auto simp: valid_events_iff_bits bit_simps)

lemma valid_events_constants [simp]:
  "valid_events kNoneEvent" "valid_events kReadEvent" "valid_events kWriteEvent"
  by (simp_all add: valid_events_def event_bits)

lemma apply_change_valid: "valid_events (events ch) \<Longrightarrow> valid_events (events (apply_change x ch))"
  by (cases x) (simp_all add: valid_events_or valid_events_and)

end
