(* ===== verification/Net_Poller.thy ===== *)
theory Net_Poller
  imports Net_Channel
begin

unbundle bit_operations_syntax

text \<open>
  The two implementations of I/O multiplexing (\<^verbatim>\<open>muduo/net/Poller.h\<close>, \<^verbatim>\<open>poller/EPollPoller.cc\<close>,
  \<^verbatim>\<open>poller/PollPoller.cc\<close>, \<^verbatim>\<open>poller/DefaultPoller.cc\<close>). A poller works on its own state and on the
  channel store. What the kernel watches is part of the state: for epoll the interest list of the
  epoll instance, changed by \<^verbatim>\<open>epoll_ctl(2)\<close> with its documented errors (\<^verbatim>\<open>EEXIST\<close> for adding a
  descriptor twice, \<^verbatim>\<open>ENOENT\<close> for changing or deleting an absent one); for poll the array that is
  passed to \<^verbatim>\<open>poll(2)\<close>, of which entries with a negative descriptor are ignored. The events a wait
  returns are an argument of the \<^verbatim>\<open>poll\<close> operations. The contract of the interface is the locale
  \<open>event_poller\<close>.
\<close>

section \<open>EPollPoller\<close>

definition kNew :: int where "kNew = - 1"
definition kAdded :: int where "kAdded = 1"
definition kDeleted :: int where "kDeleted = 2"

definition kInitEventListSize :: nat where
  "kInitEventListSize = 16"

record epoll_poller =
  ep_event_list_size :: nat
  ep_channels :: "int \<rightharpoonup> nat"
  ep_interest :: "int \<rightharpoonup> 32 word \<times> nat"

type_synonym 'c epoll_state = "epoll_poller \<times> 'c store"

definition EPollPoller_new :: epoll_poller where
  "EPollPoller_new = \<lparr>ep_event_list_size = kInitEventListSize, ep_channels = Map.empty,
     ep_interest = Map.empty\<rparr>"

datatype ctl_op = EPOLL_CTL_ADD | EPOLL_CTL_MOD | EPOLL_CTL_DEL

text \<open>\<^verbatim>\<open>epoll_ctl(2)\<close> on an open descriptor: the new interest list, or \<open>None\<close> for an error.\<close>

definition epoll_ctl :: "ctl_op \<Rightarrow> int \<Rightarrow> 32 word \<times> nat \<Rightarrow> (int \<rightharpoonup> 32 word \<times> nat) \<Rightarrow>
    (int \<rightharpoonup> 32 word \<times> nat) option" where
  "epoll_ctl operation f ev m =
     (case operation of
        EPOLL_CTL_ADD \<Rightarrow> if m f = None then Some (m(f \<mapsto> ev)) else None
      | EPOLL_CTL_MOD \<Rightarrow> if m f = None then None else Some (m(f \<mapsto> ev))
      | EPOLL_CTL_DEL \<Rightarrow> if m f = None then None else Some (m(f := None)))"

text \<open>\<^verbatim>\<open>update\<close>: a failed delete is logged, any other failure is fatal (\<^verbatim>\<open>LOG_SYSFATAL\<close> aborts).\<close>

definition EPoll_update :: "ctl_op \<Rightarrow> nat \<Rightarrow> 'c epoll_state \<Rightarrow> 'c epoll_state option" where
  "EPoll_update operation c = (\<lambda>(p, s).
     do {
       ch \<leftarrow> s c;
       (case epoll_ctl operation (fd ch) (events ch, c) (ep_interest p) of
          Some m \<Rightarrow> Some (p\<lparr>ep_interest := m\<rparr>, s)
        | None \<Rightarrow> if operation = EPOLL_CTL_DEL then Some (p, s) else None)
     })"

definition EPoll_updateChannel :: "nat \<Rightarrow> 'c epoll_state \<Rightarrow> 'c epoll_state option" where
  "EPoll_updateChannel c = (\<lambda>(p, s).
     do {
       ch \<leftarrow> s c;
       (if index ch = kNew \<or> index ch = kDeleted
        then do {
          p' \<leftarrow> (if index ch = kNew
                 then do { check (ep_channels p (fd ch) = None);
                           Some (p\<lparr>ep_channels := (ep_channels p)(fd ch \<mapsto> c)\<rparr>) }
                 else do { check (ep_channels p (fd ch) \<noteq> None);
                           check (ep_channels p (fd ch) = Some c);
                           Some p });
          EPoll_update EPOLL_CTL_ADD c (p', s(c \<mapsto> set_index ch kAdded))
        }
        else do {
          check (ep_channels p (fd ch) \<noteq> None);
          check (ep_channels p (fd ch) = Some c);
          check (index ch = kAdded);
          (if isNoneEvent ch
           then do {
             (p', s') \<leftarrow> EPoll_update EPOLL_CTL_DEL c (p, s);
             Some (p', s'(c \<mapsto> set_index ch kDeleted))
           }
           else EPoll_update EPOLL_CTL_MOD c (p, s))
        })
     })"

definition EPoll_removeChannel :: "nat \<Rightarrow> 'c epoll_state \<Rightarrow> 'c epoll_state option" where
  "EPoll_removeChannel c = (\<lambda>(p, s).
     do {
       ch \<leftarrow> s c;
       check (ep_channels p (fd ch) \<noteq> None);
       check (ep_channels p (fd ch) = Some c);
       check (isNoneEvent ch);
       check (index ch = kAdded \<or> index ch = kDeleted);
       let p1 = p\<lparr>ep_channels := (ep_channels p)(fd ch := None)\<rparr>;
       (p2, s2) \<leftarrow> (if index ch = kAdded then EPoll_update EPOLL_CTL_DEL c (p1, s) else Some (p1, s));
       Some (p2, s2(c \<mapsto> set_index ch kNew))
     })"

text \<open>
  \<open>fillActiveChannels\<close> walks the events the kernel wrote, setting each channel's \<^verbatim>\<open>revents_\<close>; the
  result is the new store and the list of active channels. In a Debug build it asserts that the
  channel of every event is the one registered for its descriptor.
\<close>

fun EPoll_fillActiveChannels :: "epoll_poller \<Rightarrow> (32 word \<times> nat) list \<Rightarrow> 'c store \<Rightarrow>
    ('c store \<times> nat list) option" where
  "EPoll_fillActiveChannels p [] s = Some (s, [])"
| "EPoll_fillActiveChannels p ((ev, c) # evs) s =
     do {
       ch \<leftarrow> s c;
       check (ep_channels p (fd ch) \<noteq> None);
       check (ep_channels p (fd ch) = Some c);
       (s', active) \<leftarrow> EPoll_fillActiveChannels p evs (s(c \<mapsto> set_revents ch ev));
       Some (s', c # active)
     }"

text \<open>
  \<open>poll\<close>: \<open>wait\<close> is what \<^verbatim>\<open>epoll_wait\<close> returned, \<open>None\<close> for an error. The event list is doubled when
  it came back full.
\<close>

definition EPoll_poll :: "(32 word \<times> nat) list option \<Rightarrow> 'c epoll_state \<Rightarrow>
    ('c epoll_state \<times> nat list) option" where
  "EPoll_poll wait = (\<lambda>(p, s).
     (case wait of
        None \<Rightarrow> Some ((p, s), [])
      | Some [] \<Rightarrow> Some ((p, s), [])
      | Some evs \<Rightarrow>
          do {
            check (length evs \<le> ep_event_list_size p);
            (s', active) \<leftarrow> EPoll_fillActiveChannels p evs s;
            let p' = (if length evs = ep_event_list_size p
                      then p\<lparr>ep_event_list_size := ep_event_list_size p * 2\<rparr> else p);
            Some ((p', s'), active)
          }))"

section \<open>PollPoller\<close>

record pollfd =
  pfd_fd :: int
  pfd_events :: "16 word"
  pfd_revents :: "16 word"

record poll_poller =
  pollfds :: "pollfd list"
  pp_channels :: "int \<rightharpoonup> nat"

type_synonym 'c poll_state = "poll_poller \<times> 'c store"

definition PollPoller_new :: poll_poller where
  "PollPoller_new = \<lparr>pollfds = [], pp_channels = Map.empty\<rparr>"

definition Poll_updateChannel :: "nat \<Rightarrow> 'c poll_state \<Rightarrow> 'c poll_state option" where
  "Poll_updateChannel c = (\<lambda>(p, s).
     do {
       ch \<leftarrow> s c;
       (if index ch < 0
        then do {
          check (pp_channels p (fd ch) = None);
          let pfd = \<lparr>pfd_fd = fd ch, pfd_events = ucast (events ch), pfd_revents = 0\<rparr>;
          let fds = pollfds p @ [pfd];
          let idx = int (length fds) - 1;
          Some (p\<lparr>pollfds := fds, pp_channels := (pp_channels p)(fd ch \<mapsto> c)\<rparr>,
                s(c \<mapsto> set_index ch idx))
        }
        else do {
          check (pp_channels p (fd ch) \<noteq> None);
          check (pp_channels p (fd ch) = Some c);
          let idx = index ch;
          check (0 \<le> idx \<and> idx < int (length (pollfds p)));
          let pfd = pollfds p ! nat idx;
          check (pfd_fd pfd = fd ch \<or> pfd_fd pfd = - fd ch - 1);
          let pfd1 = pfd\<lparr>pfd_events := ucast (events ch), pfd_revents := 0\<rparr>;
          let pfd2 = (if isNoneEvent ch then pfd1\<lparr>pfd_fd := - fd ch - 1\<rparr> else pfd1);
          Some (p\<lparr>pollfds := (pollfds p)[nat idx := pfd2]\<rparr>, s)
        })
     })"

definition Poll_removeChannel :: "nat \<Rightarrow> 'c poll_state \<Rightarrow> 'c poll_state option" where
  "Poll_removeChannel c = (\<lambda>(p, s).
     do {
       ch \<leftarrow> s c;
       check (pp_channels p (fd ch) \<noteq> None);
       check (pp_channels p (fd ch) = Some c);
       check (isNoneEvent ch);
       let idx = index ch;
       check (0 \<le> idx \<and> idx < int (length (pollfds p)));
       let pfd = pollfds p ! nat idx;
       check (pfd_fd pfd = - fd ch - 1 \<and> ucast (pfd_events pfd) = events ch);
       let chans = (pp_channels p)(fd ch := None);
       (if nat idx = length (pollfds p) - 1
        then Some (p\<lparr>pollfds := butlast (pollfds p), pp_channels := chans\<rparr>, s)
        else do {
          let lastfd = pfd_fd (last (pollfds p));
          let fds = (pollfds p)[nat idx := last (pollfds p), length (pollfds p) - 1 := pfd];
          let channelAtEnd = (if lastfd < 0 then - lastfd - 1 else lastfd);
          c' \<leftarrow> chans channelAtEnd;
          ch' \<leftarrow> s c';
          Some (p\<lparr>pollfds := butlast fds, pp_channels := chans\<rparr>, s(c' \<mapsto> set_index ch' idx))
        })
     })"

text \<open>\<^verbatim>\<open>fillActiveChannels\<close> of the poll(2) version, over the array with the \<^verbatim>\<open>revents\<close> the kernel wrote.\<close>

fun Poll_fillActiveChannels :: "poll_poller \<Rightarrow> pollfd list \<Rightarrow> nat \<Rightarrow> 'c store \<Rightarrow>
    ('c store \<times> nat list) option" where
  "Poll_fillActiveChannels p [] numEvents s = Some (s, [])"
| "Poll_fillActiveChannels p (pfd # rest) numEvents s =
     (if numEvents = 0 then Some (s, [])
      else if sint (pfd_revents pfd) > 0
      then do {
        c \<leftarrow> pp_channels p (pfd_fd pfd);
        ch \<leftarrow> s c;
        check (fd ch = pfd_fd pfd);
        (s', active) \<leftarrow> Poll_fillActiveChannels p rest (numEvents - 1)
                         (s(c \<mapsto> set_revents ch (ucast (pfd_revents pfd))));
        Some (s', c # active)
      }
      else Poll_fillActiveChannels p rest numEvents s)"

text \<open>
  \<open>poll\<close>: \<open>wait\<close> is \<^verbatim>\<open>None\<close> for an error of \<^verbatim>\<open>poll(2)\<close>, else the number of ready descriptors and the
  \<^verbatim>\<open>revents\<close> it stored in each entry.
\<close>

definition Poll_poll :: "(nat \<times> 16 word list) option \<Rightarrow> 'c poll_state \<Rightarrow>
    ('c poll_state \<times> nat list) option" where
  "Poll_poll wait = (\<lambda>(p, s).
     (case wait of
        None \<Rightarrow> Some ((p, s), [])
      | Some (numEvents, revs) \<Rightarrow>
          do {
            let fds = map2 (\<lambda>pfd r. pfd\<lparr>pfd_revents := r\<rparr>) (pollfds p) revs;
            let p' = p\<lparr>pollfds := fds\<rparr>;
            (if numEvents > 0
             then do {
               (s', active) \<leftarrow> Poll_fillActiveChannels p' fds numEvents s;
               Some ((p', s'), active)
             }
             else Some ((p', s), []))
          }))"

section \<open>The poller of a loop\<close>

text \<open>\<^verbatim>\<open>newDefaultPoller\<close>: \<open>use_poll\<close> is whether \<^verbatim>\<open>MUDUO_USE_POLL\<close> is in the environment.\<close>

datatype poller = EPollPoller epoll_poller | PollPoller poll_poller

definition newDefaultPoller :: "bool \<Rightarrow> poller" where
  "newDefaultPoller use_poll = (if use_poll then PollPoller PollPoller_new else EPollPoller EPollPoller_new)"

definition Poller_updateChannel :: "nat \<Rightarrow> poller \<times> 'c store \<Rightarrow> (poller \<times> 'c store) option" where
  "Poller_updateChannel c = (\<lambda>(p, s).
     (case p of
        EPollPoller ep \<Rightarrow> map_option (apfst EPollPoller) (EPoll_updateChannel c (ep, s))
      | PollPoller pp \<Rightarrow> map_option (apfst PollPoller) (Poll_updateChannel c (pp, s))))"

definition Poller_removeChannel :: "nat \<Rightarrow> poller \<times> 'c store \<Rightarrow> (poller \<times> 'c store) option" where
  "Poller_removeChannel c = (\<lambda>(p, s).
     (case p of
        EPollPoller ep \<Rightarrow> map_option (apfst EPollPoller) (EPoll_removeChannel c (ep, s))
      | PollPoller pp \<Rightarrow> map_option (apfst PollPoller) (Poll_removeChannel c (pp, s))))"

section \<open>The contract of a poller\<close>

text \<open>
  A poller keeps a map \<open>chan_map\<close> from descriptors to channels and makes the kernel watch, for each
  descriptor, the events in the mask \<open>watch\<close>. \<^verbatim>\<open>updateChannel\<close> registers the channel and
  makes the mask the channel's; \<^verbatim>\<open>removeChannel\<close> takes the channel out. Pollers write no field of
  a channel but its index. \<open>can_update\<close> and \<open>can_remove\<close> are the states in which an
  implementation does what the interface promises.
\<close>

definition same_but_index :: "'c store \<Rightarrow> 'c store \<Rightarrow> bool" where
  "same_but_index s s' \<longleftrightarrow>
     (\<forall>d. map_option (\<lambda>ch. set_index ch 0) (s d) = map_option (\<lambda>ch. set_index ch 0) (s' d))"

locale event_poller =
  fixes upd :: "nat \<Rightarrow> 'p \<times> 'c store \<Rightarrow> ('p \<times> 'c store) option"
    and rem :: "nat \<Rightarrow> 'p \<times> 'c store \<Rightarrow> ('p \<times> 'c store) option"
    and watch :: "'p \<Rightarrow> int \<Rightarrow> 32 word"
    and chan_map :: "'p \<Rightarrow> int \<rightharpoonup> nat"
    and inv :: "'p \<times> 'c store \<Rightarrow> bool"
    and can_update :: "'p \<times> 'c store \<Rightarrow> nat \<Rightarrow> bool"
    and can_remove :: "'p \<times> 'c store \<Rightarrow> nat \<Rightarrow> bool"
  assumes registered: "inv (p, s) \<Longrightarrow> chan_map p f = Some c \<Longrightarrow> \<exists>ch. s c = Some ch \<and> fd ch = f"
    and set_events: "inv (p, s) \<Longrightarrow> s c = Some ch \<Longrightarrow> inv (p, s(c \<mapsto> apply_change x ch))"
    and update_ok: "inv (p, s) \<Longrightarrow> s c = Some ch \<Longrightarrow> 0 \<le> fd ch \<Longrightarrow> valid_events (events ch) \<Longrightarrow>
      chan_map p (fd ch) = None \<or> chan_map p (fd ch) = Some c \<Longrightarrow> can_update (p, s) c \<Longrightarrow>
      \<exists>p' s'. upd c (p, s) = Some (p', s') \<and> inv (p', s') \<and> same_but_index s s' \<and>
        chan_map p' = (chan_map p)(fd ch \<mapsto> c) \<and> watch p' = (watch p)(fd ch := events ch)"
    and remove_ok: "inv (p, s) \<Longrightarrow> s c = Some ch \<Longrightarrow> chan_map p (fd ch) = Some c \<Longrightarrow>
      events ch = kNoneEvent \<Longrightarrow> can_remove (p, s) c \<Longrightarrow>
      \<exists>p' s'. rem c (p, s) = Some (p', s') \<and> inv (p', s') \<and> same_but_index s s' \<and>
        chan_map p' = (chan_map p)(fd ch := None) \<and> watch p' = (watch p)(fd ch := kNoneEvent)"
    and remove_refused: "inv (p, s) \<Longrightarrow> s c = Some ch \<Longrightarrow>
      chan_map p (fd ch) \<noteq> Some c \<or> events ch \<noteq> kNoneEvent \<Longrightarrow> rem c (p, s) = None"

text \<open>An implementation that does it in every state.\<close>

locale total_poller = event_poller +
  assumes can_update: "inv (p, s) \<Longrightarrow> can_update (p, s) c"
    and can_remove: "inv (p, s) \<Longrightarrow> can_remove (p, s) c"

text \<open>
  A client's use of a poller, through \<^verbatim>\<open>Channel::update\<close> and \<^verbatim>\<open>Channel::remove\<close>: a mask change
  followed by the update, or a removal, which the channel guards with its own assertion.
\<close>

datatype chan_op = Change event_change nat | Remove nat

fun chan_step :: "(nat \<Rightarrow> 'p \<times> 'c store \<Rightarrow> ('p \<times> 'c store) option) \<Rightarrow>
    (nat \<Rightarrow> 'p \<times> 'c store \<Rightarrow> ('p \<times> 'c store) option) \<Rightarrow> chan_op \<Rightarrow>
    'p \<times> 'c store \<Rightarrow> ('p \<times> 'c store) option" where
  "chan_step upd rem (Change x c) (p, s) =
     do { ch \<leftarrow> s c; upd c (p, s(c \<mapsto> apply_change x ch)) }"
| "chan_step upd rem (Remove c) (p, s) =
     do { ch \<leftarrow> s c; check (isNoneEvent ch); rem c (p, s) }"

fun chan_run :: "(nat \<Rightarrow> 'p \<times> 'c store \<Rightarrow> ('p \<times> 'c store) option) \<Rightarrow>
    (nat \<Rightarrow> 'p \<times> 'c store \<Rightarrow> ('p \<times> 'c store) option) \<Rightarrow> chan_op list \<Rightarrow>
    'p \<times> 'c store \<Rightarrow> ('p \<times> 'c store) option" where
  "chan_run upd rem [] ps = Some ps"
| "chan_run upd rem (op # ops) ps = chan_step upd rem op ps \<bind> chan_run upd rem ops"

text \<open>
  The specification of the same operations: for each channel its mask and whether it is
  registered. The only failures are operating on no channel and removing a channel that is not
  registered or still has events.
\<close>

type_synonym interest_spec = "nat \<rightharpoonup> 32 word \<times> bool"

fun change_mask :: "event_change \<Rightarrow> 32 word \<Rightarrow> 32 word" where
  "change_mask EnableReading e = e OR kReadEvent"
| "change_mask EnableWriting e = e OR kWriteEvent"
| "change_mask DisableWriting e = e AND NOT kWriteEvent"
| "change_mask DisableAll e = kNoneEvent"

fun spec_step :: "chan_op \<Rightarrow> interest_spec \<Rightarrow> interest_spec option" where
  "spec_step (Change x c) a = do { (e, r) \<leftarrow> a c; Some (a(c \<mapsto> (change_mask x e, True))) }"
| "spec_step (Remove c) a =
     do { (e, r) \<leftarrow> a c; check (e = kNoneEvent \<and> r); Some (a(c \<mapsto> (e, False))) }"

fun spec_run :: "chan_op list \<Rightarrow> interest_spec \<Rightarrow> interest_spec option" where
  "spec_run [] a = Some a"
| "spec_run (op # ops) a = spec_step op a \<bind> spec_run ops"

lemma events_change_mask: "events (apply_change x ch) = change_mask x (events ch)"
  by (cases x) simp_all

text \<open>Channels of one loop: open descriptors, no two channels on one, masks from the interface.\<close>

definition good_store :: "'c store \<Rightarrow> bool" where
  "good_store s \<longleftrightarrow> (\<forall>c ch. s c = Some ch \<longrightarrow> 0 \<le> fd ch \<and> valid_events (events ch)) \<and>
     (\<forall>c d ch dh. s c = Some ch \<longrightarrow> s d = Some dh \<longrightarrow> fd ch = fd dh \<longrightarrow> c = d)"

lemma set_index_sel [simp]:
  "events (set_index ch i) = events ch" "fd (set_index ch i) = fd ch" "index (set_index ch i) = i"
  "set_index (set_index ch i) j = set_index ch j" "set_index ch (index ch) = ch"
  by (simp_all add: set_index_def)

lemma same_but_indexD:
  assumes "same_but_index s s'"
  shows "s c = Some ch \<Longrightarrow> \<exists>i. s' c = Some (set_index ch i)" and "s c = None \<Longrightarrow> s' c = None"
proof -
  have eq: "map_option (\<lambda>ch. set_index ch 0) (s c) = map_option (\<lambda>ch. set_index ch 0) (s' c)"
    using assms by (simp add: same_but_index_def)
  show "s c = None \<Longrightarrow> s' c = None" using eq by auto
  assume "s c = Some ch"
  with eq obtain ch' where ch': "s' c = Some ch'" "set_index ch 0 = set_index ch' 0"
    by (cases "s' c") auto
  then have "set_index ch (index ch') = ch'"
    by (metis set_index_sel(4,5))
  with ch' show "\<exists>i. s' c = Some (set_index ch i)" by metis
qed

lemma same_but_index_events:
  assumes "same_but_index s s'"
  shows "map_option (\<lambda>ch. f (events ch) (fd ch)) (s' c) = map_option (\<lambda>ch. f (events ch) (fd ch)) (s c)"
  using same_but_indexD [OF assms, of c] by (cases "s c") auto

lemma good_store_change: "good_store s \<Longrightarrow> s c = Some ch \<Longrightarrow> good_store (s(c \<mapsto> apply_change x ch))"
  unfolding good_store_def by (auto simp: apply_change_valid split: if_splits)

lemma good_store_index: "good_store s \<Longrightarrow> same_but_index s s' \<Longrightarrow> good_store s'"
proof -
  assume g: "good_store s" and s: "same_but_index s s'"
  have "\<exists>ch'. s c = Some ch' \<and> fd ch = fd ch' \<and> events ch = events ch'" if "s' c = Some ch" for c ch
    using same_but_indexD [OF s, of c] that by (cases "s c") auto
  with g show ?thesis
    unfolding good_store_def by metis
qed

lemma same_but_index_refl [simp]: "same_but_index s s"
  by (simp add: same_but_index_def)

lemma same_but_index_set: "s c = Some ch \<Longrightarrow> same_but_index s (s(c \<mapsto> set_index ch i))"
  by (simp add: same_but_index_def)

text \<open>The kernel watches exactly the masks of the registered channels.\<close>

definition in_sync :: "('p \<Rightarrow> int \<Rightarrow> 32 word) \<Rightarrow> ('p \<Rightarrow> int \<rightharpoonup> nat) \<Rightarrow> 'p \<times> 'c store \<Rightarrow> bool" where
  "in_sync watch cm = (\<lambda>(p, s). \<forall>f. watch p f =
     (case cm p f of None \<Rightarrow> kNoneEvent
      | Some c \<Rightarrow> (case s c of None \<Rightarrow> kNoneEvent | Some ch \<Rightarrow> events ch)))"

definition abs_interest :: "('p \<Rightarrow> int \<rightharpoonup> nat) \<Rightarrow> 'p \<times> 'c store \<Rightarrow> interest_spec" where
  "abs_interest cm = (\<lambda>(p, s) c. map_option (\<lambda>ch. (events ch, cm p (fd ch) = Some c)) (s c))"

lemma abs_interest_app: "abs_interest cm (p, s) c = map_option (\<lambda>ch. (events ch, cm p (fd ch) = Some c)) (s c)"
  by (simp add: abs_interest_def)

text \<open>What changes in the abstraction when only the entry of one channel's descriptor does.\<close>

lemma abs_interest_update:
  assumes good: "good_store s" and c: "s c = Some ch" and same: "same_but_index (s(c \<mapsto> ch')) s'"
    and fd: "fd ch' = fd ch" and cm: "cm p' = (cm p)(fd ch := r)"
  shows "abs_interest cm (p', s') = (abs_interest cm (p, s))(c \<mapsto> (events ch', r = Some c))"
proof
  fix d
  have evf: "map_option (\<lambda>ch. (events ch, cm p' (fd ch) = Some d)) (s' d) =
      map_option (\<lambda>ch. (events ch, cm p' (fd ch) = Some d)) ((s(c \<mapsto> ch')) d)"
    using same_but_index_events [OF same, of "\<lambda>e f. (e, cm p' f = Some d)" d] by simp
  show "abs_interest cm (p', s') d = ((abs_interest cm (p, s))(c \<mapsto> (events ch', r = Some c))) d"
  proof (cases "d = c")
    case True
    then show ?thesis using evf fd by (simp add: abs_interest_app cm)
  next
    case False
    have "fd dh \<noteq> fd ch" if "s d = Some dh" for dh
      using good c that False unfolding good_store_def by blast
    then show ?thesis
      using evf False by (cases "s d") (simp_all add: abs_interest_app cm)
  qed
qed

lemma in_sync_update:
  assumes sync: "in_sync watch cm (p, s)" and same: "same_but_index (s(c \<mapsto> ch')) s'"
    and cm: "cm p' = (cm p)(fd ch := r)" and w: "watch p' = (watch p)(fd ch := events ch')"
    and r: "r = Some c \<or> r = None \<and> events ch' = kNoneEvent"
    and unreg: "\<And>f. f \<noteq> fd ch \<Longrightarrow> cm p f \<noteq> Some c"
  shows "in_sync watch cm (p', s')"
proof -
  have ev: "(case s' d of None \<Rightarrow> kNoneEvent | Some ch \<Rightarrow> events ch) =
      (case (s(c \<mapsto> ch')) d of None \<Rightarrow> kNoneEvent | Some ch \<Rightarrow> events ch)" for d
    using same_but_index_events [OF same, of "\<lambda>e f. e" d]
    by (cases "s' d"; cases "(s(c \<mapsto> ch')) d") (auto simp del: fun_upd_apply)
  have "watch p' f = (case cm p' f of None \<Rightarrow> kNoneEvent
      | Some d \<Rightarrow> (case s' d of None \<Rightarrow> kNoneEvent | Some ch \<Rightarrow> events ch))" for f
  proof (cases "f = fd ch")
    case True
    then show ?thesis using r by (auto simp: cm w ev)
  next
    case False
    then have "watch p f = (case cm p f of None \<Rightarrow> kNoneEvent
        | Some d \<Rightarrow> (case s d of None \<Rightarrow> kNoneEvent | Some ch \<Rightarrow> events ch))"
      using sync by (simp add: in_sync_def)
    with False unreg [OF False] show ?thesis
      by (cases "cm p f") (auto simp: cm w ev)
  qed
  then show ?thesis by (simp add: in_sync_def)
qed

context total_poller
begin

definition ok :: "'a \<times> 'b store \<Rightarrow> bool" where
  "ok ps \<longleftrightarrow> inv ps \<and> good_store (snd ps) \<and> in_sync watch chan_map ps"

lemma unregistered_elsewhere: "inv (p, s) \<Longrightarrow> s c = Some ch \<Longrightarrow> f \<noteq> fd ch \<Longrightarrow> chan_map p f \<noteq> Some c"
  using registered [of p s f c] by auto

lemma change_step:
  assumes ok: "ok (p, s)" and c: "s c = Some ch"
  shows "\<exists>ps'. chan_step upd rem (Change x c) (p, s) = Some ps' \<and> ok ps' \<and>
    abs_interest chan_map ps' = (abs_interest chan_map (p, s))(c \<mapsto> (change_mask x (events ch), True))"
proof -
  let ?ch = "apply_change x ch" and ?s = "s(c \<mapsto> apply_change x ch)"
  have inv: "inv (p, s)" and good: "good_store s" and sync: "in_sync watch chan_map (p, s)"
    using ok by (simp_all add: ok_def)
  have inv1: "inv (p, ?s)" using set_events [OF inv c] .
  have good1: "good_store ?s" using good_store_change [OF good c] .
  have own: "chan_map p (fd ch) = None \<or> chan_map p (fd ch) = Some c"
    using registered [OF inv, of "fd ch"] good c unfolding good_store_def by (metis option.exhaust)
  have "0 \<le> fd ?ch" "valid_events (events ?ch)"
    using good c by (auto simp: good_store_def apply_change_valid)
  then obtain p' s' where u: "upd c (p, ?s) = Some (p', s')" "inv (p', s')" "same_but_index ?s s'"
      "chan_map p' = (chan_map p)(fd ch \<mapsto> c)" "watch p' = (watch p)(fd ch := events ?ch)"
    using update_ok [OF inv1, of c ?ch] own can_update [OF inv1, of c] by auto
  have "in_sync watch chan_map (p', s')"
    using in_sync_update [OF sync u(3) u(4) u(5)] unregistered_elsewhere [OF inv c] by simp
  moreover have "abs_interest chan_map (p', s') =
      (abs_interest chan_map (p, s))(c \<mapsto> (change_mask x (events ch), True))"
    using abs_interest_update [where cm = chan_map, OF good c u(3) _ u(4)] by (simp add: events_change_mask)
  ultimately show ?thesis
    using u(1,2) c good_store_index [OF good1 u(3)] by (simp add: ok_def)
qed

lemma remove_step:
  assumes ok: "ok (p, s)" and c: "s c = Some ch" and reg: "chan_map p (fd ch) = Some c"
    and none: "events ch = kNoneEvent"
  shows "\<exists>ps'. chan_step upd rem (Remove c) (p, s) = Some ps' \<and> ok ps' \<and>
    abs_interest chan_map ps' = (abs_interest chan_map (p, s))(c \<mapsto> (kNoneEvent, False))"
proof -
  have inv: "inv (p, s)" and good: "good_store s" and sync: "in_sync watch chan_map (p, s)"
    using ok by (simp_all add: ok_def)
  obtain p' s' where u: "rem c (p, s) = Some (p', s')" "inv (p', s')" "same_but_index s s'"
      "chan_map p' = (chan_map p)(fd ch := None)" "watch p' = (watch p)(fd ch := kNoneEvent)"
    using remove_ok [OF inv c reg none] can_remove [OF inv, of c] by auto
  have same: "same_but_index (s(c \<mapsto> ch)) s'"
    using u(3) c by (simp add: map_upd_triv)
  have "in_sync watch chan_map (p', s')"
    using in_sync_update [OF sync same u(4)] u(5) none unregistered_elsewhere [OF inv c] by simp
  moreover have "abs_interest chan_map (p', s') =
      (abs_interest chan_map (p, s))(c \<mapsto> (kNoneEvent, False))"
    using abs_interest_update [where cm = chan_map, OF good c same _ u(4)] none by simp
  ultimately show ?thesis
    using u(1,2) c none good_store_index [OF good u(3)] by (simp add: ok_def isNoneEvent_def)
qed

lemma step_refines:
  assumes "ok ps"
  shows "map_option (abs_interest chan_map) (chan_step upd rem op ps) = spec_step op (abs_interest chan_map ps)"
    and "chan_step upd rem op ps = Some ps' \<Longrightarrow> ok ps'"
proof -
  obtain p s where ps: "ps = (p, s)" by fastforce
  let ?thesis' = "map_option (abs_interest chan_map) (chan_step upd rem op ps) =
      spec_step op (abs_interest chan_map ps) \<and> (chan_step upd rem op ps = Some ps' \<longrightarrow> ok ps')"
  have "?thesis'"
  proof (cases op)
    case (Change x c)
    then show ?thesis
      using change_step [OF assms [unfolded ps], of c _ x] ps
      by (cases "s c") (fastforce simp: abs_interest_app)+
  next
    case (Remove c)
    show ?thesis
    proof (cases "\<exists>ch. s c = Some ch \<and> chan_map p (fd ch) = Some c \<and> events ch = kNoneEvent")
      case True
      with Remove remove_step [OF assms [unfolded ps], of c] ps show ?thesis
        by (fastforce simp: abs_interest_app)
    next
      case False
      then have "rem c (p, s) = None" if "s c = Some ch" for ch
        using remove_refused [of p s c ch] assms that ps by (auto simp: ok_def)
      with False Remove ps show ?thesis
        by (cases "s c") (auto simp: abs_interest_app isNoneEvent_def)
    qed
  qed
  then show "map_option (abs_interest chan_map) (chan_step upd rem op ps) = spec_step op (abs_interest chan_map ps)"
    and "chan_step upd rem op ps = Some ps' \<Longrightarrow> ok ps'" by simp_all
qed

lemma run_refines:
  assumes "ok ps"
  shows "map_option (abs_interest chan_map) (chan_run upd rem ops ps) = spec_run ops (abs_interest chan_map ps)"
  using assms
proof (induction ops arbitrary: ps)
  case (Cons op ops)
  show ?case
  proof (cases "chan_step upd rem op ps")
    case None
    with step_refines(1) [OF Cons.prems, of op] show ?thesis by simp
  next
    case (Some ps')
    with step_refines [OF Cons.prems, of op] Cons.IH [of ps'] show ?thesis
      by (auto simp flip: step_refines(1) [OF Cons.prems, of op])
  qed
qed simp

lemma run_ok: "ok ps \<Longrightarrow> chan_run upd rem ops ps = Some ps' \<Longrightarrow> ok ps'"
  by (induction ops arbitrary: ps) (auto simp: bind_eq_Some_conv dest: step_refines(2))

end

section \<open>EPollPoller meets the contract\<close>

definition ep_watch :: "epoll_poller \<Rightarrow> int \<Rightarrow> 32 word" where
  "ep_watch p f = (case ep_interest p f of None \<Rightarrow> kNoneEvent | Some (e, c) \<Rightarrow> e)"

definition ep_inv :: "'c epoll_state \<Rightarrow> bool" where
  "ep_inv = (\<lambda>(p, s).
     (\<forall>f c. ep_channels p f = Some c \<longrightarrow>
        (\<exists>ch. s c = Some ch \<and> fd ch = f \<and> (index ch = kAdded \<or> index ch = kDeleted))) \<and>
     (\<forall>c ch. s c = Some ch \<longrightarrow> index ch = kNew \<or> ep_channels p (fd ch) = Some c) \<and>
     (\<forall>f. ep_interest p f \<noteq> None \<longleftrightarrow>
        (\<exists>c ch. ep_channels p f = Some c \<and> s c = Some ch \<and> index ch = kAdded)) \<and>
     (\<forall>f e c. ep_interest p f = Some (e, c) \<longrightarrow> ep_channels p f = Some c))"

lemma ep_inv_pointer: "ep_inv (p, s) \<Longrightarrow> ep_interest p f = Some (e, c) \<Longrightarrow> ep_channels p f = Some c"
  by (simp add: ep_inv_def)

lemma ep_inv_registered: "ep_inv (p, s) \<Longrightarrow> ep_channels p f = Some c \<Longrightarrow>
    \<exists>ch. s c = Some ch \<and> fd ch = f \<and> (index ch = kAdded \<or> index ch = kDeleted)"
  by (simp add: ep_inv_def)

lemma ep_inv_new: "ep_inv (p, s) \<Longrightarrow> s c = Some ch \<Longrightarrow> index ch = kNew \<or> ep_channels p (fd ch) = Some c"
  by (simp add: ep_inv_def)

lemma ep_inv_interest: "ep_inv (p, s) \<Longrightarrow> ep_interest p f \<noteq> None \<longleftrightarrow>
    (\<exists>c ch. ep_channels p f = Some c \<and> s c = Some ch \<and> index ch = kAdded)"
  by (simp add: ep_inv_def)

lemma ep_interest_None: "ep_inv (p, s) \<Longrightarrow>
    (\<And>c ch. ep_channels p f = Some c \<Longrightarrow> s c = Some ch \<Longrightarrow> index ch \<noteq> kAdded) \<Longrightarrow> ep_interest p f = None"
  using ep_inv_interest by blast

lemma kStates_distinct [simp]: "kNew \<noteq> kAdded" "kNew \<noteq> kDeleted" "kAdded \<noteq> kDeleted"
  "kAdded \<noteq> kNew" "kDeleted \<noteq> kNew" "kDeleted \<noteq> kAdded"
  by (simp_all add: kNew_def kAdded_def kDeleted_def)

lemma ep_inv_set_events:
  assumes inv: "ep_inv (p, s)" and c: "s c = Some ch"
  shows "ep_inv (p, s(c \<mapsto> apply_change x ch))"
proof -
  have "\<exists>ch'. (s(c \<mapsto> apply_change x ch)) d = Some ch' \<and> fd ch' = f \<and> (index ch' = kAdded \<or> index ch' = kDeleted)"
    if "ep_channels p f = Some d" for f d
    using ep_inv_registered [OF inv that] c by auto
  moreover have "index dh = kNew \<or> ep_channels p (fd dh) = Some d"
    if "(s(c \<mapsto> apply_change x ch)) d = Some dh" for d dh
    using that ep_inv_new [OF inv, of d] c by (cases "d = c") auto
  moreover have "(\<exists>d dh. ep_channels p f = Some d \<and> (s(c \<mapsto> apply_change x ch)) d = Some dh \<and> index dh = kAdded) \<longleftrightarrow>
      (\<exists>d dh. ep_channels p f = Some d \<and> s d = Some dh \<and> index dh = kAdded)" for f
    using c by (cases "ep_channels p f"; cases "ep_channels p f = Some c") auto
  ultimately show ?thesis
    using ep_inv_interest [OF inv] ep_inv_pointer [OF inv] by (simp add: ep_inv_def)
qed

text \<open>
  Entering a channel: the new states of the maps, of the interest list and of the index go together.
\<close>

lemma ep_inv_enter:
  assumes inv: "ep_inv (p, s)" and c: "s c = Some ch"
    and own: "ep_channels p (fd ch) = None \<or> ep_channels p (fd ch) = Some c"
    and ix: "i = kAdded \<and> ep_interest p' = (ep_interest p)(fd ch \<mapsto> (e, c)) \<or>
      i = kDeleted \<and> ep_interest p' = (ep_interest p)(fd ch := None)"
    and cm: "ep_channels p' = (ep_channels p)(fd ch \<mapsto> c)"
  shows "ep_inv (p', s(c \<mapsto> set_index ch i))"
proof -
  have other: "d \<noteq> c" if "ep_channels p f = Some d" "f \<noteq> fd ch" for f d
    using ep_inv_registered [OF inv that(1)] that(2) c by auto
  have "\<exists>ch'. (s(c \<mapsto> set_index ch i)) d = Some ch' \<and> fd ch' = f \<and> (index ch' = kAdded \<or> index ch' = kDeleted)"
    if "ep_channels p' f = Some d" for f d
    using that ep_inv_registered [OF inv, of f d] other [of f d] ix by (auto simp: cm split: if_splits)
  moreover have "index dh = kNew \<or> ep_channels p' (fd dh) = Some d"
    if "(s(c \<mapsto> set_index ch i)) d = Some dh" for d dh
    using that ep_inv_new [OF inv, of d dh] own by (auto simp: cm split: if_splits)
  moreover have "ep_interest p' f \<noteq> None \<longleftrightarrow>
      (\<exists>d dh. ep_channels p' f = Some d \<and> (s(c \<mapsto> set_index ch i)) d = Some dh \<and> index dh = kAdded)" for f
    using ix ep_inv_interest [OF inv, of f] other [of f] by (cases "f = fd ch") (auto simp: cm)
  moreover have "ep_channels p' f = Some d" if "ep_interest p' f = Some (e', d)" for f e' d
    using that ix ep_inv_pointer [OF inv, of f e' d] by (auto simp: cm split: if_splits)
  ultimately show ?thesis by (simp add: ep_inv_def)
qed

lemma ep_inv_leave:
  assumes inv: "ep_inv (p, s)" and c: "s c = Some ch" and reg: "ep_channels p (fd ch) = Some c"
    and im: "ep_interest p' = (ep_interest p)(fd ch := None)"
    and cm: "ep_channels p' = (ep_channels p)(fd ch := None)"
  shows "ep_inv (p', s(c \<mapsto> set_index ch kNew))"
proof -
  have other: "d \<noteq> c" if "ep_channels p f = Some d" "f \<noteq> fd ch" for f d
    using ep_inv_registered [OF inv that(1)] that(2) c by auto
  have "\<exists>ch'. (s(c \<mapsto> set_index ch kNew)) d = Some ch' \<and> fd ch' = f \<and> (index ch' = kAdded \<or> index ch' = kDeleted)"
    if "ep_channels p' f = Some d" for f d
    using that ep_inv_registered [OF inv, of f d] other [of f d] by (auto simp: cm split: if_splits)
  moreover have "index dh = kNew \<or> ep_channels p' (fd dh) = Some d"
    if "(s(c \<mapsto> set_index ch kNew)) d = Some dh" for d dh
    using that ep_inv_new [OF inv, of d dh] reg by (auto simp: cm split: if_splits)
  moreover have "ep_interest p' f \<noteq> None \<longleftrightarrow>
      (\<exists>d dh. ep_channels p' f = Some d \<and> (s(c \<mapsto> set_index ch kNew)) d = Some dh \<and> index dh = kAdded)" for f
    using ep_inv_interest [OF inv, of f] other [of f] by (cases "f = fd ch") (auto simp: cm im)
  moreover have "ep_channels p' f = Some d" if "ep_interest p' f = Some (e', d)" for f e' d
    using that ep_inv_pointer [OF inv, of f e' d] by (auto simp: cm im split: if_splits)
  ultimately show ?thesis by (simp add: ep_inv_def)
qed

lemma EPoll_update_add:
  "s c = Some ch \<Longrightarrow> ep_interest p (fd ch) = None \<Longrightarrow>
   EPoll_update EPOLL_CTL_ADD c (p, s) = Some (p\<lparr>ep_interest := (ep_interest p)(fd ch \<mapsto> (events ch, c))\<rparr>, s)"
  by (simp add: EPoll_update_def epoll_ctl_def)

lemma EPoll_update_mod:
  "s c = Some ch \<Longrightarrow> ep_interest p (fd ch) \<noteq> None \<Longrightarrow>
   EPoll_update EPOLL_CTL_MOD c (p, s) = Some (p\<lparr>ep_interest := (ep_interest p)(fd ch \<mapsto> (events ch, c))\<rparr>, s)"
  by (auto simp: EPoll_update_def epoll_ctl_def)

lemma EPoll_update_del:
  "s c = Some ch \<Longrightarrow> ep_interest p (fd ch) \<noteq> None \<Longrightarrow>
   EPoll_update EPOLL_CTL_DEL c (p, s) = Some (p\<lparr>ep_interest := (ep_interest p)(fd ch := None)\<rparr>, s)"
  by (auto simp: EPoll_update_def epoll_ctl_def)

lemma ep_watch_upd:
  "ep_interest p' = (ep_interest p)(f \<mapsto> (e, c)) \<Longrightarrow> ep_watch p' = (ep_watch p)(f := e)"
  "ep_interest p' = (ep_interest p)(f := None) \<Longrightarrow> ep_watch p' = (ep_watch p)(f := kNoneEvent)"
  by (auto simp: ep_watch_def fun_eq_iff)

lemma EPoll_updateChannel_ok:
  assumes inv: "ep_inv (p, s)" and c: "s c = Some ch"
    and own: "ep_channels p (fd ch) = None \<or> ep_channels p (fd ch) = Some c"
  shows "\<exists>p' s'. EPoll_updateChannel c (p, s) = Some (p', s') \<and> ep_inv (p', s') \<and> same_but_index s s' \<and>
    ep_channels p' = (ep_channels p)(fd ch \<mapsto> c) \<and> ep_watch p' = (ep_watch p)(fd ch := events ch)"
proof -
  let ?p = "p\<lparr>ep_channels := (ep_channels p)(fd ch \<mapsto> c), ep_interest := (ep_interest p)(fd ch \<mapsto> (events ch, c))\<rparr>"
  let ?q = "p\<lparr>ep_channels := (ep_channels p)(fd ch \<mapsto> c), ep_interest := (ep_interest p)(fd ch := None)\<rparr>"
  have added: "ep_inv (?p, s(c \<mapsto> set_index ch kAdded))"
    by (rule ep_inv_enter [OF inv c own, where e = "events ch"]) auto
  have deleted: "ep_inv (?q, s(c \<mapsto> set_index ch kDeleted))"
    by (rule ep_inv_enter [OF inv c own, where e = "events ch"]) auto
  have w: "ep_watch ?p = (ep_watch p)(fd ch := events ch)" "ep_watch ?q = (ep_watch p)(fd ch := kNoneEvent)"
    by (rule ep_watch_upd; simp)+
  have triv: "(ep_channels p)(fd ch \<mapsto> c) = ep_channels p" if "ep_channels p (fd ch) = Some c"
    using that by (simp add: map_upd_triv)
  consider (new) "index ch = kNew" "ep_channels p (fd ch) = None" | (del) "index ch = kDeleted" "ep_channels p (fd ch) = Some c"
    | (add) "index ch = kAdded" "ep_channels p (fd ch) = Some c"
    using own ep_inv_new [OF inv c] ep_inv_registered [OF inv, of "fd ch" c] c by auto
  then show ?thesis
  proof cases
    case new
    then have "ep_interest p (fd ch) = None" by (intro ep_interest_None [OF inv]) simp
    with new c added w show ?thesis
      by (simp add: EPoll_updateChannel_def EPoll_update_add same_but_index_set)
  next
    case del
    then have "ep_interest p (fd ch) = None" using c by (intro ep_interest_None [OF inv]) simp
    with del c added w triv show ?thesis
      by (simp add: EPoll_updateChannel_def EPoll_update_add same_but_index_set)
  next
    case add
    then have int: "ep_interest p (fd ch) \<noteq> None" using ep_inv_interest [OF inv, of "fd ch"] c by blast
    have same: "s(c \<mapsto> set_index ch kAdded) = s"
      using add c by (simp add: set_index_def map_upd_triv)
    show ?thesis
    proof (cases "isNoneEvent ch")
      case True
      with add c int deleted w triv show ?thesis
        by (simp add: EPoll_updateChannel_def EPoll_update_del same_but_index_set isNoneEvent_def)
    next
      case False
      with add c int added w triv same show ?thesis
        by (simp add: EPoll_updateChannel_def EPoll_update_mod)
    qed
  qed
qed

lemma EPoll_removeChannel_ok:
  assumes inv: "ep_inv (p, s)" and c: "s c = Some ch" and reg: "ep_channels p (fd ch) = Some c"
    and none: "events ch = kNoneEvent"
  shows "\<exists>p' s'. EPoll_removeChannel c (p, s) = Some (p', s') \<and> ep_inv (p', s') \<and> same_but_index s s' \<and>
    ep_channels p' = (ep_channels p)(fd ch := None) \<and> ep_watch p' = (ep_watch p)(fd ch := kNoneEvent)"
proof -
  let ?p = "p\<lparr>ep_channels := (ep_channels p)(fd ch := None), ep_interest := (ep_interest p)(fd ch := None)\<rparr>"
  have left: "ep_inv (?p, s(c \<mapsto> set_index ch kNew))"
    by (rule ep_inv_leave [OF inv c reg]) auto
  have w: "ep_watch ?p = (ep_watch p)(fd ch := kNoneEvent)"
    by (rule ep_watch_upd) simp
  consider (add) "index ch = kAdded" | (del) "index ch = kDeleted"
    using ep_inv_registered [OF inv reg] c by auto
  then show ?thesis
  proof cases
    case add
    then have "ep_interest p (fd ch) \<noteq> None" using ep_inv_interest [OF inv, of "fd ch"] c reg by blast
    with add left w c reg none show ?thesis
      by (simp add: EPoll_removeChannel_def EPoll_update_del same_but_index_set isNoneEvent_def)
  next
    case del
    then have "ep_interest p (fd ch) = None" using c reg by (intro ep_interest_None [OF inv]) simp
    then have "(ep_interest p)(fd ch := None) = ep_interest p" by auto
    then have "?p = p\<lparr>ep_channels := (ep_channels p)(fd ch := None)\<rparr>" by simp
    with del left w c reg none show ?thesis
      by (simp add: EPoll_removeChannel_def same_but_index_set isNoneEvent_def)
  qed
qed

interpretation epoll: total_poller EPoll_updateChannel EPoll_removeChannel ep_watch ep_channels ep_inv
  "\<lambda>_ _. True" "\<lambda>_ _. True"
proof unfold_locales
  fix p and s :: "'a store" and f c ch x
  show "ep_inv (p, s) \<Longrightarrow> ep_channels p f = Some c \<Longrightarrow> \<exists>ch. s c = Some ch \<and> fd ch = f"
    using ep_inv_registered by blast
  show "ep_inv (p, s) \<Longrightarrow> s c = Some ch \<Longrightarrow> ep_inv (p, s(c \<mapsto> apply_change x ch))"
    by (rule ep_inv_set_events)
  show "ep_inv (p, s) \<Longrightarrow> s c = Some ch \<Longrightarrow> ep_channels p (fd ch) \<noteq> Some c \<or> events ch \<noteq> kNoneEvent \<Longrightarrow>
      EPoll_removeChannel c (p, s) = None"
    by (auto simp: EPoll_removeChannel_def isNoneEvent_def)
qed (simp_all add: EPoll_updateChannel_ok EPoll_removeChannel_ok)

section \<open>PollPoller meets the contract in the states its clients must stay in\<close>

text \<open>The mask \<^verbatim>\<open>poll(2)\<close> is asked for: entries with a negative descriptor are ignored.\<close>

definition pp_watch :: "poll_poller \<Rightarrow> int \<Rightarrow> 32 word" where
  "pp_watch p f = (if f < 0 then kNoneEvent
     else case find (\<lambda>e. pfd_fd e = f) (pollfds p) of None \<Rightarrow> kNoneEvent | Some e \<Rightarrow> ucast (pfd_events e))"

definition entry_fd :: "pollfd \<Rightarrow> int" where
  "entry_fd e = (if pfd_fd e < 0 then - pfd_fd e - 1 else pfd_fd e)"

definition pp_inv :: "'c poll_state \<Rightarrow> bool" where
  "pp_inv = (\<lambda>(p, s).
     (\<forall>f c. pp_channels p f = Some c \<longrightarrow>
        (\<exists>ch. s c = Some ch \<and> fd ch = f \<and> 0 \<le> f \<and> 0 \<le> index ch \<and> nat (index ch) < length (pollfds p) \<and>
           entry_fd (pollfds p ! nat (index ch)) = f)) \<and>
     (\<forall>i<length (pollfds p). \<exists>f c ch. pp_channels p f = Some c \<and> s c = Some ch \<and> index ch = int i))"

definition pp_can_update :: "'c poll_state \<Rightarrow> nat \<Rightarrow> bool" where
  "pp_can_update = (\<lambda>(p, s) c. \<forall>ch. s c = Some ch \<longrightarrow>
     pp_channels p (fd ch) = None \<and> index ch < 0 \<or>
     pp_channels p (fd ch) = Some c \<and> (events ch = kNoneEvent \<or> 0 \<le> pfd_fd (pollfds p ! nat (index ch))))"

definition pp_can_remove :: "'c poll_state \<Rightarrow> nat \<Rightarrow> bool" where
  "pp_can_remove = (\<lambda>(p, s) c. \<forall>ch. s c = Some ch \<longrightarrow>
     pfd_fd (pollfds p ! nat (index ch)) = - fd ch - 1 \<and>
     ucast (pfd_events (pollfds p ! nat (index ch))) = events ch)"

lemma pp_inv_registered: "pp_inv (p, s) \<Longrightarrow> pp_channels p f = Some c \<Longrightarrow>
    \<exists>ch. s c = Some ch \<and> fd ch = f \<and> 0 \<le> f \<and> 0 \<le> index ch \<and> nat (index ch) < length (pollfds p) \<and>
      entry_fd (pollfds p ! nat (index ch)) = f"
  by (simp add: pp_inv_def)

lemma pp_inv_entry: "pp_inv (p, s) \<Longrightarrow> i < length (pollfds p) \<Longrightarrow>
    \<exists>c ch. pp_channels p (entry_fd (pollfds p ! i)) = Some c \<and> s c = Some ch \<and>
      fd ch = entry_fd (pollfds p ! i) \<and> index ch = int i"
proof -
  assume inv: "pp_inv (p, s)" and i: "i < length (pollfds p)"
  then have "\<exists>f c ch. pp_channels p f = Some c \<and> s c = Some ch \<and> index ch = int i"
    by (simp add: pp_inv_def)
  then obtain f c ch where c: "pp_channels p f = Some c" "s c = Some ch" "index ch = int i"
    by blast
  with pp_inv_registered [OF inv c(1)] show ?thesis by auto
qed

lemma pp_inv_unique:
  assumes "pp_inv (p, s)" "i < length (pollfds p)" "j < length (pollfds p)"
    "entry_fd (pollfds p ! i) = entry_fd (pollfds p ! j)"
  shows "i = j"
proof -
  obtain c ch where c: "pp_channels p (entry_fd (pollfds p ! i)) = Some c" "s c = Some ch" "index ch = int i"
    using pp_inv_entry [OF assms(1,2)] by blast
  obtain d dh where d: "pp_channels p (entry_fd (pollfds p ! j)) = Some d" "s d = Some dh" "index dh = int j"
    using pp_inv_entry [OF assms(1,3)] by blast
  have "c = d" using c(1) d(1) assms(4) by simp
  with c d show ?thesis by simp
qed

lemma pp_watch_hit:
  assumes inv: "pp_inv (p, s)" and e: "e \<in> set (pollfds p)" "pfd_fd e = f" "0 \<le> f"
  shows "pp_watch p f = ucast (pfd_events e)"
proof -
  obtain i where i: "i < length (pollfds p)" "pollfds p ! i = e"
    using e by (auto simp: in_set_conv_nth)
  obtain e' where e': "find (\<lambda>e. pfd_fd e = f) (pollfds p) = Some e'"
    using e find_None_iff [of "\<lambda>e. pfd_fd e = f" "pollfds p"] by fastforce
  then obtain j where j: "find (\<lambda>e. pfd_fd e = f) (pollfds p) = Some (pollfds p ! j)"
      "j < length (pollfds p)" "pfd_fd (pollfds p ! j) = f"
    by (auto simp: find_Some_iff)
  have "i = j" using i j e by (intro pp_inv_unique [OF inv]) (auto simp: entry_fd_def)
  with i j e show ?thesis by (simp add: pp_watch_def)
qed

lemma pp_watch_miss: "(\<And>e. e \<in> set (pollfds p) \<Longrightarrow> pfd_fd e \<noteq> f) \<Longrightarrow> pp_watch p f = kNoneEvent"
  using find_None_iff [of "\<lambda>e. pfd_fd e = f" "pollfds p"] by (auto simp: pp_watch_def)

lemma pp_watch_cong:
  assumes inv: "pp_inv (p, s)" "pp_inv (p', s')"
    and eq: "\<And>e. pfd_fd e = f \<Longrightarrow> e \<in> set (pollfds p') \<longleftrightarrow> e \<in> set (pollfds p)"
  shows "pp_watch p' f = pp_watch p f"
proof (cases "\<exists>e\<in>set (pollfds p). pfd_fd e = f \<and> 0 \<le> f")
  case True
  then obtain e where e: "e \<in> set (pollfds p)" "pfd_fd e = f" "0 \<le> f" by blast
  then have "e \<in> set (pollfds p')" using eq by blast
  with e show ?thesis using pp_watch_hit [OF inv(1) e] pp_watch_hit [OF inv(2) _ e(2,3)] by simp
next
  case False
  then show ?thesis
    using pp_watch_miss [of p f] pp_watch_miss [of p' f] eq
    by (cases "0 \<le> f") (fastforce, simp add: pp_watch_def)
qed

lemma ucast_events: "valid_events e \<Longrightarrow> ucast (ucast e :: 16 word) = (e :: 32 word)"
proof -
  assume "valid_events e"
  then have "unat e < 8" using valid_events_less_8 [of e] by (simp add: word_less_nat_alt)
  then have "unat (ucast (ucast e :: 16 word) :: 32 word) = unat e"
    by (simp add: unsigned_ucast_eq unsigned_take_bit_eq take_bit_nat_eq_self)
  then show ?thesis by (simp add: word_unat_eq_iff)
qed

lemma pp_update_new:
  assumes inv: "pp_inv (p, s)" and c: "s c = Some ch" "0 \<le> fd ch" "valid_events (events ch)"
    and new: "pp_channels p (fd ch) = None" "index ch < 0"
  shows "\<exists>p' s'. Poll_updateChannel c (p, s) = Some (p', s') \<and> pp_inv (p', s') \<and> same_but_index s s' \<and>
    pp_channels p' = (pp_channels p)(fd ch \<mapsto> c) \<and> pp_watch p' = (pp_watch p)(fd ch := events ch)"
proof -
  let ?e = "\<lparr>pfd_fd = fd ch, pfd_events = ucast (events ch), pfd_revents = 0\<rparr>"
  let ?p = "p\<lparr>pollfds := pollfds p @ [?e], pp_channels := (pp_channels p)(fd ch \<mapsto> c)\<rparr>"
  let ?s = "s(c \<mapsto> set_index ch (int (length (pollfds p))))"
  have other: "d \<noteq> c" if "pp_channels p f = Some d" for f d
    using pp_inv_registered [OF inv that] c new by auto
  have "\<exists>dh. ?s d = Some dh \<and> fd dh = f \<and> 0 \<le> f \<and> 0 \<le> index dh \<and> nat (index dh) < length (pollfds ?p) \<and>
      entry_fd (pollfds ?p ! nat (index dh)) = f" if "pp_channels ?p f = Some d" for f d
  proof (cases "f = fd ch")
    case True
    with that c show ?thesis by (auto simp: entry_fd_def)
  next
    case False
    with that have d: "pp_channels p f = Some d" by simp
    with pp_inv_registered [OF inv d] other [OF d] show ?thesis by (auto simp: nth_append)
  qed
  moreover have "\<exists>f d dh. pp_channels ?p f = Some d \<and> ?s d = Some dh \<and> index dh = int i"
    if "i < length (pollfds ?p)" for i
  proof (cases "i < length (pollfds p)")
    case True
    then obtain d dh where d: "pp_channels p (entry_fd (pollfds p ! i)) = Some d" "s d = Some dh" "index dh = int i"
      using pp_inv_entry [OF inv True] by blast
    then have "pp_channels ?p (entry_fd (pollfds p ! i)) = Some d \<and> ?s d = Some dh \<and> index dh = int i"
      using other [OF d(1)] new by auto
    then show ?thesis by blast
  next
    case False
    with that have "i = length (pollfds p)" by simp
    then have "pp_channels ?p (fd ch) = Some c \<and> ?s c = Some (set_index ch (int i)) \<and>
        index (set_index ch (int i)) = int i" by auto
    then show ?thesis by blast
  qed
  ultimately have inv': "pp_inv (?p, ?s)" by (simp add: pp_inv_def)
  have "pp_watch ?p f = pp_watch p f" if "f \<noteq> fd ch" for f
    using that by (intro pp_watch_cong [OF inv inv']) auto
  moreover have "pp_watch ?p (fd ch) = events ch"
    using pp_watch_hit [OF inv', of ?e] c by (simp add: ucast_events)
  ultimately have "pp_watch ?p = (pp_watch p)(fd ch := events ch)" by auto
  with inv' c new show ?thesis
    by (simp add: Poll_updateChannel_def same_but_index_set)
qed

lemma set_list_update_other:
  assumes "i < length xs" "\<not> P y" "\<not> P (xs ! i)" "P e"
  shows "e \<in> set (xs[i := y]) \<longleftrightarrow> e \<in> set xs"
proof -
  have "e \<noteq> y" "e \<noteq> xs ! i" using assms by auto
  moreover have "set xs = insert (xs ! i) (set (take i xs @ drop (Suc i) xs))"
    using assms(1) by (metis id_take_nth_drop list.set(2) set_append Un_insert_right)
  ultimately show ?thesis
    using assms(1) by (simp add: upd_conv_take_nth_drop)
qed

lemma pp_update_existing:
  assumes inv: "pp_inv (p, s)" and c: "s c = Some ch" "0 \<le> fd ch" "valid_events (events ch)"
    and old: "pp_channels p (fd ch) = Some c"
    and can: "events ch = kNoneEvent \<or> 0 \<le> pfd_fd (pollfds p ! nat (index ch))"
  shows "\<exists>p' s'. Poll_updateChannel c (p, s) = Some (p', s') \<and> pp_inv (p', s') \<and> same_but_index s s' \<and>
    pp_channels p' = (pp_channels p)(fd ch \<mapsto> c) \<and> pp_watch p' = (pp_watch p)(fd ch := events ch)"
proof -
  let ?i = "nat (index ch)"
  define e where "e = pollfds p ! ?i"
  define e' where "e' = (let e1 = e\<lparr>pfd_events := ucast (events ch), pfd_revents := 0\<rparr> in
      if isNoneEvent ch then e1\<lparr>pfd_fd := - fd ch - 1\<rparr> else e1)"
  let ?p = "p\<lparr>pollfds := (pollfds p)[?i := e']\<rparr>"
  have i: "0 \<le> index ch" "?i < length (pollfds p)" "entry_fd e = fd ch"
    using pp_inv_registered [OF inv old] c by (auto simp: e_def)
  then have fd: "pfd_fd e = fd ch \<or> pfd_fd e = - fd ch - 1"
    by (auto simp: entry_fd_def split: if_splits)
  have e': "entry_fd e' = fd ch" "ucast (pfd_events e') = events ch"
      "isNoneEvent ch \<Longrightarrow> pfd_fd e' = - fd ch - 1" "\<not> isNoneEvent ch \<Longrightarrow> pfd_fd e' = fd ch"
    using i c can fd by (auto simp: e'_def entry_fd_def ucast_events isNoneEvent_def Let_def simp flip: e_def)
  have entry: "entry_fd (pollfds ?p ! j) = entry_fd (pollfds p ! j)" for j
    using i e'(1) by (cases "j = ?i") (auto simp: e_def)
  have inv': "pp_inv (?p, s)"
    using inv unfolding pp_inv_def by (simp only: entry prod.case) simp
  have "pp_watch ?p f = pp_watch p f" if "f \<noteq> fd ch" "0 \<le> f" for f
  proof -
    have "pfd_fd e' = fd ch \<or> pfd_fd e' = - fd ch - 1" using e'(3,4) by blast
    then have "pfd_fd e' \<noteq> f" "pfd_fd (pollfds p ! ?i) \<noteq> f"
      using that fd c(2) unfolding e_def [symmetric] by linarith+
    then show ?thesis
      using set_list_update_other [of ?i "pollfds p" "\<lambda>e. pfd_fd e = f" e'] i
      by (intro pp_watch_cong [OF inv inv']) simp
  qed
  moreover have "pp_watch ?p (fd ch) = events ch"
  proof (cases "isNoneEvent ch")
    case True
    have "pfd_fd x \<noteq> fd ch" if "x \<in> set (pollfds ?p)" for x
    proof
      assume x: "pfd_fd x = fd ch"
      obtain j where j: "j < length (pollfds ?p)" "x = pollfds ?p ! j"
        using \<open>x \<in> set (pollfds ?p)\<close> by (metis in_set_conv_nth)
      have "j = ?i" using j i x c e'(1) by (intro pp_inv_unique [OF inv']) (auto simp: entry_fd_def)
      with j i x e'(3) True c show False by simp
    qed
    then show ?thesis using pp_watch_miss [of ?p "fd ch"] True by (simp add: isNoneEvent_def)
  next
    case False
    then show ?thesis
      using pp_watch_hit [OF inv' _ e'(4) c(2)] e'(2) i by (simp add: set_update_memI)
  qed
  ultimately have w: "pp_watch ?p = (pp_watch p)(fd ch := events ch)"
    by (auto simp: pp_watch_def fun_eq_iff)
  have "Poll_updateChannel c (p, s) = Some (?p, s)"
    using c old i fd by (simp add: Poll_updateChannel_def e'_def e_def Let_def)
  with inv' w old show ?thesis by (auto simp: map_upd_triv)
qed

text \<open>The array after a removal is the old one without the entry, up to order.\<close>

definition drop_entry :: "nat \<Rightarrow> 'a list \<Rightarrow> 'a list" where
  "drop_entry i xs = (if i = length xs - 1 then butlast xs else (butlast xs)[i := last xs])"

lemma drop_entry_nth: "i < length xs \<Longrightarrow> j < length xs - 1 \<Longrightarrow>
    drop_entry i xs ! j = (if j = i then last xs else xs ! j)"
  by (auto simp: drop_entry_def nth_butlast)

lemma length_drop_entry [simp]: "length (drop_entry i xs) = length xs - 1"
  by (simp add: drop_entry_def)

lemma set_drop_entry:
  assumes "i < length xs"
  shows "set xs = insert (xs ! i) (set (drop_entry i xs))"
proof -
  let ?n = "length xs - 1"
  have ne: "xs \<noteq> []" using assms by auto
  show ?thesis
  proof (cases "i = ?n")
    case True
    have "set xs = set (butlast xs @ [last xs])" using ne by simp
    then show ?thesis using True ne by (simp add: drop_entry_def last_conv_nth)
  next
    case False
    let ?ys = "xs[i := xs ! ?n, ?n := xs ! i]"
    have "set xs = set ?ys" using assms by simp
    also have "\<dots> = set (butlast ?ys @ [last ?ys])" using ne by simp
    also have "last ?ys = xs ! i" using ne by (simp add: last_conv_nth)
    also have "butlast ?ys = drop_entry i xs"
      using False ne by (simp add: drop_entry_def butlast_list_update last_conv_nth)
    finally show ?thesis by simp
  qed
qed

text \<open>The channel of the last entry takes the index of the removed one.\<close>

lemma pp_inv_drop:
  assumes inv: "pp_inv (p, s)" and c: "s c = Some ch" "pp_channels p (fd ch) = Some c"
    and c': "s c' = Some ch'" "pp_channels p (fd ch') = Some c'" "nat (index ch') = length (pollfds p) - 1"
    and p': "pollfds p' = drop_entry (nat (index ch)) (pollfds p)"
      "pp_channels p' = (pp_channels p)(fd ch := None)"
    and s': "s' = (if c' = c then s else s(c' \<mapsto> set_index ch' (index ch)))"
  shows "pp_inv (p', s')"
proof -
  let ?i = "nat (index ch)" and ?n = "length (pollfds p) - 1"
  have i: "0 \<le> index ch" "?i < length (pollfds p)" "entry_fd (pollfds p ! ?i) = fd ch"
    using pp_inv_registered [OF inv c(2)] c by auto
  have "pollfds p \<noteq> []" using i(2) by auto
  then have n: "entry_fd (pollfds p ! ?n) = fd ch'" "?n < length (pollfds p)" "last (pollfds p) = pollfds p ! ?n"
    using pp_inv_registered [OF inv c'(2)] c' by (auto simp: last_conv_nth)
  have same: "c' = c \<longleftrightarrow> ?i = ?n"
  proof
    assume "?i = ?n"
    then have "fd ch = fd ch'" using i n by simp
    then show "c' = c" using c c' by simp
  qed (use c c' in simp)
  have "\<exists>dh. s' d = Some dh \<and> fd dh = f \<and> 0 \<le> f \<and> 0 \<le> index dh \<and> nat (index dh) < length (pollfds p') \<and>
      entry_fd (pollfds p' ! nat (index dh)) = f" if d': "pp_channels p' f = Some d" for f d
  proof -
    have d: "pp_channels p f = Some d" "f \<noteq> fd ch" using d' by (auto simp: p' split: if_splits)
    obtain dh where dh: "s d = Some dh" "fd dh = f" "0 \<le> f" "0 \<le> index dh" "nat (index dh) < length (pollfds p)"
        "entry_fd (pollfds p ! nat (index dh)) = f"
      using pp_inv_registered [OF inv d(1)] by blast
    have dc: "d \<noteq> c" using dh d c by auto
    show ?thesis
    proof (cases "d = c'")
      case True
      then have "?i \<noteq> ?n" using dc same by simp
      then have "?i < ?n" using i by simp
      then have "pollfds p' ! ?i = pollfds p ! ?n" using i n by (simp add: p' drop_entry_nth)
      moreover have "s' d = Some (set_index ch' (index ch))" "fd ch' = f"
        using True dc s' dh c' by auto
      ultimately show ?thesis using \<open>?i < ?n\<close> dh(3) i n by (simp add: p'(1))
    next
      case False
      then have "f \<noteq> fd ch'" using d c' by auto
      then have "nat (index dh) \<noteq> ?n" "nat (index dh) \<noteq> ?i" using dh n i d by auto
      then have "nat (index dh) < ?n" "pollfds p' ! nat (index dh) = pollfds p ! nat (index dh)"
        using dh(5) i(2) by (auto simp: p' drop_entry_nth)
      with False dh show ?thesis by (simp add: s' p'(1))
    qed
  qed
  moreover have "\<exists>f d dh. pp_channels p' f = Some d \<and> s' d = Some dh \<and> index dh = int j"
    if j: "j < length (pollfds p')" for j
  proof (cases "j = ?i")
    case True
    then have "?i \<noteq> ?n" using j by (simp add: p')
    then have "c' \<noteq> c" "fd ch' \<noteq> fd ch" using same c c' by auto
    then have "pp_channels p' (fd ch') = Some c' \<and> s' c' = Some (set_index ch' (index ch)) \<and>
        index (set_index ch' (index ch)) = int j"
      using True c' i by (simp add: p' s')
    then show ?thesis by blast
  next
    case False
    have jl: "j < length (pollfds p)" "j \<noteq> ?n" using j by (auto simp: p')
    obtain d dh where d: "pp_channels p (entry_fd (pollfds p ! j)) = Some d" "s d = Some dh"
        "fd dh = entry_fd (pollfds p ! j)" "index dh = int j"
      using pp_inv_entry [OF inv jl(1)] by blast
    have "nat (index dh) = j" using d by simp
    then have "d \<noteq> c" "d \<noteq> c'" using d(2) c c' False jl by auto
    moreover have "fd dh \<noteq> fd ch" using d c \<open>d \<noteq> c\<close> by auto
    ultimately have "pp_channels p' (fd dh) = Some d \<and> s' d = Some dh \<and> index dh = int j"
      using d by (simp add: p' s')
    then show ?thesis by blast
  qed
  ultimately show ?thesis by (simp add: pp_inv_def)
qed

lemma Poll_removeChannel_ok:
  assumes inv: "pp_inv (p, s)" and c: "s c = Some ch" and reg: "pp_channels p (fd ch) = Some c"
    and none: "events ch = kNoneEvent" and can: "pp_can_remove (p, s) c"
  shows "\<exists>p' s'. Poll_removeChannel c (p, s) = Some (p', s') \<and> pp_inv (p', s') \<and> same_but_index s s' \<and>
    pp_channels p' = (pp_channels p)(fd ch := None) \<and> pp_watch p' = (pp_watch p)(fd ch := kNoneEvent)"
proof -
  let ?i = "nat (index ch)" and ?n = "length (pollfds p) - 1"
  let ?p = "p\<lparr>pollfds := drop_entry ?i (pollfds p), pp_channels := (pp_channels p)(fd ch := None)\<rparr>"
  have i: "0 \<le> index ch" "?i < length (pollfds p)" "entry_fd (pollfds p ! ?i) = fd ch" "0 \<le> fd ch"
    using pp_inv_registered [OF inv reg] c by auto
  have pre: "pfd_fd (pollfds p ! ?i) = - fd ch - 1" "ucast (pfd_events (pollfds p ! ?i)) = events ch"
    using can c by (simp_all add: pp_can_remove_def)
  have ne: "pollfds p \<noteq> []" "?n < length (pollfds p)" using i by auto
  obtain c' ch' where c': "pp_channels p (fd ch') = Some c'" "s c' = Some ch'"
      "fd ch' = entry_fd (pollfds p ! ?n)" "nat (index ch') = ?n"
    using pp_inv_entry [OF inv ne(2)] by (metis nat_int)
  let ?s = "if c' = c then s else s(c' \<mapsto> set_index ch' (index ch))"
  have same: "?i = ?n \<Longrightarrow> c' = c" "c' = c \<Longrightarrow> ?i = ?n" using i c' c reg by auto
  have inv': "pp_inv (?p, ?s)"
    by (rule pp_inv_drop [OF inv c reg c'(2,1,4)]) auto
  have set: "set (pollfds p) = insert (pollfds p ! ?i) (set (pollfds ?p))"
    using set_drop_entry [OF i(2)] by simp
  have "pp_watch ?p f = pp_watch p f" if "0 \<le> f" for f
    using that set pre(1) i(4) by (intro pp_watch_cong [OF inv inv']) auto
  moreover have "pp_watch p (fd ch) = kNoneEvent"
  proof (rule pp_watch_miss)
    fix e assume "e \<in> set (pollfds p)"
    then obtain j where j: "j < length (pollfds p)" "e = pollfds p ! j" by (auto simp: in_set_conv_nth)
    show "pfd_fd e \<noteq> fd ch"
      using pp_inv_unique [OF inv j(1) i(2)] i j pre by (auto simp: entry_fd_def)
  qed
  ultimately have w: "pp_watch ?p = (pp_watch p)(fd ch := kNoneEvent)"
    by (auto simp: pp_watch_def fun_eq_iff)
  have other: "fd ch' \<noteq> fd ch" if "c' \<noteq> c" using that c' reg by auto
  have "Poll_removeChannel c (p, s) = Some (?p, ?s)"
  proof (cases "?i = ?n")
    case True
    with c reg none i pre same(1) show ?thesis
      by (simp add: Poll_removeChannel_def isNoneEvent_def drop_entry_def)
  next
    case False
    then have "c' \<noteq> c" using same(2) by blast
    moreover have "(if pfd_fd (last (pollfds p)) < 0 then - pfd_fd (last (pollfds p)) - 1 else pfd_fd (last (pollfds p))) = fd ch'"
      using c'(3) ne by (simp add: last_conv_nth entry_fd_def)
    moreover have "butlast ((pollfds p)[?i := last (pollfds p), ?n := pollfds p ! ?i]) = drop_entry ?i (pollfds p)"
      using False by (simp add: drop_entry_def butlast_list_update)
    ultimately show ?thesis
      using c reg none i pre False other c'(1,2)
      by (simp add: Poll_removeChannel_def isNoneEvent_def Let_def)
  qed
  moreover have "same_but_index s ?s" using c'(2) by (simp add: same_but_index_set)
  ultimately show ?thesis using inv' w by auto
qed

lemma Poll_updateChannel_ok:
  assumes inv: "pp_inv (p, s)" and c: "s c = Some ch" "0 \<le> fd ch" "valid_events (events ch)"
    and own: "pp_channels p (fd ch) = None \<or> pp_channels p (fd ch) = Some c" and can: "pp_can_update (p, s) c"
  shows "\<exists>p' s'. Poll_updateChannel c (p, s) = Some (p', s') \<and> pp_inv (p', s') \<and> same_but_index s s' \<and>
    pp_channels p' = (pp_channels p)(fd ch \<mapsto> c) \<and> pp_watch p' = (pp_watch p)(fd ch := events ch)"
  using own
proof
  assume "pp_channels p (fd ch) = None"
  then show ?thesis using can c by (intro pp_update_new [OF inv c]) (auto simp: pp_can_update_def)
next
  assume "pp_channels p (fd ch) = Some c"
  then show ?thesis using can c by (intro pp_update_existing [OF inv c]) (auto simp: pp_can_update_def)
qed

lemma pp_inv_set_events:
  assumes inv: "pp_inv (p, s)" and c: "s c = Some ch"
  shows "pp_inv (p, s(c \<mapsto> apply_change x ch))"
proof -
  let ?s = "s(c \<mapsto> apply_change x ch)"
  have "\<exists>dh. ?s d = Some dh \<and> fd dh = f \<and> 0 \<le> f \<and> 0 \<le> index dh \<and> nat (index dh) < length (pollfds p) \<and>
      entry_fd (pollfds p ! nat (index dh)) = f" if "pp_channels p f = Some d" for f d
    using pp_inv_registered [OF inv that] c by (cases "d = c") auto
  moreover have "\<exists>f d dh. pp_channels p f = Some d \<and> ?s d = Some dh \<and> index dh = int i"
    if i: "i < length (pollfds p)" for i
  proof -
    obtain d dh where "pp_channels p (entry_fd (pollfds p ! i)) = Some d" "s d = Some dh" "index dh = int i"
      using pp_inv_entry [OF inv i] by blast
    then have "pp_channels p (entry_fd (pollfds p ! i)) = Some d \<and> ?s d = Some (if d = c then apply_change x ch else dh) \<and>
        index (if d = c then apply_change x ch else dh) = int i"
      using c by auto
    then show ?thesis by blast
  qed
  ultimately show ?thesis by (simp add: pp_inv_def)
qed

interpretation poll: event_poller Poll_updateChannel Poll_removeChannel pp_watch pp_channels pp_inv
  pp_can_update pp_can_remove
proof unfold_locales
  fix p and s :: "'a store" and f c ch x
  show "pp_inv (p, s) \<Longrightarrow> pp_channels p f = Some c \<Longrightarrow> \<exists>ch. s c = Some ch \<and> fd ch = f"
    using pp_inv_registered by blast
  show "pp_inv (p, s) \<Longrightarrow> s c = Some ch \<Longrightarrow> pp_inv (p, s(c \<mapsto> apply_change x ch))"
    by (rule pp_inv_set_events)
  show "pp_inv (p, s) \<Longrightarrow> s c = Some ch \<Longrightarrow> pp_channels p (fd ch) \<noteq> Some c \<or> events ch \<noteq> kNoneEvent \<Longrightarrow>
      Poll_removeChannel c (p, s) = None"
    by (auto simp: Poll_removeChannel_def isNoneEvent_def)
qed (simp_all add: Poll_updateChannel_ok Poll_removeChannel_ok)

section \<open>Properties of the pollers\<close>

text \<open>A store of new channels on distinct descriptors.\<close>

definition fresh_store :: "'c store \<Rightarrow> bool" where
  "fresh_store s \<longleftrightarrow> (\<forall>c ch. s c = Some ch \<longrightarrow> ch = Channel_new (ownerLoop ch) (fd ch) \<and> 0 \<le> fd ch) \<and>
     (\<forall>c d ch dh. s c = Some ch \<longrightarrow> s d = Some dh \<longrightarrow> fd ch = fd dh \<longrightarrow> c = d)"

lemma Channel_new_sel [simp]:
  "events (Channel_new l f) = kNoneEvent" "index (Channel_new l f) = kNew" "fd (Channel_new l f) = f"
  "ownerLoop (Channel_new l f) = l"
  by (simp_all add: Channel_new_def kNoneEvent_def kNew_def)

lemma fresh_store_new: "fresh_store s \<Longrightarrow> s c = Some ch \<Longrightarrow> events ch = kNoneEvent \<and> index ch = kNew"
  unfolding fresh_store_def by (metis Channel_new_sel(1,2))

lemma fresh_ok: "fresh_store s \<Longrightarrow> epoll.ok (EPollPoller_new, s)"
proof -
  assume f: "fresh_store s"
  have "ep_inv (EPollPoller_new, s)" "in_sync ep_watch ep_channels (EPollPoller_new, s)"
    using fresh_store_new [OF f] by (auto simp: ep_inv_def EPollPoller_new_def in_sync_def ep_watch_def)
  moreover have "good_store s"
    using f fresh_store_new [OF f] by (simp add: good_store_def fresh_store_def)
  ultimately show ?thesis by (simp add: epoll.ok_def)
qed

text \<open>Client runs from a new poller.\<close>

definition EPoll_run :: "chan_op list \<Rightarrow> 'c store \<Rightarrow> 'c epoll_state option" where
  "EPoll_run ops s = chan_run EPoll_updateChannel EPoll_removeChannel ops (EPollPoller_new, s)"

definition Poll_run :: "chan_op list \<Rightarrow> 'c store \<Rightarrow> 'c poll_state option" where
  "Poll_run ops s = chan_run Poll_updateChannel Poll_removeChannel ops (PollPoller_new, s)"

text \<open>
  C5. The epoll poller implements the channel interface: from a fresh poller, any sequence of
  \<^verbatim>\<open>enableReading\<close>, \<^verbatim>\<open>enableWriting\<close>, \<^verbatim>\<open>disableWriting\<close>, \<^verbatim>\<open>disableAll\<close> and \<^verbatim>\<open>remove\<close> on the channels
  of a loop fails an assertion or a system call exactly when the specification refuses it (removing
  a channel that has events or is not registered), it leaves each channel with the mask and the
  registration the specification gives, and the kernel then watches exactly the masks of the
  registered channels.
\<close>

theorem EPollPoller_refines_interest:
  assumes fresh: "fresh_store s"
  shows "map_option (abs_interest ep_channels) (EPoll_run ops s) =
      spec_run ops (\<lambda>c. map_option (\<lambda>ch. (kNoneEvent, False)) (s c)) \<and>
    (\<forall>ps'. EPoll_run ops s = Some ps' \<longrightarrow> in_sync ep_watch ep_channels ps')"
proof -
  have "abs_interest ep_channels (EPollPoller_new, s) c = map_option (\<lambda>ch. (kNoneEvent, False)) (s c)" for c
    using fresh_store_new [OF fresh, of c] by (cases "s c") (simp_all add: abs_interest_def EPollPoller_new_def)
  then have "abs_interest ep_channels (EPollPoller_new, s) = (\<lambda>c. map_option (\<lambda>ch. (kNoneEvent, False)) (s c))" ..
  moreover have "in_sync ep_watch ep_channels ps'" if "EPoll_run ops s = Some ps'" for ps'
    using epoll.run_ok [OF fresh_ok [OF fresh], of ops ps'] that by (simp add: epoll.ok_def EPoll_run_def)
  ultimately show ?thesis
    using epoll.run_refines [OF fresh_ok [OF fresh], of ops] by (simp add: EPoll_run_def)
qed

definition two_channels :: "unit store" where
  "two_channels = [0 \<mapsto> Channel_new 0 5, 1 \<mapsto> Channel_new 0 6]"

lemma fresh_two_channels: "fresh_store two_channels"
  by (auto simp: fresh_store_def two_channels_def split: if_splits)

lemmas interest_simps = EPoll_updateChannel_def EPoll_removeChannel_def EPoll_update_def epoll_ctl_def
  Poll_updateChannel_def Poll_removeChannel_def

theorem EPollPoller_refines_interest_witness:
  "spec_run [Change EnableReading 0, Change EnableWriting 1, Change DisableAll 0, Remove 0]
     (\<lambda>c. map_option (\<lambda>ch. (kNoneEvent, False)) (two_channels c)) \<noteq> None \<and>
   (\<exists>ps'. EPoll_run [Change EnableReading 0, Change EnableWriting 1, Change DisableAll 0, Remove 0] two_channels = Some ps' \<and> in_sync ep_watch ep_channels ps')"
proof -
  let ?ops = "[Change EnableReading 0, Change EnableWriting 1, Change DisableAll 0, Remove 0]"
  have "spec_run ?ops (\<lambda>c. map_option (\<lambda>ch. (kNoneEvent, False)) (two_channels c)) \<noteq> None"
    by (simp add: two_channels_def)
  with EPollPoller_refines_interest [OF fresh_two_channels, of ?ops] show ?thesis
    by (cases "EPoll_run ?ops two_channels") auto
qed

text \<open>What the kernel can report: events on descriptors of the interest list, each at most once.\<close>

definition reported :: "epoll_poller \<Rightarrow> (32 word \<times> nat) list \<Rightarrow> bool" where
  "reported p evs \<longleftrightarrow> length evs \<le> ep_event_list_size p \<and> distinct (map snd evs) \<and>
     (\<forall>(ev, c) \<in> set evs. \<exists>f e. ep_interest p f = Some (e, c))"

lemma ep_inv_revents:
  assumes inv: "ep_inv (p, s)" and c: "s c = Some ch"
  shows "ep_inv (p, s(c \<mapsto> set_revents ch r))"
proof -
  let ?s = "s(c \<mapsto> set_revents ch r)"
  have "\<exists>dh. ?s d = Some dh \<and> fd dh = f \<and> (index dh = kAdded \<or> index dh = kDeleted)"
    if "ep_channels p f = Some d" for f d
    using ep_inv_registered [OF inv that] c by (cases "d = c") (auto simp: set_revents_def)
  moreover have "index dh = kNew \<or> ep_channels p (fd dh) = Some d" if "?s d = Some dh" for d dh
    using that ep_inv_new [OF inv, of d] c by (cases "d = c") (auto simp: set_revents_def)
  moreover have "(\<exists>d dh. ep_channels p f = Some d \<and> ?s d = Some dh \<and> index dh = kAdded) \<longleftrightarrow>
      (\<exists>d dh. ep_channels p f = Some d \<and> s d = Some dh \<and> index dh = kAdded)" for f
    using c by (cases "ep_channels p f"; cases "ep_channels p f = Some c") (auto simp: set_revents_def)
  ultimately show ?thesis
    using ep_inv_interest [OF inv] ep_inv_pointer [OF inv] by (simp add: ep_inv_def)
qed

lemma EPoll_fillActiveChannels_ok:
  assumes "ep_inv (p, s)" "distinct (map snd evs)" "\<forall>(ev, c) \<in> set evs. \<exists>f e. ep_interest p f = Some (e, c)"
  shows "\<exists>s'. EPoll_fillActiveChannels p evs s = Some (s', map snd evs) \<and> ep_inv (p, s') \<and>
    (\<forall>(ev, c) \<in> set evs. \<exists>ch. s' c = Some ch \<and> revents ch = ev) \<and>
    (\<forall>c. c \<notin> snd ` set evs \<longrightarrow> s' c = s c)"
  using assms
proof (induction evs arbitrary: s)
  case (Cons x evs)
  obtain ev c where x: "x = (ev, c)" by fastforce
  then obtain f e where "ep_interest p f = Some (e, c)" using Cons.prems(3) by auto
  then have reg: "ep_channels p f = Some c" using ep_inv_pointer Cons.prems(1) by blast
  then obtain ch where ch: "s c = Some ch" "fd ch = f"
    using ep_inv_registered [OF Cons.prems(1)] by blast
  let ?s = "s(c \<mapsto> set_revents ch ev)"
  have "\<exists>s'. EPoll_fillActiveChannels p evs ?s = Some (s', map snd evs) \<and> ep_inv (p, s') \<and>
      (\<forall>(ev, c) \<in> set evs. \<exists>ch. s' c = Some ch \<and> revents ch = ev) \<and> (\<forall>c. c \<notin> snd ` set evs \<longrightarrow> s' c = ?s c)"
    by (rule Cons.IH [OF ep_inv_revents [where r = ev, OF Cons.prems(1) ch(1)]]) (use Cons.prems in auto)
  then obtain s' where s': "EPoll_fillActiveChannels p evs ?s = Some (s', map snd evs)" "ep_inv (p, s')"
      "\<forall>(ev, c) \<in> set evs. \<exists>ch. s' c = Some ch \<and> revents ch = ev" "\<forall>c. c \<notin> snd ` set evs \<longrightarrow> s' c = ?s c"
    by blast
  have "c \<notin> snd ` set evs" using Cons.prems(2) x by auto
  then have "s' c = Some (set_revents ch ev)" using s'(4) by simp
  moreover have "EPoll_fillActiveChannels p (x # evs) s = Some (s', map snd (x # evs))"
    using s'(1) ch reg x by simp
  ultimately show ?case
    using s'(2-4) x by (auto simp: set_revents_def)
qed simp

text \<open>
  C31. A wait of the epoll poller: if the kernel reports at most as many events as the list holds
  and only on descriptors of its interest list, with the pointers it was given, no assertion of
  \<^verbatim>\<open>fillActiveChannels\<close> fails, the active channels are exactly the reported ones in the reported
  order, every reported channel sees its events, the poller's bookkeeping is unchanged, and the
  event list is never left full.
\<close>

theorem EPoll_poll_reports:
  assumes "ep_inv (p, s)" "0 < ep_event_list_size p" "reported p evs"
  shows "\<exists>p' s'. EPoll_poll (Some evs) (p, s) = Some ((p', s'), map snd evs) \<and> ep_inv (p', s') \<and>
    ep_interest p' = ep_interest p \<and> length evs < ep_event_list_size p' \<and>
    (\<forall>(ev, c) \<in> set evs. \<exists>ch. s' c = Some ch \<and> revents ch = ev) \<and>
    (\<forall>c. c \<notin> snd ` set evs \<longrightarrow> s' c = s c)"
proof (cases evs)
  case Nil
  with assms show ?thesis by (simp add: EPoll_poll_def)
next
  case (Cons x xs)
  obtain s' where s': "EPoll_fillActiveChannels p evs s = Some (s', map snd evs)" "ep_inv (p, s')"
      "\<forall>(ev, c) \<in> set evs. \<exists>ch. s' c = Some ch \<and> revents ch = ev" "\<forall>c. c \<notin> snd ` set evs \<longrightarrow> s' c = s c"
    using EPoll_fillActiveChannels_ok [OF assms(1), of evs] assms(3) by (auto simp: reported_def)
  let ?p = "if length evs = ep_event_list_size p then p\<lparr>ep_event_list_size := ep_event_list_size p * 2\<rparr> else p"
  have "EPoll_poll (Some evs) (p, s) = Some ((?p, s'), map snd evs)"
    using s'(1) assms(3) Cons by (simp add: EPoll_poll_def reported_def Let_def)
  moreover have "ep_inv (?p, s')" "ep_interest ?p = ep_interest p" "length evs < ep_event_list_size ?p"
    using s'(2) assms(2,3) by (auto simp: ep_inv_def reported_def)
  ultimately show ?thesis using s'(3,4) by blast
qed

lemma EPoll_run_ok: "fresh_store s \<Longrightarrow> EPoll_run ops s = Some ps \<Longrightarrow> ep_inv ps"
  using epoll.run_ok [OF fresh_ok, of s ops ps] by (simp add: EPoll_run_def epoll.ok_def)

theorem EPoll_poll_reports_witness:
  "\<exists>p s. EPoll_run [Change EnableReading 0, Change EnableWriting 1] two_channels = Some (p, s) \<and>
     reported p [(POLLOUT, 1), (POLLIN, 0)] \<and>
     (\<exists>p' s'. EPoll_poll (Some [(POLLOUT, 1), (POLLIN, 0)]) (p, s) = Some ((p', s'), [1, 0]) \<and> ep_inv (p', s'))"
proof -
  obtain p s where ps: "EPoll_run [Change EnableReading 0, Change EnableWriting 1] two_channels = Some (p, s)"
    "ep_interest p 5 = Some (kReadEvent, 0)" "ep_interest p 6 = Some (kWriteEvent, 1)"
    "ep_event_list_size p = 16"
    by (simp add: EPoll_run_def interest_simps two_channels_def EPollPoller_new_def kInitEventListSize_def kNoneEvent_def)
  have inv: "ep_inv (p, s)" using EPoll_run_ok [OF fresh_two_channels ps(1)] .
  have rep: "reported p [(POLLOUT, 1), (POLLIN, 0)]" using ps by (auto simp: reported_def)
  then show ?thesis using EPoll_poll_reports [OF inv _ rep] ps by auto
qed

text \<open>
  The poll poller never undoes \<^verbatim>\<open>disableAll\<close>: once a channel has been muted, the negated
  descriptor stays in the array, so enabling the channel again leaves it unwatched, while the epoll
  poller watches it.
\<close>

theorem PollPoller_reenable_unwatched:
  "\<exists>p s ep es ch. Poll_run [Change EnableReading c, Change DisableAll c, Change EnableReading c]
       [c \<mapsto> Channel_new l (int f)] = Some (p, s) \<and>
     EPoll_run [Change EnableReading c, Change DisableAll c, Change EnableReading c]
       [c \<mapsto> Channel_new l (int f)] = Some (ep, es) \<and>
     s c = Some ch \<and> events ch = kReadEvent \<and> pp_channels p (int f) = Some c \<and>
     pp_watch p (int f) = kNoneEvent \<and> ep_watch ep (int f) = kReadEvent"
proof -
  have neg: "- int f - 1 \<noteq> int f" by linarith
  show ?thesis
    using neg by (simp add: Poll_run_def EPoll_run_def interest_simps PollPoller_new_def EPollPoller_new_def
      isNoneEvent_def Let_def kNew_def kAdded_def kDeleted_def set_index_def pp_watch_def ep_watch_def
      event_bits Channel_new_def)
qed

text \<open>
  Under the poll poller, disabling and removing a channel that was never enabled ends in a
  failed assertion (the entry added for it carries the positive descriptor); the epoll poller
  accepts it.
\<close>

theorem PollPoller_remove_never_enabled_fails:
  "Poll_run [Change DisableAll c, Remove c] [c \<mapsto> Channel_new l (int f)] = None \<and>
   EPoll_run [Change DisableAll c, Remove c] [c \<mapsto> Channel_new l (int f)] \<noteq> None"
proof -
  have neg: "int f \<noteq> - int f - 1" by linarith
  show ?thesis
    using neg by (simp add: Poll_run_def EPoll_run_def interest_simps PollPoller_new_def EPollPoller_new_def
      isNoneEvent_def Let_def kNew_def kAdded_def kDeleted_def set_index_def
      event_bits Channel_new_def)
qed

text \<open>
  C35. The poll poller breaks the contract in two ways. It never undoes \<^verbatim>\<open>disableAll\<close>: a channel that was muted
  and is enabled again is registered with its events, but unwatched. And disabling and removing a channel that
  was never enabled fails an assertion. The epoll poller watches the first channel and accepts the second.
\<close>

theorem PollPoller_deviates:
  "(\<exists>p s ep es ch. Poll_run [Change EnableReading c, Change DisableAll c, Change EnableReading c]
       [c \<mapsto> Channel_new l (int f)] = Some (p, s) \<and>
     EPoll_run [Change EnableReading c, Change DisableAll c, Change EnableReading c]
       [c \<mapsto> Channel_new l (int f)] = Some (ep, es) \<and>
     s c = Some ch \<and> events ch = kReadEvent \<and> pp_channels p (int f) = Some c \<and>
     pp_watch p (int f) = kNoneEvent \<and> ep_watch ep (int f) = kReadEvent) \<and>
   Poll_run [Change DisableAll c, Remove c] [c \<mapsto> Channel_new l (int f)] = None \<and>
   EPoll_run [Change DisableAll c, Remove c] [c \<mapsto> Channel_new l (int f)] \<noteq> None"
  by (rule conjI [OF PollPoller_reenable_unwatched PollPoller_remove_never_enabled_fails])

end
