(* ===== verification/Base_Time.thy ===== *)
theory Base_Time
  imports Complex_Main Muduo_Prelude
begin

text \<open>
  Time stamps (\<^verbatim>\<open>muduo/base/Timestamp.h\<close>, \<^verbatim>\<open>Timestamp.cc\<close>): microseconds since the epoch. The
  counter is an \<^verbatim>\<open>int64_t\<close>; it is an \<open>int\<close> here, because times around the present are five orders
  of magnitude below its range and signed overflow is undefined in C++. A \<^verbatim>\<open>double\<close> number of seconds
  is the rational number it denotes; the rounding of the one multiplication in \<^verbatim>\<open>addTime\<close> is not
  modelled. C++ division and remainder truncate, unlike \<open>div\<close> and \<open>mod\<close>.
\<close>

type_synonym timestamp = int

definition kMicroSecondsPerSecond :: int where
  "kMicroSecondsPerSecond = 1000 * 1000"

definition Timestamp_invalid :: timestamp where
  "Timestamp_invalid = 0"

definition valid_time :: "timestamp \<Rightarrow> bool" where
  "valid_time t \<longleftrightarrow> t > 0"

text \<open>C++ integer division and remainder.\<close>

definition cdiv :: "int \<Rightarrow> int \<Rightarrow> int" where
  "cdiv a b = sgn a * sgn b * (\<bar>a\<bar> div \<bar>b\<bar>)"

definition cmod :: "int \<Rightarrow> int \<Rightarrow> int" where
  "cmod a b = a - b * cdiv a b"

definition secondsSinceEpoch :: "timestamp \<Rightarrow> int" where
  "secondsSinceEpoch t = cdiv t kMicroSecondsPerSecond"

definition timeDifference :: "timestamp \<Rightarrow> timestamp \<Rightarrow> rat" where
  "timeDifference high low = of_int (high - low) / of_int kMicroSecondsPerSecond"

text \<open>The cast of a \<^verbatim>\<open>double\<close> to an integer type drops the fraction.\<close>

definition trunc_cast :: "rat \<Rightarrow> int" where
  "trunc_cast r = (if r < 0 then \<lceil>r\<rceil> else \<lfloor>r\<rfloor>)"

definition addTime :: "timestamp \<Rightarrow> rat \<Rightarrow> timestamp" where
  "addTime t seconds = t + trunc_cast (seconds * of_int kMicroSecondsPerSecond)"

text \<open>\<^verbatim>\<open>now\<close>, from the \<^verbatim>\<open>timeval\<close> that \<^verbatim>\<open>gettimeofday\<close> filled in.\<close>

definition Timestamp_now :: "int \<Rightarrow> int \<Rightarrow> timestamp" where
  "Timestamp_now tv_sec tv_usec = tv_sec * kMicroSecondsPerSecond + tv_usec"

definition Timestamp_toString :: "timestamp \<Rightarrow> string" where
  "Timestamp_toString t =
     (let seconds = cdiv t kMicroSecondsPerSecond;
          microseconds = cmod t kMicroSecondsPerSecond
      in snprintf (32 - 1) (print_int seconds @ ''.'' @ print_int0 6 microseconds))"

lemma cdiv_nonneg: "0 \<le> a \<Longrightarrow> 0 < b \<Longrightarrow> cdiv a b = a div b"
  by (cases "a = 0") (simp_all add: cdiv_def)

lemma cmod_nonneg: "0 \<le> a \<Longrightarrow> 0 < b \<Longrightarrow> cmod a b = a mod b"
  by (simp add: cmod_def cdiv_nonneg minus_mult_div_eq_mod)

lemma addTime_ge: "0 \<le> seconds \<Longrightarrow> t \<le> addTime t seconds"
  by (simp add: addTime_def trunc_cast_def kMicroSecondsPerSecond_def not_less)

text \<open>Adding the difference of two times gets from one to the other.\<close>

lemma addTime_timeDifference: "addTime low (timeDifference high low) = high"
proof -
  have "timeDifference high low * of_int kMicroSecondsPerSecond = of_int (high - low)"
    by (simp add: timeDifference_def kMicroSecondsPerSecond_def)
  then show ?thesis by (simp only: addTime_def trunc_cast_def ceiling_of_int floor_of_int) simp
qed

end
