(* ===== verification/Net_Timer.thy ===== *)
theory Net_Timer
  imports Base_Time "HOL-Library.Product_Lexorder"
begin

text \<open>
  Timers (\<^verbatim>\<open>muduo/net/Timer.h\<close>, \<^verbatim>\<open>Timer.cc\<close>, \<^verbatim>\<open>TimerId.h\<close>, \<^verbatim>\<open>TimerQueue.h\<close>, \<^verbatim>\<open>TimerQueue.cc\<close>). \<^verbatim>\<open>Timer\<close> objects
  live in a heap, a map from addresses to \<open>timer\<close> records: \<^verbatim>\<open>new\<close> takes an address from the
  allocator \<open>malloc\<close>, a parameter that may hand out a deleted timer's address again, \<^verbatim>\<open>delete\<close>
  removes the entry, and using a deleted timer is a failure (\<open>None\<close>), like a failed assertion. The
  set \<^verbatim>\<open>timers_\<close> is its sorted list of entries, ordered by time and then by address. The alarm of the
  timerfd is the time it is due at; the wall clock and \<^verbatim>\<open>CLOCK_MONOTONIC\<close> are one clock, read where the
  code reads it. What a callback does with its queue is the parameter \<open>script\<close>, a list of calls of
  \<^verbatim>\<open>addTimer\<close> and \<^verbatim>\<open>cancel\<close> that may depend on the queue.
\<close>

section \<open>Timers\<close>

record 'k timer =
  callback :: 'k
  expiration :: timestamp
  interval :: rat
  repeats :: bool
  sequence :: int

type_synonym timer_entry = "timestamp \<times> nat"
type_synonym timer_id = "nat \<times> int"

definition Timer_new :: "'k \<Rightarrow> timestamp \<Rightarrow> rat \<Rightarrow> int \<Rightarrow> 'k timer" where
  "Timer_new cb when itv seq = \<lparr>callback = cb, expiration = when, interval = itv,
     repeats = (itv > 0), sequence = seq\<rparr>"

definition restart :: "timestamp \<Rightarrow> 'k timer \<Rightarrow> 'k timer" where
  "restart now tm =
     (if repeats tm then tm\<lparr>expiration := addTime now (interval tm)\<rparr>
      else tm\<lparr>expiration := Timestamp_invalid\<rparr>)"

section \<open>The queue\<close>

record 'k timer_queue =
  heap :: "nat \<rightharpoonup> 'k timer"
  numCreated :: int
  timers :: "timer_entry list"
  activeTimers :: "timer_id set"
  callingExpiredTimers :: bool
  cancelingTimers :: "timer_id set"
  alarm :: "timestamp option"

definition TimerQueue_new :: "'k timer_queue" where
  "TimerQueue_new = \<lparr>heap = Map.empty, numCreated = 0, timers = [], activeTimers = {},
     callingExpiredTimers = False, cancelingTimers = {}, alarm = None\<rparr>"

text \<open>\<^verbatim>\<open>howMuchTimeFromNow\<close>: seconds and nanoseconds until a time, at least 100 microseconds.\<close>

definition howMuchTimeFromNow :: "timestamp \<Rightarrow> timestamp \<Rightarrow> int \<times> int" where
  "howMuchTimeFromNow now when =
     (let microseconds = (if when - now < 100 then 100 else when - now)
      in (cdiv microseconds kMicroSecondsPerSecond,
          cmod microseconds kMicroSecondsPerSecond * 1000))"

text \<open>\<^verbatim>\<open>timerfd_settime\<close> with a relative time and no interval: the alarm is due once.\<close>

definition resetTimerfd :: "timestamp \<Rightarrow> timestamp \<Rightarrow> 'k timer_queue \<Rightarrow> 'k timer_queue" where
  "resetTimerfd now when q =
     (let (tv_sec, tv_nsec) = howMuchTimeFromNow now when
      in q\<lparr>alarm := Some (now + tv_sec * kMicroSecondsPerSecond + tv_nsec div 1000)\<rparr>)"

text \<open>\<^verbatim>\<open>readTimerfd\<close>: the expiration is consumed.\<close>

definition readTimerfd :: "'k timer_queue \<Rightarrow> 'k timer_queue" where
  "readTimerfd q = q\<lparr>alarm := None\<rparr>"

definition sizes_agree :: "'k timer_queue \<Rightarrow> bool" where
  "sizes_agree q \<longleftrightarrow> length (timers q) = card (activeTimers q)"

definition insert_timer :: "nat \<Rightarrow> 'k timer_queue \<Rightarrow> (bool \<times> 'k timer_queue) option" where
  "insert_timer p q =
     do {
       check (sizes_agree q);
       tm \<leftarrow> heap q p;
       let when = expiration tm;
       let earliestChanged = (case timers q of [] \<Rightarrow> True | it # _ \<Rightarrow> when < fst it);
       check ((when, p) \<notin> set (timers q));
       let q1 = q\<lparr>timers := insort (when, p) (timers q)\<rparr>;
       check ((p, sequence tm) \<notin> activeTimers q1);
       let q2 = q1\<lparr>activeTimers := insert (p, sequence tm) (activeTimers q1)\<rparr>;
       check (sizes_agree q2);
       Some (earliestChanged, q2)
     }"

definition addTimerInLoop :: "timestamp \<Rightarrow> nat \<Rightarrow> 'k timer_queue \<Rightarrow> 'k timer_queue option" where
  "addTimerInLoop now p q =
     do {
       (earliestChanged, q1) \<leftarrow> insert_timer p q;
       tm \<leftarrow> heap q1 p;
       Some (if earliestChanged then resetTimerfd now (expiration tm) q1 else q1)
     }"

definition cancelInLoop :: "timer_id \<Rightarrow> 'k timer_queue \<Rightarrow> 'k timer_queue option" where
  "cancelInLoop timerId q =
     do {
       check (sizes_agree q);
       q1 \<leftarrow> (if timerId \<in> activeTimers q
              then do {
                tm \<leftarrow> heap q (fst timerId);
                check ((expiration tm, fst timerId) \<in> set (timers q));
                Some (q\<lparr>timers := remove1 (expiration tm, fst timerId) (timers q),
                        heap := (heap q)(fst timerId := None),
                        activeTimers := activeTimers q - {timerId}\<rparr>)
              }
              else if callingExpiredTimers q
              then Some (q\<lparr>cancelingTimers := insert timerId (cancelingTimers q)\<rparr>)
              else Some q);
       check (sizes_agree q1);
       Some q1
     }"

text \<open>
  \<^verbatim>\<open>addTimer\<close>: the part that runs in the caller's thread, which returns the \<^verbatim>\<open>TimerId\<close>; the rest goes
  through \<^verbatim>\<open>runInLoop\<close>, at once when the caller is the loop's thread.
\<close>

definition addTimer_create :: "((nat \<rightharpoonup> 'k timer) \<Rightarrow> nat) \<Rightarrow> 'k \<Rightarrow> timestamp \<Rightarrow> rat \<Rightarrow> 'k timer_queue \<Rightarrow>
    timer_id \<times> 'k timer_queue" where
  "addTimer_create malloc cb when itv q =
     (let p = malloc (heap q); seq = numCreated q + 1
      in ((p, seq), q\<lparr>heap := (heap q)(p \<mapsto> Timer_new cb when itv seq), numCreated := seq\<rparr>))"

definition addTimer :: "((nat \<rightharpoonup> 'k timer) \<Rightarrow> nat) \<Rightarrow> timestamp \<Rightarrow> 'k \<Rightarrow> timestamp \<Rightarrow> rat \<Rightarrow> 'k timer_queue \<Rightarrow>
    (timer_id \<times> 'k timer_queue) option" where
  "addTimer malloc now cb when itv q =
     do {
       let (tid, q1) = addTimer_create malloc cb when itv q;
       q2 \<leftarrow> addTimerInLoop now (fst tid) q1;
       Some (tid, q2)
     }"

text \<open>
  The order of an entry relative to the sentry \<^verbatim>\<open>(now, UINTPTR_MAX)\<close>: memory is not bounded here, and
  the sentry's pointer, which is no object's address, comes after all of them.
\<close>

fun before_sentry :: "timestamp \<Rightarrow> timer_entry \<Rightarrow> bool" where
  "before_sentry now (t, p) \<longleftrightarrow> t < now \<or> t = now"

fun eraseActive :: "timer_entry list \<Rightarrow> 'k timer_queue \<Rightarrow> 'k timer_queue option" where
  "eraseActive [] q = Some q"
| "eraseActive ((t, p) # es) q =
     do {
       tm \<leftarrow> heap q p;
       check ((p, sequence tm) \<in> activeTimers q);
       eraseActive es (q\<lparr>activeTimers := activeTimers q - {(p, sequence tm)}\<rparr>)
     }"

definition getExpired :: "timestamp \<Rightarrow> 'k timer_queue \<Rightarrow> (timer_entry list \<times> 'k timer_queue) option" where
  "getExpired now q =
     do {
       check (sizes_agree q);
       let expired = takeWhile (before_sentry now) (timers q);
       let rest = dropWhile (before_sentry now) (timers q);
       check (rest = [] \<or> now < fst (hd rest));
       q1 \<leftarrow> eraseActive expired (q\<lparr>timers := rest\<rparr>);
       check (sizes_agree q1);
       Some (expired, q1)
     }"

fun reset_loop :: "timestamp \<Rightarrow> timer_entry list \<Rightarrow> 'k timer_queue \<Rightarrow> 'k timer_queue option" where
  "reset_loop now [] q = Some q"
| "reset_loop now ((t, p) # es) q =
     do {
       tm \<leftarrow> heap q p;
       (if repeats tm \<and> (p, sequence tm) \<notin> cancelingTimers q
        then do {
          (_, q1) \<leftarrow> insert_timer p (q\<lparr>heap := (heap q)(p \<mapsto> restart now tm)\<rparr>);
          reset_loop now es q1
        }
        else reset_loop now es (q\<lparr>heap := (heap q)(p := None)\<rparr>))
     }"

text \<open>\<^verbatim>\<open>reset\<close>: \<open>now'\<close> is the clock when the timerfd is set again.\<close>

definition reset :: "timer_entry list \<Rightarrow> timestamp \<Rightarrow> timestamp \<Rightarrow> 'k timer_queue \<Rightarrow> 'k timer_queue option" where
  "reset expired now now' q =
     do {
       q1 \<leftarrow> reset_loop now expired q;
       nextExpire \<leftarrow> (case timers q1 of
           [] \<Rightarrow> Some Timestamp_invalid
         | (t, p) # _ \<Rightarrow> map_option expiration (heap q1 p));
       Some (if valid_time nextExpire then resetTimerfd now' nextExpire q1 else q1)
     }"

section \<open>Callbacks and the alarm handler\<close>

text \<open>What a callback does with its queue; \<open>AddTimer now \<dots>\<close> carries the clock at the call.\<close>

datatype 'k timer_action = AddTimer timestamp 'k timestamp rat | CancelTimer timer_id

fun run_actions :: "((nat \<rightharpoonup> 'k timer) \<Rightarrow> nat) \<Rightarrow> 'k timer_action list \<Rightarrow> 'k timer_queue \<Rightarrow> 'k timer_queue option" where
  "run_actions malloc [] q = Some q"
| "run_actions malloc (AddTimer now cb when itv # as) q =
     do { (tid, q1) \<leftarrow> addTimer malloc now cb when itv q; run_actions malloc as q1 }"
| "run_actions malloc (CancelTimer timerId # as) q =
     do { q1 \<leftarrow> cancelInLoop timerId q; run_actions malloc as q1 }"

text \<open>The loop over the expired timers; the result says which timers ran and what they did.\<close>

fun run_expired :: "((nat \<rightharpoonup> 'k timer) \<Rightarrow> nat) \<Rightarrow> ('k \<Rightarrow> 'k timer_queue \<Rightarrow> 'k timer_action list) \<Rightarrow>
    timer_entry list \<Rightarrow> 'k timer_queue \<Rightarrow> ((timer_id \<times> 'k timer_action list) list \<times> 'k timer_queue) option" where
  "run_expired malloc script [] q = Some ([], q)"
| "run_expired malloc script ((t, p) # es) q =
     do {
       tm \<leftarrow> heap q p;
       let as = script (callback tm) q;
       q1 \<leftarrow> run_actions malloc as q;
       (ran, q2) \<leftarrow> run_expired malloc script es q1;
       Some (((p, sequence tm), as) # ran, q2)
     }"

definition handleRead_timer :: "((nat \<rightharpoonup> 'k timer) \<Rightarrow> nat) \<Rightarrow> ('k \<Rightarrow> 'k timer_queue \<Rightarrow> 'k timer_action list) \<Rightarrow>
    timestamp \<Rightarrow> timestamp \<Rightarrow> 'k timer_queue \<Rightarrow>
    ((timer_id \<times> 'k timer_action list) list \<times> 'k timer_queue) option" where
  "handleRead_timer malloc script now now' q =
     do {
       (expired, q1) \<leftarrow> getExpired now (readTimerfd q);
       (ran, q2) \<leftarrow> run_expired malloc script expired (q1\<lparr>callingExpiredTimers := True, cancelingTimers := {}\<rparr>);
       q3 \<leftarrow> reset expired now now' (q2\<lparr>callingExpiredTimers := False\<rparr>);
       Some (ran, q3)
     }"

text \<open>The destructor deletes the timers of the set.\<close>

definition TimerQueue_delete :: "'k timer_queue \<Rightarrow> 'k timer_queue option" where
  "TimerQueue_delete q =
     (if \<forall>(t, p) \<in> set (timers q). heap q p \<noteq> None
      then Some (q\<lparr>heap := (heap q) |` (- snd ` set (timers q)), timers := []\<rparr>) else None)"

section \<open>A queue and its clients\<close>

text \<open>
  Calls from other threads run their second half as functors of the loop, in the order they were
  queued; calls from the loop's thread run it at once.
\<close>

datatype timer_functor = AddInLoop nat | CancelInLoop timer_id

datatype 'k timer_op = ClientAdd 'k timestamp rat | ClientCancel timer_id | RunFunctor timestamp
  | LoopAction "'k timer_action" | Alarm timestamp timestamp

type_synonym 'k timer_system = "'k timer_queue \<times> timer_functor list"
type_synonym 'k timer_trace = "(timer_id \<times> 'k timer_action list) list"

fun timer_step :: "((nat \<rightharpoonup> 'k timer) \<Rightarrow> nat) \<Rightarrow> ('k \<Rightarrow> 'k timer_queue \<Rightarrow> 'k timer_action list) \<Rightarrow>
    'k timer_op \<Rightarrow> 'k timer_system \<Rightarrow> ('k timer_trace \<times> 'k timer_system) option" where
  "timer_step malloc script (ClientAdd cb when itv) (q, fs) =
     (let (tid, q1) = addTimer_create malloc cb when itv q in Some ([], (q1, fs @ [AddInLoop (fst tid)])))"
| "timer_step malloc script (ClientCancel timerId) (q, fs) = Some ([], (q, fs @ [CancelInLoop timerId]))"
| "timer_step malloc script (RunFunctor now) (q, fs) =
     (case fs of
        [] \<Rightarrow> Some ([], (q, []))
      | AddInLoop p # rest \<Rightarrow> do { q1 \<leftarrow> addTimerInLoop now p q; Some ([], (q1, rest)) }
      | CancelInLoop timerId # rest \<Rightarrow> do { q1 \<leftarrow> cancelInLoop timerId q; Some ([], (q1, rest)) })"
| "timer_step malloc script (LoopAction a) (q, fs) =
     do { q1 \<leftarrow> run_actions malloc [a] q; Some ([], (q1, fs)) }"
| "timer_step malloc script (Alarm now now') (q, fs) =
     do { (ran, q1) \<leftarrow> handleRead_timer malloc script now now' q; Some (ran, (q1, fs)) }"

fun timer_run :: "((nat \<rightharpoonup> 'k timer) \<Rightarrow> nat) \<Rightarrow> ('k \<Rightarrow> 'k timer_queue \<Rightarrow> 'k timer_action list) \<Rightarrow>
    'k timer_op list \<Rightarrow> 'k timer_system \<Rightarrow> ('k timer_trace \<times> 'k timer_system) option" where
  "timer_run malloc script [] st = Some ([], st)"
| "timer_run malloc script (op # ops) st =
     do {
       (r1, st1) \<leftarrow> timer_step malloc script op st;
       (r2, st2) \<leftarrow> timer_run malloc script ops st1;
       Some (r1 @ r2, st2)
     }"

text \<open>What the library relies on of the allocator: it returns the address of no live timer.\<close>

definition allocator :: "((nat \<rightharpoonup> 'k timer) \<Rightarrow> nat) \<Rightarrow> bool" where
  "allocator malloc \<longleftrightarrow> (\<forall>h. finite (dom h) \<longrightarrow> h (malloc h) = None)"

end
