(* ===== verification/Net_TimerFacts.thy ===== *)
theory Net_TimerFacts
  imports Net_Timer
begin

text \<open>
  Facts about the timer queue: the invariant that ties \<^verbatim>\<open>timers_\<close>, \<^verbatim>\<open>activeTimers_\<close> and the live timers
  together, what every operation does under it, and the properties of a queue used by any clients.
\<close>

section \<open>The invariant\<close>

text \<open>
  \<^verbatim>\<open>timers_\<close> and \<^verbatim>\<open>activeTimers_\<close> hold the same timers, all of them alive, each under its own expiration.
\<close>

definition entry_id :: "'k timer_queue \<Rightarrow> timer_entry \<Rightarrow> timer_id" where
  "entry_id q e = (snd e, sequence (the (heap q (snd e))))"

definition tq_inv :: "'k timer_queue \<Rightarrow> bool" where
  "tq_inv q \<longleftrightarrow> finite (dom (heap q)) \<and>
     (\<forall>p tm. heap q p = Some tm \<longrightarrow> sequence tm \<le> numCreated q) \<and>
     sorted (timers q) \<and> distinct (timers q) \<and>
     (\<forall>t p. (t, p) \<in> set (timers q) \<longrightarrow> (\<exists>tm. heap q p = Some tm \<and> expiration tm = t)) \<and>
     activeTimers q = entry_id q ` set (timers q)"

lemma tq_inv_D:
  assumes "tq_inv q"
  shows "finite (dom (heap q))" "heap q p = Some tm \<Longrightarrow> sequence tm \<le> numCreated q"
    "sorted (timers q)" "distinct (timers q)" "activeTimers q = entry_id q ` set (timers q)"
    "(t, p) \<in> set (timers q) \<Longrightarrow> \<exists>tm. heap q p = Some tm \<and> expiration tm = t"
  using assms by (simp_all add: tq_inv_def)

lemma tq_inv_alarm [simp]: "tq_inv (q\<lparr>alarm := a\<rparr>) = tq_inv q"
  "tq_inv (q\<lparr>callingExpiredTimers := b\<rparr>) = tq_inv q" "tq_inv (q\<lparr>cancelingTimers := c\<rparr>) = tq_inv q"
  by (simp_all add: tq_inv_def entry_id_def)

lemma tq_inv_new: "tq_inv TimerQueue_new"
  by (simp add: tq_inv_def TimerQueue_new_def)

lemma tq_entry_unique: "tq_inv q \<Longrightarrow> (t, p) \<in> set (timers q) \<Longrightarrow> (t', p) \<in> set (timers q) \<Longrightarrow> t = t'"
  using tq_inv_D(6) [of q t p] tq_inv_D(6) [of q t' p] by auto

lemma entry_id_inj: "tq_inv q \<Longrightarrow> inj_on (entry_id q) (set (timers q))"
  by (rule inj_onI) (auto simp: entry_id_def dest: tq_entry_unique)

lemma tq_sizes_agree: "tq_inv q \<Longrightarrow> sizes_agree q"
  by (simp add: sizes_agree_def tq_inv_D(5) card_image [OF entry_id_inj] distinct_card tq_inv_D(4))

definition idle :: "nat set \<Rightarrow> 'k timer_queue \<Rightarrow> bool" where
  "idle P q \<longleftrightarrow> P \<subseteq> dom (heap q) \<and> (\<forall>t p. (t, p) \<in> set (timers q) \<longrightarrow> p \<notin> P)"

lemma tq_active_iff: "tq_inv q \<Longrightarrow> (p, s) \<in> activeTimers q \<longleftrightarrow>
    (\<exists>tm. heap q p = Some tm \<and> sequence tm = s \<and> (expiration tm, p) \<in> set (timers q))"
  by (force simp: tq_inv_D(5) entry_id_def image_iff dest: tq_inv_D(6))

text \<open>Inserting an idle timer.\<close>

definition with_timer :: "nat \<Rightarrow> 'k timer \<Rightarrow> 'k timer_queue \<Rightarrow> 'k timer_queue" where
  "with_timer p tm q = q\<lparr>timers := insort (expiration tm, p) (timers q),
     activeTimers := insert (p, sequence tm) (activeTimers q)\<rparr>"

lemma with_timer_inv:
  assumes inv: "tq_inv q" and p: "heap q p = Some tm" "idle {p} q"
  shows "tq_inv (with_timer p tm q)"
proof -
  have "entry_id (with_timer p tm q) = entry_id q"
    by (auto simp: entry_id_def with_timer_def)
  then have "activeTimers (with_timer p tm q) = entry_id (with_timer p tm q) ` set (timers (with_timer p tm q))"
    using p by (simp add: with_timer_def set_insort_key tq_inv_D(5) [OF inv] entry_id_def)
  moreover have "distinct (timers (with_timer p tm q))"
    using p by (auto simp: with_timer_def distinct_insort tq_inv_D(4) [OF inv] idle_def)
  ultimately show ?thesis
    using inv p by (simp add: tq_inv_def with_timer_def sorted_insort set_insort_key)
qed

lemma insert_timer_ok:
  assumes inv: "tq_inv q" and p: "heap q p = Some tm" "idle {p} q"
  shows "insert_timer p q = Some (timers q = [] \<or> expiration tm < fst (hd (timers q)), with_timer p tm q)"
proof -
  have "(expiration tm, p) \<notin> set (timers q)" "(p, sequence tm) \<notin> activeTimers q"
    using p by (fastforce simp: idle_def tq_inv_D(5) [OF inv] entry_id_def)+
  moreover have "sizes_agree (with_timer p tm q)"
    using with_timer_inv [OF assms] by (rule tq_sizes_agree)
  ultimately show ?thesis
    using tq_sizes_agree [OF inv] p
    by (simp add: insert_timer_def with_timer_def Let_def split: list.splits)
qed

lemma alarm_resetTimerfd: "resetTimerfd now when q = q\<lparr>alarm := Some (max when (now + 100))\<rparr>"
proof -
  let ?us = "if when - now < 100 then 100 else when - now"
  have "0 \<le> ?us" by simp
  then have "cdiv ?us kMicroSecondsPerSecond * kMicroSecondsPerSecond + cmod ?us kMicroSecondsPerSecond = ?us"
    by (simp add: cmod_def)
  moreover have "now + ?us = max when (now + 100)" by auto
  ultimately show ?thesis
    by (simp add: resetTimerfd_def howMuchTimeFromNow_def Let_def)
qed

definition earliest_changed :: "'k timer \<Rightarrow> 'k timer_queue \<Rightarrow> bool" where
  "earliest_changed tm q \<longleftrightarrow> timers q = [] \<or> expiration tm < fst (hd (timers q))"

lemma addTimerInLoop_ok:
  assumes "tq_inv q" "heap q p = Some tm" "idle {p} q"
  shows "addTimerInLoop now p q = Some ((with_timer p tm q)
      \<lparr>alarm := if earliest_changed tm q then Some (max (expiration tm) (now + 100)) else alarm q\<rparr>)"
  using assms by (auto simp: addTimerInLoop_def insert_timer_ok alarm_resetTimerfd earliest_changed_def with_timer_def)

text \<open>Cancelling.\<close>

definition without_timer :: "timer_id \<Rightarrow> 'k timer \<Rightarrow> 'k timer_queue \<Rightarrow> 'k timer_queue" where
  "without_timer tid tm q = q\<lparr>timers := remove1 (expiration tm, fst tid) (timers q),
     heap := (heap q)(fst tid := None), activeTimers := activeTimers q - {tid}\<rparr>"

lemma without_timer_inv:
  assumes inv: "tq_inv q" and p: "heap q p = Some tm" "(expiration tm, p) \<in> set (timers q)"
  shows "tq_inv (without_timer (p, sequence tm) tm q)"
proof -
  let ?q = "without_timer (p, sequence tm) tm q"
  have set: "set (timers ?q) = set (timers q) - {(expiration tm, p)}"
    using tq_inv_D(4) [OF inv] by (simp add: without_timer_def)
  have other: "u \<noteq> p" if "(t, u) \<in> set (timers ?q)" for t u
    using that set tq_entry_unique [OF inv p(2)] by auto
  have "entry_id ?q e = entry_id q e" if "e \<in> set (timers ?q)" for e
    using other [of "fst e" "snd e"] that by (simp add: entry_id_def without_timer_def)
  then have "entry_id ?q ` set (timers ?q) = entry_id q ` set (timers ?q)" by (rule image_cong [OF refl])
  also have "\<dots> = entry_id q ` set (timers q) - {entry_id q (expiration tm, p)}"
    unfolding set using inj_on_image_set_diff [OF entry_id_inj [OF inv], of "set (timers q)"] p by auto
  finally have act: "activeTimers ?q = entry_id ?q ` set (timers ?q)"
    using p by (simp add: without_timer_def tq_inv_D(5) [OF inv] entry_id_def)
  have "\<exists>tm. heap ?q u = Some tm \<and> expiration tm = t" if "(t, u) \<in> set (timers ?q)" for t u
    using other [OF that] that tq_inv_D(6) [OF inv, of t u] set by (simp add: without_timer_def)
  moreover have "sorted (timers ?q)" "distinct (timers ?q)"
    using tq_inv_D(3,4) [OF inv] by (simp_all add: without_timer_def sorted_remove1)
  ultimately show ?thesis
    unfolding tq_inv_def using act tq_inv_D(1,2) [OF inv] by (auto simp: without_timer_def split: if_splits)
qed

lemma cancelInLoop_cases:
  assumes inv: "tq_inv q"
  obtains (active) tm where "heap q (fst tid) = Some tm" "sequence tm = snd tid" "(expiration tm, fst tid) \<in> set (timers q)"
      "cancelInLoop tid q = Some (without_timer tid tm q)" "tq_inv (without_timer tid tm q)"
  | (canceling) "tid \<notin> activeTimers q" "callingExpiredTimers q"
      "cancelInLoop tid q = Some (q\<lparr>cancelingTimers := insert tid (cancelingTimers q)\<rparr>)"
  | (absent) "tid \<notin> activeTimers q" "\<not> callingExpiredTimers q" "cancelInLoop tid q = Some q"
proof (cases "tid \<in> activeTimers q")
  case True
  then obtain tm where tm: "heap q (fst tid) = Some tm" "sequence tm = snd tid" "(expiration tm, fst tid) \<in> set (timers q)"
    using tq_active_iff [OF inv, of "fst tid" "snd tid"] by auto
  have inv': "tq_inv (without_timer tid tm q)"
    using without_timer_inv [OF inv tm(1,3)] tm(2) by simp
  have "cancelInLoop tid q = Some (without_timer tid tm q)"
    using True tm tq_sizes_agree [OF inv] tq_sizes_agree [OF inv']
    by (simp add: cancelInLoop_def without_timer_def)
  then show ?thesis using active tm inv' by blast
next
  case False
  then show ?thesis
    using canceling absent tq_sizes_agree [OF inv]
    by (cases "callingExpiredTimers q") (auto simp: cancelInLoop_def sizes_agree_def)
qed

text \<open>Creating.\<close>

lemma addTimer_create_ok:
  assumes inv: "tq_inv q" and al: "allocator malloc" and c: "addTimer_create malloc cb when itv q = ((p, s), q')"
  shows "tq_inv q' \<and> heap q p = None \<and> s = numCreated q + 1 \<and> numCreated q' = s \<and>
    heap q' = (heap q)(p \<mapsto> Timer_new cb when itv s) \<and> idle {p} q' \<and> timers q' = timers q \<and>
    activeTimers q' = activeTimers q \<and> callingExpiredTimers q' = callingExpiredTimers q \<and>
    cancelingTimers q' = cancelingTimers q \<and> alarm q' = alarm q"
proof -
  have p: "p = malloc (heap q)" "s = numCreated q + 1"
    and q': "q' = q\<lparr>heap := (heap q)(p \<mapsto> Timer_new cb when itv s), numCreated := s\<rparr>"
    using c by (auto simp: addTimer_create_def Let_def)
  have fresh: "heap q p = None" using al tq_inv_D(1) [OF inv] by (simp add: allocator_def p)
  then have other: "u \<noteq> p" if "(t, u) \<in> set (timers q)" for t u
    using tq_inv_D(6) [OF inv that] by auto
  have "entry_id q' e = entry_id q e" if "e \<in> set (timers q)" for e
    using other [of "fst e" "snd e"] that by (simp add: entry_id_def q')
  then have "entry_id q' ` set (timers q) = activeTimers q"
    unfolding tq_inv_D(5) [OF inv] by (rule image_cong [OF refl])
  moreover have "sequence tm \<le> s" if "heap q' u = Some tm" for u tm
    using that tq_inv_D(2) [OF inv, of u tm] by (auto simp: q' p(2) Timer_new_def split: if_splits)
  moreover have "\<exists>tm. heap q' u = Some tm \<and> expiration tm = t" if "(t, u) \<in> set (timers q)" for t u
    using other [OF that] tq_inv_D(6) [OF inv that] by (simp add: q')
  ultimately have "tq_inv q'"
    unfolding tq_inv_def using tq_inv_D(1,3,4) [OF inv] by (simp add: q')
  then show ?thesis using fresh other p(2) by (auto simp: q' idle_def)
qed

section \<open>What callbacks leave alone\<close>

text \<open>
  \<open>keeps P q q'\<close>: the idle timers \<open>P\<close> (expired ones whose callbacks are being run, and created ones
  whose insertion is still queued) are untouched, and no old \<^verbatim>\<open>TimerId\<close> comes to life again.
\<close>

definition keeps :: "nat set \<Rightarrow> 'k timer_queue \<Rightarrow> 'k timer_queue \<Rightarrow> bool" where
  "keeps P q q' \<longleftrightarrow> tq_inv q' \<and> idle P q' \<and> (\<forall>p\<in>P. heap q' p = heap q p) \<and>
     callingExpiredTimers q' = callingExpiredTimers q \<and> numCreated q \<le> numCreated q' \<and>
     cancelingTimers q \<subseteq> cancelingTimers q' \<and>
     (\<forall>p tm'. heap q' p = Some tm' \<longrightarrow> numCreated q < sequence tm' \<or>
        (\<exists>tm. heap q p = Some tm \<and> sequence tm = sequence tm'))"

lemma keeps_refl: "tq_inv q \<Longrightarrow> idle P q \<Longrightarrow> keeps P q q"
  by (simp add: keeps_def)

lemma keeps_trans: "keeps P q q1 \<Longrightarrow> keeps P q1 q2 \<Longrightarrow> keeps P q q2"
proof -
  assume a: "keeps P q q1" and b: "keeps P q1 q2"
  have "numCreated q < sequence tm' \<or> (\<exists>tm. heap q p = Some tm \<and> sequence tm = sequence tm')"
    if h: "heap q2 p = Some tm'" for p tm'
  proof (cases "numCreated q1 < sequence tm'")
    case True
    then show ?thesis using a by (simp add: keeps_def)
  next
    case False
    then obtain tm1 where "heap q1 p = Some tm1" "sequence tm1 = sequence tm'"
      using b h unfolding keeps_def by blast
    then show ?thesis using a unfolding keeps_def by metis
  qed
  then show ?thesis using a b by (simp add: keeps_def) (metis subset_trans order_trans)
qed

lemma keeps_inv: "keeps P q q' \<Longrightarrow> tq_inv q'" "keeps P q q' \<Longrightarrow> idle P q'"
  by (simp_all add: keeps_def)

lemma keeps_calling: "keeps P q q' \<Longrightarrow> callingExpiredTimers q' = callingExpiredTimers q"
  by (simp add: keeps_def)

lemma addTimer_keeps:
  assumes inv: "tq_inv q" and al: "allocator malloc" and P: "idle P q"
  shows "\<exists>tid q'. addTimer malloc now cb when itv q = Some (tid, q') \<and> keeps P q q'"
proof -
  obtain p s q1 where c: "addTimer_create malloc cb when itv q = ((p, s), q1)" by (metis prod.exhaust)
  note n = addTimer_create_ok [OF inv al c]
  define tm where "tm = Timer_new cb when itv s"
  have tm: "heap q1 p = Some tm" "sequence tm = s" using n by (simp_all add: tm_def Timer_new_def)
  let ?q = "(with_timer p tm q1)\<lparr>alarm := if earliest_changed tm q1 then Some (max (expiration tm) (now + 100)) else alarm q1\<rparr>"
  have add: "addTimerInLoop now p q1 = Some ?q"
    using addTimerInLoop_ok [of q1 p tm now] n tm by simp
  have pP: "p \<notin> P" using P n by (auto simp: idle_def)
  have "tq_inv ?q" using with_timer_inv [of q1 p tm] n tm by simp
  moreover have "idle P ?q"
    using P pP n by (auto simp: idle_def with_timer_def set_insort_key)
  ultimately have "keeps P q ?q"
    using n pP tm by (auto simp: keeps_def with_timer_def)
  then show ?thesis using c add by (simp add: addTimer_def)
qed

lemma cancel_keeps:
  assumes inv: "tq_inv q" and P: "idle P q"
  shows "\<exists>q'. cancelInLoop tid q = Some q' \<and> keeps P q q'"
proof (cases rule: cancelInLoop_cases [OF inv, of tid, case_names active canceling absent])
  case (active tm)
  have "fst tid \<notin> P" using P active(3) by (auto simp: idle_def)
  moreover have "idle P (without_timer tid tm q)"
    using P calculation tq_inv_D(4) [OF inv] by (auto simp: idle_def without_timer_def)
  ultimately have "keeps P q (without_timer tid tm q)"
    using active(5) by (auto simp: keeps_def without_timer_def)
  then show ?thesis using active by blast
next
  case canceling
  then show ?thesis using inv P by (auto simp: keeps_def idle_def)
next
  case absent
  then show ?thesis using keeps_refl [OF inv P] by blast
qed

lemma run_actions_keeps:
  assumes al: "allocator malloc"
  shows "tq_inv q \<Longrightarrow> idle P q \<Longrightarrow> \<exists>q'. run_actions malloc as q = Some q' \<and> keeps P q q'"
proof (induction as arbitrary: q)
  case Nil
  then show ?case by (simp add: keeps_refl)
next
  case (Cons a as)
  have "\<exists>q1. run_actions malloc (a # as) q = run_actions malloc as q1 \<and> keeps P q q1"
  proof (cases a)
    case (AddTimer now cb w itv)
    then show ?thesis using addTimer_keeps [OF Cons.prems(1) al Cons.prems(2), of now cb w itv] by auto
  next
    case (CancelTimer tid)
    then show ?thesis using cancel_keeps [OF Cons.prems, of tid] by auto
  qed
  then obtain q1 where q1: "run_actions malloc (a # as) q = run_actions malloc as q1" "keeps P q q1" by blast
  with Cons.IH [of q1] keeps_inv [OF q1(2)] keeps_trans [OF q1(2)] show ?case by auto
qed

lemma run_expired_keeps:
  assumes al: "allocator malloc"
  shows "tq_inv q \<Longrightarrow> idle P q \<Longrightarrow> snd ` set es \<subseteq> P \<Longrightarrow>
    \<exists>ran q'. run_expired malloc script es q = Some (ran, q') \<and> keeps P q q' \<and> map fst ran = map (entry_id q) es"
proof (induction es arbitrary: q)
  case Nil
  then show ?case by (simp add: keeps_refl)
next
  case (Cons e es)
  obtain t p where e: "e = (t, p)" by fastforce
  then have p: "p \<in> P" "snd ` set es \<subseteq> P" using Cons.prems by auto
  then obtain tm where tm: "heap q p = Some tm" using Cons.prems by (auto simp: idle_def)
  obtain q1 where q1: "run_actions malloc (script (callback tm) q) q = Some q1" "keeps P q q1"
    using run_actions_keeps [OF al Cons.prems(1,2)] by blast
  obtain ran q2 where q2: "run_expired malloc script es q1 = Some (ran, q2)" "keeps P q1 q2"
      "map fst ran = map (entry_id q1) es"
    using Cons.IH [OF keeps_inv [OF q1(2)] p(2)] by blast
  have "map (entry_id q1) es = map (entry_id q) es"
    using q1(2) p(2) by (force simp: keeps_def entry_id_def)
  with q1 q2 tm e keeps_trans [OF q1(2) q2(2)] show ?case by (simp add: entry_id_def)
qed

section \<open>Expired timers\<close>

lemma eraseActive_ok:
  "(\<And>e. e \<in> set es \<Longrightarrow> heap q (snd e) \<noteq> None) \<Longrightarrow> entry_id q ` set es \<subseteq> activeTimers q \<Longrightarrow>
   distinct (map (entry_id q) es) \<Longrightarrow>
   eraseActive es q = Some (q\<lparr>activeTimers := activeTimers q - entry_id q ` set es\<rparr>)"
proof (induction es arbitrary: q)
  case (Cons e es)
  obtain t p where e: "e = (t, p)" by fastforce
  obtain tm where tm: "heap q p = Some tm" using Cons.prems(1) [of e] e by auto
  let ?q = "q\<lparr>activeTimers := activeTimers q - {(p, sequence tm)}\<rparr>"
  have id: "entry_id ?q = entry_id q" by (simp add: entry_id_def fun_eq_iff)
  have "eraseActive es ?q = Some (?q\<lparr>activeTimers := activeTimers ?q - entry_id ?q ` set es\<rparr>)"
    using Cons.prems e tm by (intro Cons.IH) (auto simp: id entry_id_def)
  then show ?case
    using Cons.prems(2) e tm by (simp add: id entry_id_def set_diff_eq insert_commute Diff_insert2)
qed simp

lemma expired_filter:
  "sorted (ts :: timer_entry list) \<Longrightarrow> takeWhile (before_sentry now) ts = filter (\<lambda>e. fst e \<le> now) ts \<and>
     dropWhile (before_sentry now) ts = filter (\<lambda>e. now < fst e) ts"
proof (induction ts)
  case (Cons e ts)
  have ge: "fst e \<le> fst e'" if "e' \<in> set ts" for e'
    using Cons.prems that by (cases e; cases e') (auto simp: less_eq_prod_def)
  show ?case
  proof (cases "fst e \<le> now")
    case True
    then show ?thesis using Cons by (cases e) auto
  next
    case False
    then have "filter (\<lambda>e. fst e \<le> now) ts = []" "filter (\<lambda>e. now < fst e) ts = ts"
      using ge by (auto simp: filter_empty_conv filter_id_conv) fastforce+
    with False show ?thesis by (cases e) auto
  qed
qed simp

definition expired_at :: "timestamp \<Rightarrow> 'k timer_queue \<Rightarrow> timer_entry list" where
  "expired_at now q = filter (\<lambda>e. fst e \<le> now) (timers q)"

definition after_expiry :: "timestamp \<Rightarrow> 'k timer_queue \<Rightarrow> 'k timer_queue" where
  "after_expiry now q = q\<lparr>timers := filter (\<lambda>e. now < fst e) (timers q),
     activeTimers := activeTimers q - entry_id q ` set (expired_at now q)\<rparr>"

lemma after_expiry_inv:
  assumes inv: "tq_inv q"
  shows "tq_inv (after_expiry now q)"
proof -
  have "entry_id (after_expiry now q) = entry_id q"
    by (simp add: entry_id_def after_expiry_def fun_eq_iff)
  moreover have "entry_id q ` set (timers q) - entry_id q ` set (expired_at now q) =
      entry_id q ` (set (timers q) - set (expired_at now q))"
    using inj_on_image_set_diff [OF entry_id_inj [OF inv]] by (metis expired_at_def filter_is_subset subset_refl Diff_subset)
  moreover have "set (timers q) - set (expired_at now q) = set (timers (after_expiry now q))"
    by (auto simp: after_expiry_def expired_at_def)
  ultimately show ?thesis
    using inv by (simp add: tq_inv_def after_expiry_def sorted_wrt_filter split: prod.splits)
qed

lemma getExpired_ok:
  assumes inv: "tq_inv q"
  shows "getExpired now q = Some (expired_at now q, after_expiry now q)"
proof -
  let ?rest = "filter (\<lambda>e. now < fst e) (timers q)"
  have sub: "set (expired_at now q) \<subseteq> set (timers q)" by (auto simp: expired_at_def)
  have id: "entry_id (q\<lparr>timers := ?rest\<rparr>) = entry_id q" by (simp add: entry_id_def fun_eq_iff)
  have "distinct (map (entry_id q) (expired_at now q))"
    using entry_id_inj [OF inv] tq_inv_D(4) [OF inv] sub
    by (auto simp: distinct_map expired_at_def intro: inj_on_subset)
  moreover have alive: "heap q (snd e) \<noteq> None" if "e \<in> set (expired_at now q)" for e
    using that sub tq_inv_D(6) [OF inv, of "fst e" "snd e"] by auto
  ultimately have "eraseActive (expired_at now q) (q\<lparr>timers := ?rest\<rparr>) = Some (after_expiry now q)"
    using sub tq_inv_D(5) [OF inv]
    by (subst eraseActive_ok) (auto simp: id after_expiry_def)
  moreover have "?rest = [] \<or> now < fst (hd ?rest)"
    using hd_in_set [of ?rest] by fastforce
  ultimately show ?thesis
    using tq_sizes_agree [OF inv] tq_sizes_agree [OF after_expiry_inv [OF inv]] expired_filter [OF tq_inv_D(3) [OF inv], of now]
    by (simp add: getExpired_def expired_at_def)
qed

lemma after_expiry_idle: "tq_inv q \<Longrightarrow> idle P q \<Longrightarrow> idle (P \<union> snd ` set (expired_at now q)) (after_expiry now q)"
  by (fastforce simp: idle_def after_expiry_def expired_at_def dest: tq_entry_unique tq_inv_D(6))

section \<open>Restarting\<close>

lemma tq_inv_heap_idle:
  assumes inv: "tq_inv q" and p: "idle {p} q" and v: "\<And>tm. v = Some tm \<Longrightarrow> sequence tm \<le> numCreated q"
  shows "tq_inv (q\<lparr>heap := (heap q)(p := v)\<rparr>)"
proof -
  let ?q = "q\<lparr>heap := (heap q)(p := v)\<rparr>"
  have other: "u \<noteq> p" if "(t, u) \<in> set (timers q)" for t u
    using p that by (auto simp: idle_def)
  have "entry_id ?q e = entry_id q e" if "e \<in> set (timers q)" for e
    using other [of "fst e" "snd e"] that by (simp add: entry_id_def)
  then have "entry_id ?q ` set (timers q) = activeTimers q"
    unfolding tq_inv_D(5) [OF inv] by (rule image_cong [OF refl])
  moreover have "\<exists>tm. heap ?q u = Some tm \<and> expiration tm = t" if "(t, u) \<in> set (timers q)" for t u
    using other [OF that] tq_inv_D(6) [OF inv that] by simp
  moreover have "sequence tm \<le> numCreated q" if "heap ?q u = Some tm" for u tm
    using that v tq_inv_D(2) [OF inv, of u tm] by (auto split: if_splits)
  ultimately show ?thesis
    unfolding tq_inv_def using tq_inv_D(1,3,4) [OF inv] by simp
qed

definition restarted :: "timestamp \<Rightarrow> 'k timer_queue \<Rightarrow> nat \<Rightarrow> 'k timer option" where
  "restarted now q p = (case heap q p of None \<Rightarrow> None
     | Some tm \<Rightarrow> if repeats tm \<and> (p, sequence tm) \<notin> cancelingTimers q then Some (restart now tm) else None)"

lemma restart_sel [simp]: "sequence (restart now tm) = sequence tm" "repeats (restart now tm) = repeats tm"
  "interval (restart now tm) = interval tm" "callback (restart now tm) = callback tm"
  by (simp_all add: restart_def)

lemma reset_loop_ok:
  assumes "tq_inv q" "idle P q" "snd ` set es \<subseteq> P" "distinct (map snd es)"
  shows "\<exists>q'. reset_loop now es q = Some q' \<and> tq_inv q' \<and> idle (P - snd ` set es) q' \<and>
    heap q' = (\<lambda>p. if p \<in> snd ` set es then restarted now q p else heap q p) \<and>
    snd ` set (timers q') = snd ` set (timers q) \<union> {p \<in> snd ` set es. restarted now q p \<noteq> None} \<and>
    cancelingTimers q' = cancelingTimers q \<and> numCreated q' = numCreated q \<and>
    callingExpiredTimers q' = callingExpiredTimers q \<and> alarm q' = alarm q"
  using assms
proof (induction es arbitrary: q P)
  case (Cons e es)
  obtain t p where e: "e = (t, p)" by fastforce
  have p: "p \<in> P" "p \<notin> snd ` set es" "idle {p} q" using Cons.prems(2-4) e by (auto simp: idle_def)
  obtain tm where tm: "heap q p = Some tm" using p by (auto simp: idle_def)
  let ?r = "restarted now q p"
  define q1 where "q1 = q\<lparr>heap := (heap q)(p := ?r)\<rparr>"
  define q2 where "q2 = (case ?r of None \<Rightarrow> q1 | Some tm' \<Rightarrow> with_timer p tm' q1)"
  have r: "?r = (if repeats tm \<and> (p, sequence tm) \<notin> cancelingTimers q then Some (restart now tm) else None)"
    by (simp add: restarted_def tm)
  have inv1: "tq_inv q1"
    unfolding q1_def using tq_inv_D(2) [OF Cons.prems(1) tm] r
    by (intro tq_inv_heap_idle [OF Cons.prems(1) p(3)]) (auto split: if_splits)
  have idle1: "idle {p} q1" if "?r \<noteq> None" using p that by (auto simp: idle_def q1_def)
  have inv2: "tq_inv q2"
    using inv1 idle1 with_timer_inv [OF inv1, of p] by (cases ?r) (auto simp: q2_def q1_def)
  have step: "reset_loop now (e # es) q = reset_loop now es q2"
    using tm e r idle1 insert_timer_ok [OF inv1, of p "restart now tm"]
    by (auto simp: q2_def q1_def split: if_splits)
  have q2: "heap q2 = (heap q)(p := ?r)" "snd ` set (timers q2) = snd ` set (timers q) \<union> {u. u = p \<and> ?r \<noteq> None}"
      "cancelingTimers q2 = cancelingTimers q" "numCreated q2 = numCreated q"
      "callingExpiredTimers q2 = callingExpiredTimers q" "alarm q2 = alarm q"
    by (auto simp: q2_def q1_def with_timer_def set_insort_key split: option.splits)
  have ptrs: "u \<in> snd ` set (timers q) \<or> u = p" if "(w, u) \<in> set (timers q2)" for w u
    using q2(2) that by force
  have idle2: "idle (P - {p}) q2"
    using Cons.prems(2) ptrs by (fastforce simp: idle_def q2(1))
  have res: "restarted now q2 u = restarted now q u" if "u \<in> snd ` set es" for u
  proof -
    have "u \<noteq> p" using that p(2) by blast
    then show ?thesis by (simp add: restarted_def q2 split: option.splits)
  qed
  have sub: "snd ` set es \<subseteq> P - {p}" using Cons.prems(3) p(2) by auto
  obtain q' where q': "reset_loop now es q2 = Some q'" "tq_inv q'" "idle (P - {p} - snd ` set es) q'"
      "heap q' = (\<lambda>u. if u \<in> snd ` set es then restarted now q2 u else heap q2 u)"
      "snd ` set (timers q') = snd ` set (timers q2) \<union> {u \<in> snd ` set es. restarted now q2 u \<noteq> None}"
      "cancelingTimers q' = cancelingTimers q2" "numCreated q' = numCreated q2"
      "callingExpiredTimers q' = callingExpiredTimers q2" "alarm q' = alarm q2"
    using Cons.IH [OF inv2 idle2 sub] Cons.prems(4) by auto
  have "heap q' = (\<lambda>u. if u \<in> snd ` set (e # es) then restarted now q u else heap q u)"
    unfolding q'(4) using e p(2) by (auto simp: q2(1) res fun_eq_iff)
  moreover have "{u \<in> snd ` set es. restarted now q2 u \<noteq> None} = {u \<in> snd ` set es. restarted now q u \<noteq> None}"
    by (intro Collect_cong conj_cong refl) (simp add: res)
  then have "snd ` set (timers q') = snd ` set (timers q) \<union> {u \<in> snd ` set (e # es). restarted now q u \<noteq> None}"
    unfolding q'(5) q2(2) using e by auto
  moreover have "P - {p} - snd ` set es = P - snd ` set (e # es)" using e by auto
  ultimately show ?case
    using q' q2 step by simp
qed simp

section \<open>The alarm handler\<close>

definition calling_state :: "timestamp \<Rightarrow> 'k timer_queue \<Rightarrow> 'k timer_queue" where
  "calling_state now q = (after_expiry now (readTimerfd q))\<lparr>callingExpiredTimers := True, cancelingTimers := {}\<rparr>"

lemma readTimerfd_simps [simp]:
  "tq_inv (readTimerfd q) = tq_inv q" "idle P (readTimerfd q) = idle P q"
  "expired_at now (readTimerfd q) = expired_at now q" "entry_id (readTimerfd q) = entry_id q"
  "heap (readTimerfd q) = heap q" "timers (readTimerfd q) = timers q" "numCreated (readTimerfd q) = numCreated q"
  by (simp_all add: readTimerfd_def idle_def expired_at_def entry_id_def fun_eq_iff)

lemma calling_state_simps [simp]:
  "heap (calling_state now q) = heap q" "numCreated (calling_state now q) = numCreated q"
  "entry_id (calling_state now q) = entry_id q" "cancelingTimers (calling_state now q) = {}"
  "callingExpiredTimers (calling_state now q)" "timers (calling_state now q) = filter (\<lambda>e. now < fst e) (timers q)"
  by (simp_all add: calling_state_def after_expiry_def entry_id_def fun_eq_iff)

lemma calling_state_ok:
  assumes "tq_inv q" "idle P q"
  shows "tq_inv (calling_state now q)" "idle (P \<union> snd ` set (expired_at now q)) (calling_state now q)"
  using after_expiry_inv [of "readTimerfd q" now] after_expiry_idle [of "readTimerfd q" P now] assms
  by (simp_all add: calling_state_def idle_def)

lemma reset_ok:
  assumes "tq_inv q" "idle P q" "snd ` set es \<subseteq> P" "distinct (map snd es)"
  shows "\<exists>q'. reset es now now' q = Some q' \<and> tq_inv q' \<and> idle (P - snd ` set es) q' \<and>
    heap q' = (\<lambda>p. if p \<in> snd ` set es then restarted now q p else heap q p) \<and>
    snd ` set (timers q') = snd ` set (timers q) \<union> {p \<in> snd ` set es. restarted now q p \<noteq> None} \<and>
    numCreated q' = numCreated q \<and> callingExpiredTimers q' = callingExpiredTimers q \<and>
    (timers q' \<noteq> [] \<longrightarrow> 0 < fst (hd (timers q')) \<longrightarrow> alarm q' = Some (max (fst (hd (timers q'))) (now' + 100)))"
proof -
  obtain q1 where q1: "reset_loop now es q = Some q1" "tq_inv q1" "idle (P - snd ` set es) q1"
      "heap q1 = (\<lambda>p. if p \<in> snd ` set es then restarted now q p else heap q p)"
      "snd ` set (timers q1) = snd ` set (timers q) \<union> {p \<in> snd ` set es. restarted now q p \<noteq> None}"
      "numCreated q1 = numCreated q" "callingExpiredTimers q1 = callingExpiredTimers q"
    using reset_loop_ok [OF assms, of now] by blast
  show ?thesis
  proof (cases "timers q1")
    case Nil
    then have "reset es now now' q = Some q1"
      using q1(1) by (simp add: reset_def valid_time_def Timestamp_invalid_def)
    with Nil q1 show ?thesis by auto
  next
    case (Cons e ts)
    obtain t p where e: "e = (t, p)" by fastforce
    obtain tm where tm: "heap q1 p = Some tm" "expiration tm = t"
      using tq_inv_D(6) [OF q1(2), of t p] Cons e by auto
    define a where "a = (if 0 < t then Some (max t (now' + 100)) else alarm q1)"
    have "reset es now now' q = Some (q1\<lparr>alarm := a\<rparr>)"
      using q1(1) Cons e tm by (simp add: reset_def valid_time_def alarm_resetTimerfd a_def)
    moreover have "idle (P - snd ` set es) (q1\<lparr>alarm := a\<rparr>)" using q1(3) by (simp add: idle_def)
    ultimately show ?thesis using q1(2,4-7) Cons e by (auto simp: a_def)
  qed
qed

lemma expired_distinct: "tq_inv q \<Longrightarrow> distinct (map snd (expired_at now q))"
  by (auto simp: expired_at_def distinct_map tq_inv_D(4) inj_on_def dest: tq_entry_unique)

lemma handleRead_ok:
  fixes now :: timestamp
  assumes inv: "tq_inv q" and al: "allocator malloc" and P: "idle P q"
  defines "E \<equiv> snd ` set (expired_at now q)"
  shows "\<exists>ran q2 q'. handleRead_timer malloc script now now' q = Some (ran, q') \<and>
    run_expired malloc script (expired_at now q) (calling_state now q) = Some (ran, q2) \<and>
    map fst ran = map (entry_id q) (expired_at now q) \<and> keeps (P \<union> E) (calling_state now q) q2 \<and>
    tq_inv q' \<and> idle P q' \<and> heap q' = (\<lambda>p. if p \<in> E then restarted now q2 p else heap q2 p) \<and>
    snd ` set (timers q') = snd ` set (timers q2) \<union> {p \<in> E. restarted now q2 p \<noteq> None} \<and>
    numCreated q' = numCreated q2 \<and> \<not> callingExpiredTimers q' \<and>
    (timers q' \<noteq> [] \<longrightarrow> 0 < fst (hd (timers q')) \<longrightarrow> alarm q' = Some (max (fst (hd (timers q'))) (now' + 100)))"
proof -
  let ?es = "expired_at now q"
  obtain ran q2 where q2: "run_expired malloc script ?es (calling_state now q) = Some (ran, q2)"
      "keeps (P \<union> E) (calling_state now q) q2" "map fst ran = map (entry_id q) ?es"
    using run_expired_keeps [OF al calling_state_ok [OF inv P], of ?es now script] by (auto simp: E_def)
  let ?q2 = "q2\<lparr>callingExpiredTimers := False\<rparr>"
  have k: "tq_inv ?q2" "idle (P \<union> E) ?q2" using keeps_inv [OF q2(2)] by (simp_all add: idle_def)
  have r: "restarted now ?q2 = restarted now q2" by (auto simp: restarted_def fun_eq_iff split: option.splits)
  have disj: "P \<union> E - E = P" using P by (auto simp: idle_def E_def expired_at_def)
  obtain q' where q': "reset ?es now now' ?q2 = Some q'" "tq_inv q'" "idle P q'"
      "heap q' = (\<lambda>p. if p \<in> E then restarted now q2 p else heap q2 p)"
      "snd ` set (timers q') = snd ` set (timers q2) \<union> {p \<in> E. restarted now q2 p \<noteq> None}"
      "numCreated q' = numCreated q2" "\<not> callingExpiredTimers q'"
      "timers q' \<noteq> [] \<longrightarrow> 0 < fst (hd (timers q')) \<longrightarrow> alarm q' = Some (max (fst (hd (timers q'))) (now' + 100))"
    using reset_ok [OF k, of ?es now now'] expired_distinct [OF inv, of now] unfolding r E_def [symmetric] disj
    by (auto cong: if_cong)
  have "handleRead_timer malloc script now now' q = Some (ran, q')"
    using getExpired_ok [of "readTimerfd q" now] inv q2(1) q'(1)
    by (simp add: handleRead_timer_def calling_state_def)
  with q2 q' show ?thesis by blast
qed

section \<open>The queue with its clients\<close>

text \<open>The timers whose insertion is queued are alive, distinct and not in the queue.\<close>

definition pending_adds :: "timer_functor list \<Rightarrow> nat list" where
  "pending_adds fs = List.map_filter (\<lambda>f. case f of AddInLoop p \<Rightarrow> Some p | CancelInLoop tid \<Rightarrow> None) fs"

lemma pending_adds_simps [simp]:
  "pending_adds [] = []" "pending_adds (AddInLoop p # fs) = p # pending_adds fs"
  "pending_adds (CancelInLoop tid # fs) = pending_adds fs" "pending_adds (fs @ gs) = pending_adds fs @ pending_adds gs"
  by (simp_all add: pending_adds_def map_filter_simps map_filter_def)

definition sys_inv :: "'k timer_system \<Rightarrow> bool" where
  "sys_inv = (\<lambda>(q, fs). tq_inv q \<and> idle (set (pending_adds fs)) q \<and> distinct (pending_adds fs) \<and>
     \<not> callingExpiredTimers q)"

text \<open>No old identity comes to life: \<open>gone\<close> identities stay gone.\<close>

definition gone :: "timer_id \<Rightarrow> 'k timer_queue \<Rightarrow> bool" where
  "gone tid q \<longleftrightarrow> snd tid \<le> numCreated q \<and> (\<forall>tm. heap q (fst tid) = Some tm \<longrightarrow> sequence tm \<noteq> snd tid)"

lemma gone_keeps: "gone tid q \<Longrightarrow> keeps P q q' \<Longrightarrow> gone tid q'"
  unfolding gone_def keeps_def by (metis leD order_trans)

lemma restarted_Some: "restarted now q p = Some tm' \<Longrightarrow> \<exists>tm. heap q p = Some tm \<and> tm' = restart now tm"
  by (auto simp: restarted_def split: option.splits if_splits)

lemma gone_handleRead:
  assumes inv: "tq_inv q" and al: "allocator malloc" and g: "gone tid q"
    and h: "handleRead_timer malloc script now now' q = Some (rs, q')"
  shows "gone tid q' \<and> tid \<notin> fst ` set rs"
proof -
  have i: "idle {} q" by (simp add: idle_def)
  obtain q2 where q2: "map fst rs = map (entry_id q) (expired_at now q)"
      "keeps ({} \<union> snd ` set (expired_at now q)) (calling_state now q) q2" "numCreated q' = numCreated q2"
      "heap q' = (\<lambda>p. if p \<in> snd ` set (expired_at now q) then restarted now q2 p else heap q2 p)"
    using handleRead_ok [OF inv al i, of script now now'] h by auto
  have "gone tid (calling_state now q)" using g by (simp add: gone_def)
  then have g2: "gone tid q2" using gone_keeps q2(2) by blast
  then have "gone tid q'"
    using restarted_Some [of now q2 "fst tid"] by (auto simp: gone_def q2(3,4) split: if_splits)
  moreover have "tid \<noteq> entry_id q e" if "e \<in> set (expired_at now q)" for e
  proof -
    have "e \<in> set (timers q)" using that by (simp add: expired_at_def)
    then obtain tm where "heap q (snd e) = Some tm" using tq_inv_D(6) [OF inv, of "fst e" "snd e"] by auto
    then show ?thesis using g by (auto simp: gone_def entry_id_def)
  qed
  then have "tid \<notin> entry_id q ` set (expired_at now q)" by blast
  moreover have "fst ` set rs = entry_id q ` set (expired_at now q)"
    using q2(1) by (metis list.set_map)
  ultimately show ?thesis by simp
qed

lemma timer_step_ok:
  assumes al: "allocator malloc" and inv: "sys_inv st"
  shows "\<exists>r st'. timer_step malloc script op st = Some (r, st') \<and> sys_inv st' \<and>
    (\<forall>tid. gone tid (fst st) \<longrightarrow> gone tid (fst st') \<and> tid \<notin> fst ` set r)"
proof -
  obtain q fs where st: "st = (q, fs)" by fastforce
  let ?P = "set (pending_adds fs)"
  have q: "tq_inv q" "idle ?P q" "distinct (pending_adds fs)" "\<not> callingExpiredTimers q"
    using inv by (auto simp: st sys_inv_def)
  show ?thesis
  proof (cases op)
    case (ClientAdd cb w itv)
    obtain p s q1 where c: "addTimer_create malloc cb w itv q = ((p, s), q1)" by (metis prod.exhaust)
    note n = addTimer_create_ok [OF q(1) al c]
    have "p \<notin> ?P" using q(2) n by (auto simp: idle_def)
    then have "sys_inv (q1, fs @ [AddInLoop p])" using q n by (auto simp: sys_inv_def idle_def)
    moreover have "gone tid q1" if "gone tid q" for tid
      using that n by (auto simp: gone_def Timer_new_def)
    ultimately show ?thesis using ClientAdd c by (auto simp: st)
  next
    case (ClientCancel tid)
    then show ?thesis using inv by (auto simp: st sys_inv_def)
  next
    case (RunFunctor now)
    show ?thesis
    proof (cases fs)
      case Nil
      then show ?thesis using RunFunctor inv by (auto simp: st)
    next
      case (Cons f rest)
      show ?thesis
      proof (cases f)
        case (AddInLoop p)
        then have p: "p \<in> ?P" "p \<notin> set (pending_adds rest)" "set (pending_adds rest) \<subseteq> ?P" using Cons q(3) by auto
        then have "idle {p} q" "p \<in> dom (heap q)" using q(2) by (auto simp: idle_def)
        then obtain tm where tm: "heap q p = Some tm" "idle {p} q" by blast
        have "tq_inv (with_timer p tm q)" using with_timer_inv [OF q(1) tm] .
        then have "sys_inv ((with_timer p tm q)\<lparr>alarm := a\<rparr>, rest)" for a
          using q p Cons AddInLoop by (auto simp: sys_inv_def idle_def with_timer_def set_insort_key)
        moreover have "gone tid ((with_timer p tm q)\<lparr>alarm := a\<rparr>)" if "gone tid q" for tid a
          using that by (simp add: gone_def with_timer_def)
        ultimately show ?thesis
          using RunFunctor Cons AddInLoop addTimerInLoop_ok [OF q(1) tm, of now] by (simp add: st)
      next
        case (CancelInLoop tid)
        obtain q1 where q1: "cancelInLoop tid q = Some q1" "keeps ?P q q1" using cancel_keeps [OF q(1,2)] by blast
        then show ?thesis
          using RunFunctor Cons CancelInLoop q gone_keeps [OF _ q1(2)] keeps_inv [OF q1(2)] keeps_calling [OF q1(2)]
          by (auto simp: st sys_inv_def)
      qed
    qed
  next
    case (LoopAction a)
    obtain q1 where q1: "run_actions malloc [a] q = Some q1" "keeps ?P q q1"
      using run_actions_keeps [OF al q(1,2)] by blast
    then show ?thesis
      using LoopAction q gone_keeps [OF _ q1(2)] keeps_inv [OF q1(2)] keeps_calling [OF q1(2)]
      by (auto simp: st sys_inv_def)
  next
    case (Alarm now now')
    obtain r q1 where h: "handleRead_timer malloc script now now' q = Some (r, q1)" "tq_inv q1" "idle ?P q1"
        "\<not> callingExpiredTimers q1"
      using handleRead_ok [OF q(1) al q(2), of script now now'] by blast
    then show ?thesis
      using Alarm q gone_handleRead [OF q(1) al _ h(1)] by (auto simp: st sys_inv_def)
  qed
qed

lemma timer_run_ok:
  assumes al: "allocator malloc"
  shows "sys_inv st \<Longrightarrow> \<exists>r st'. timer_run malloc script ops st = Some (r, st') \<and> sys_inv st' \<and>
    (\<forall>tid. gone tid (fst st) \<longrightarrow> gone tid (fst st') \<and> tid \<notin> fst ` set r)"
proof (induction ops arbitrary: st)
  case (Cons op ops)
  obtain r1 st1 where s1: "timer_step malloc script op st = Some (r1, st1)" "sys_inv st1"
      "\<forall>tid. gone tid (fst st) \<longrightarrow> gone tid (fst st1) \<and> tid \<notin> fst ` set r1"
    using timer_step_ok [OF al Cons.prems] by blast
  obtain r2 st2 where s2: "timer_run malloc script ops st1 = Some (r2, st2)" "sys_inv st2"
      "\<forall>tid. gone tid (fst st1) \<longrightarrow> gone tid (fst st2) \<and> tid \<notin> fst ` set r2"
    using Cons.IH [OF s1(2)] by blast
  with s1 show ?case by (auto simp: image_Un)
qed simp

lemma sys_inv_new: "sys_inv (TimerQueue_new, [])"
  using tq_inv_new by (simp add: sys_inv_def idle_def TimerQueue_new_def)

section \<open>The effect of callbacks on one timer\<close>

lemma run_actions_step:
  assumes al: "allocator malloc" and inv: "tq_inv q" and r: "run_actions malloc (a # as) q = Some q'"
  obtains q1 where "run_actions malloc [a] q = Some q1" "run_actions malloc as q1 = Some q'" "tq_inv q1"
proof -
  obtain q1 where q1: "run_actions malloc [a] q = Some q1" "keeps {} q q1"
    using run_actions_keeps [OF al inv, of "{}" "[a]"] by (auto simp: idle_def)
  moreover have "run_actions malloc as q1 = Some q'"
    using r q1(1) by (cases a) (auto simp: bind_eq_Some_conv)
  ultimately show ?thesis using that keeps_inv by blast
qed

text \<open>A timer in the queue stays as it is unless it is cancelled, and is gone when it is.\<close>

definition queued_as :: "timer_entry \<Rightarrow> 'k timer \<Rightarrow> 'k timer_queue \<Rightarrow> bool" where
  "queued_as e tm q \<longleftrightarrow> e \<in> set (timers q) \<and> heap q (snd e) = Some tm"

lemma one_action_queued:
  assumes al: "allocator malloc" and inv: "tq_inv q" and e: "queued_as e tm q"
    and r: "run_actions malloc [a] q = Some q'"
  shows "if a = CancelTimer (snd e, sequence tm) then gone (snd e, sequence tm) q' else queued_as e tm q'"
proof (cases a)
  case (AddTimer now cb w itv)
  obtain p s q1 where c: "addTimer_create malloc cb w itv q = ((p, s), q1)" by (metis prod.exhaust)
  note n = addTimer_create_ok [OF inv al c]
  have "p \<noteq> snd e" using e n by (auto simp: queued_as_def)
  then show ?thesis
    using AddTimer r c n e addTimerInLoop_ok [of q1 p _ now]
    by (auto simp: addTimer_def queued_as_def with_timer_def set_insort_key)
next
  case (CancelTimer tid)
  have t: "expiration tm = fst e" using tq_inv_D(6) [OF inv, of "fst e" "snd e"] e by (auto simp: queued_as_def)
  show ?thesis
  proof (cases rule: cancelInLoop_cases [OF inv, of tid, case_names active canceling absent])
    case (active tm')
    then have q': "q' = without_timer tid tm' q" using CancelTimer r by simp
    show ?thesis
    proof (cases "fst tid = snd e")
      case True
      then have "tm' = tm" "tid = (snd e, sequence tm)" using active e by (auto simp: queued_as_def prod_eq_iff)
      then show ?thesis
        using CancelTimer q' tq_inv_D(2) [OF inv, of "snd e" tm] e
        by (simp add: gone_def without_timer_def queued_as_def)
    next
      case False
      then have "tid \<noteq> (snd e, sequence tm)" by auto
      with False show ?thesis
        using CancelTimer q' e tq_inv_D(4) [OF inv] by (cases e) (auto simp: queued_as_def without_timer_def)
    qed
  next
    case canceling
    then have "tid \<noteq> (snd e, sequence tm)"
      using tq_active_iff [OF inv, of "snd e" "sequence tm"] e t by (cases e) (auto simp: queued_as_def)
    then show ?thesis using canceling CancelTimer r e by (auto simp: queued_as_def)
  next
    case absent
    then have "tid \<noteq> (snd e, sequence tm)"
      using tq_active_iff [OF inv, of "snd e" "sequence tm"] e t by (cases e) (auto simp: queued_as_def)
    then show ?thesis using absent CancelTimer r e by auto
  qed
qed

lemma run_actions_queued:
  assumes al: "allocator malloc"
  shows "tq_inv q \<Longrightarrow> queued_as e tm q \<Longrightarrow> run_actions malloc as q = Some q' \<Longrightarrow>
    if CancelTimer (snd e, sequence tm) \<in> set as then gone (snd e, sequence tm) q' else queued_as e tm q'"
proof (induction as arbitrary: q)
  case (Cons a as)
  obtain q1 where q1: "run_actions malloc [a] q = Some q1" "run_actions malloc as q1 = Some q'" "tq_inv q1"
    using run_actions_step [OF al Cons.prems(1,3)] by blast
  note one = one_action_queued [OF al Cons.prems(1,2) q1(1)]
  show ?case
  proof (cases "a = CancelTimer (snd e, sequence tm)")
    case True
    then have "gone (snd e, sequence tm) q1" using one by simp
    moreover have "keeps {} q1 q'"
      using run_actions_keeps [OF al q1(3), of "{}" as] q1(2) by (auto simp: idle_def)
    ultimately show ?thesis using True gone_keeps by auto
  next
    case False
    then show ?thesis using one Cons.IH [OF q1(3) _ q1(2)] by simp
  qed
qed simp

end
