(* ===== verification/Net_TimerProps.thy ===== *)
theory Net_TimerProps
  imports Net_TimerFacts
begin

text \<open>
  The properties of a timer queue and its clients: what an alarm does to each timer, that cancelled
  timers stay cancelled, that no assertion fails, and that the timerfd is always armed.
\<close>

text \<open>A timer whose callback is being run is marked when it is cancelled.\<close>

lemma run_actions_canceling:
  assumes al: "allocator malloc"
  shows "tq_inv q \<Longrightarrow> idle P q \<Longrightarrow> fst tid \<in> P \<Longrightarrow> callingExpiredTimers q \<Longrightarrow>
    run_actions malloc as q = Some q' \<Longrightarrow>
    tid \<in> cancelingTimers q' \<longleftrightarrow> tid \<in> cancelingTimers q \<or> CancelTimer tid \<in> set as"
proof (induction as arbitrary: q)
  case (Cons a as)
  obtain q1 where q1: "run_actions malloc [a] q = Some q1" "run_actions malloc as q1 = Some q'" "tq_inv q1"
    using run_actions_step [OF al Cons.prems(1,5)] by blast
  have k: "keeps P q q1" using run_actions_keeps [OF al Cons.prems(1,2), of "[a]"] q1(1) by auto
  have "tid \<in> cancelingTimers q1 \<longleftrightarrow> tid \<in> cancelingTimers q \<or> a = CancelTimer tid"
  proof (cases a)
    case (AddTimer now cb w itv)
    obtain p s q2 where c: "addTimer_create malloc cb w itv q = ((p, s), q2)" by (metis prod.exhaust)
    note n = addTimer_create_ok [OF Cons.prems(1) al c]
    then show ?thesis
      using AddTimer q1(1) c addTimerInLoop_ok [of q2 p _ now] by (auto simp: addTimer_def with_timer_def)
  next
    case (CancelTimer tid')
    have "(w, fst tid) \<notin> set (timers q)" for w
      using Cons.prems(2,3) by (auto simp: idle_def)
    then show ?thesis
      using CancelTimer q1(1) Cons.prems(4)
      by (cases rule: cancelInLoop_cases [OF Cons.prems(1), of tid']) (auto simp: without_timer_def)
  qed
  then show ?case
    using Cons.IH [OF q1(3) keeps_inv(2) [OF k] Cons.prems(3) _ q1(2)] keeps_calling [OF k] Cons.prems(4) by auto
qed simp

definition cancelled :: "timer_id \<Rightarrow> 'k timer_trace \<Rightarrow> bool" where
  "cancelled tid tr \<longleftrightarrow> (\<exists>(i, as) \<in> set tr. CancelTimer tid \<in> set as)"

lemma run_expired_cons:
  assumes "run_expired malloc script ((t, p) # es) q = Some (tr, q')"
  obtains tm q1 tr1 where "heap q p = Some tm" "run_actions malloc (script (callback tm) q) q = Some q1"
    "run_expired malloc script es q1 = Some (tr1, q')" "tr = ((p, sequence tm), script (callback tm) q) # tr1"
  using assms by (auto simp: bind_eq_Some_conv Let_def split: prod.splits)

lemma run_expired_effects:
  assumes al: "allocator malloc"
  shows "tq_inv q \<Longrightarrow> idle P q \<Longrightarrow> snd ` set es \<subseteq> P \<Longrightarrow> callingExpiredTimers q \<Longrightarrow>
    run_expired malloc script es q = Some (tr, q') \<Longrightarrow>
    (\<forall>tid. fst tid \<in> P \<longrightarrow> (tid \<in> cancelingTimers q' \<longleftrightarrow> tid \<in> cancelingTimers q \<or> cancelled tid tr)) \<and>
    (\<forall>e tm. queued_as e tm q \<longrightarrow> (if cancelled (snd e, sequence tm) tr then gone (snd e, sequence tm) q' else queued_as e tm q'))"
proof (induction es arbitrary: q tr)
  case (Cons e es)
  obtain t p where e: "e = (t, p)" by fastforce
  obtain tm q1 tr1 where s: "heap q p = Some tm" "run_actions malloc (script (callback tm) q) q = Some q1"
      "run_expired malloc script es q1 = Some (tr1, q')" "tr = ((p, sequence tm), script (callback tm) q) # tr1"
    using run_expired_cons Cons.prems(5) [unfolded e] .
  let ?as = "script (callback tm) q"
  have k: "keeps P q q1" using run_actions_keeps [OF al Cons.prems(1,2), of ?as] s(2) by auto
  have sub: "snd ` set es \<subseteq> P" using Cons.prems(3) by auto
  have calling: "callingExpiredTimers q1" using keeps_calling [OF k] Cons.prems(4) by simp
  note IH = Cons.IH [OF keeps_inv [OF k] sub calling s(3)]
  have canc: "cancelled tid tr \<longleftrightarrow> CancelTimer tid \<in> set ?as \<or> cancelled tid tr1" for tid
    by (simp add: s(4) cancelled_def)
  have "tid \<in> cancelingTimers q' \<longleftrightarrow> tid \<in> cancelingTimers q \<or> cancelled tid tr" if "fst tid \<in> P" for tid
    using IH that run_actions_canceling [OF al Cons.prems(1,2) that Cons.prems(4) s(2)] canc by blast
  moreover have "if cancelled (snd d, sequence dm) tr then gone (snd d, sequence dm) q' else queued_as d dm q'"
    if d: "queued_as d dm q" for d dm
  proof (cases "CancelTimer (snd d, sequence dm) \<in> set ?as")
    case True
    then have "gone (snd d, sequence dm) q1" using run_actions_queued [OF al Cons.prems(1) d s(2)] by simp
    moreover have "keeps P q1 q'" using run_expired_keeps [OF al keeps_inv [OF k] sub, of script] s(3) by auto
    ultimately show ?thesis using gone_keeps True canc by auto
  next
    case False
    then have "queued_as d dm q1" using run_actions_queued [OF al Cons.prems(1) d s(2)] by simp
    then show ?thesis using conjunct2 [OF IH, rule_format, of d dm] canc False by simp
  qed
  ultimately show ?case by blast
qed (auto simp: cancelled_def)

section \<open>Properties of the timer queue\<close>

lemma queued_expiration:
  "tq_inv q \<Longrightarrow> heap q p = Some tm \<Longrightarrow> p \<in> snd ` set (timers q) \<Longrightarrow> (expiration tm, p) \<in> set (timers q)"
  using tq_inv_D(6) [of q _ p] by auto

lemma handleRead_effects:
  fixes now :: timestamp
  assumes inv: "tq_inv q" and al: "allocator malloc" and P: "idle P q"
    and h: "handleRead_timer malloc script now now' q = Some (tr, q')" and e: "queued_as e tm q"
  shows "if fst e \<le> now
    then if repeats tm \<and> \<not> cancelled (snd e, sequence tm) tr
      then queued_as (addTime now (interval tm), snd e) (restart now tm) q'
      else gone (snd e, sequence tm) q'
    else if cancelled (snd e, sequence tm) tr then gone (snd e, sequence tm) q' else queued_as e tm q'"
proof -
  let ?E = "snd ` set (expired_at now q)" and ?tid = "(snd e, sequence tm)"
  obtain q2 where q2: "run_expired malloc script (expired_at now q) (calling_state now q) = Some (tr, q2)"
      "keeps (P \<union> ?E) (calling_state now q) q2" "tq_inv q'"
      "heap q' = (\<lambda>p. if p \<in> ?E then restarted now q2 p else heap q2 p)"
      "snd ` set (timers q') = snd ` set (timers q2) \<union> {p \<in> ?E. restarted now q2 p \<noteq> None}"
      "numCreated q' = numCreated q2"
    using handleRead_ok [OF inv al P, of script now now'] h by auto
  note eff = run_expired_effects [OF al calling_state_ok [OF inv P] _ _ q2(1)]
  have "numCreated q \<le> numCreated q2" using q2(2) by (simp add: keeps_def)
  then have seq: "sequence tm \<le> numCreated q'"
    using tq_inv_D(2) [OF inv, of "snd e" tm] e q2(6) by (simp add: queued_as_def)
  have mine: "snd e \<in> ?E \<longleftrightarrow> fst e \<le> now"
  proof
    assume "snd e \<in> ?E"
    then obtain w where "(w, snd e) \<in> set (timers q)" "w \<le> now" by (auto simp: expired_at_def)
    then show "fst e \<le> now" using tq_entry_unique [OF inv, of "fst e" "snd e" w] e by (simp add: queued_as_def)
  qed (use e in \<open>auto simp: queued_as_def expired_at_def\<close>)
  show ?thesis
  proof (cases "fst e \<le> now")
    case True
    then have heap2: "heap q2 (snd e) = Some tm" using mine q2(2) e by (simp add: keeps_def queued_as_def)
    have "?tid \<in> cancelingTimers q2 \<longleftrightarrow> cancelled ?tid tr" using eff mine True by simp
    then have r: "restarted now q2 (snd e) = (if repeats tm \<and> \<not> cancelled ?tid tr then Some (restart now tm) else None)"
      by (simp add: restarted_def heap2)
    show ?thesis
    proof (cases "repeats tm \<and> \<not> cancelled ?tid tr")
      case True
      then have hp: "heap q' (snd e) = Some (restart now tm)" "snd e \<in> snd ` set (timers q')"
        using r q2(4,5) mine \<open>fst e \<le> now\<close> by auto
      then have "(addTime now (interval tm), snd e) \<in> set (timers q')"
        using queued_expiration [OF q2(3) hp] True by (simp add: restart_def)
      with hp True \<open>fst e \<le> now\<close> show ?thesis by (simp add: queued_as_def)
    next
      case False
      then show ?thesis using r q2(4) mine True seq by (auto simp: gone_def)
    qed
  next
    case False
    then have other: "snd e \<notin> ?E" using mine by simp
    have "queued_as e tm (calling_state now q)" using e False by (simp add: queued_as_def)
    then have r: "if cancelled ?tid tr then gone ?tid q2 else queued_as e tm q2"
      using conjunct2 [OF eff, rule_format, of e tm] by simp
    have "queued_as e tm q'" if "queued_as e tm q2"
    proof -
      have hp: "heap q' (snd e) = Some tm" "snd e \<in> snd ` set (timers q')"
        using that q2(4,5) other by (auto simp: queued_as_def)
      moreover have "expiration tm = fst e"
        using tq_inv_D(6) [OF inv, of "fst e" "snd e"] e by (auto simp: queued_as_def)
      ultimately show ?thesis using queued_expiration [OF q2(3) hp] by (simp add: queued_as_def)
    qed
    moreover have "gone ?tid q'" if "gone ?tid q2"
      using that other q2(4,6) by (simp add: gone_def)
    ultimately show ?thesis using False r by auto
  qed
qed

text \<open>A system that a queue and its clients can reach.\<close>

definition reachable :: "((nat \<rightharpoonup> 'k timer) \<Rightarrow> nat) \<Rightarrow> ('k \<Rightarrow> 'k timer_queue \<Rightarrow> 'k timer_action list) \<Rightarrow>
    'k timer_system \<Rightarrow> bool" where
  "reachable malloc script st \<longleftrightarrow> (\<exists>ops tr. timer_run malloc script ops (TimerQueue_new, []) = Some (tr, st))"

lemma reachable_inv: "allocator malloc \<Longrightarrow> reachable malloc script st \<Longrightarrow> sys_inv st"
proof -
  assume al: "allocator malloc" and "reachable malloc script st"
  then obtain ops tr where "timer_run malloc script ops (TimerQueue_new, []) = Some (tr, st)"
    by (auto simp: reachable_def)
  then show ?thesis using timer_run_ok [OF al sys_inv_new, of script ops] by auto
qed

text \<open>An allocator that hands out the lowest free address, so that it reuses deleted timers'.\<close>

definition lowest_free :: "(nat \<rightharpoonup> 'k timer) \<Rightarrow> nat" where
  "lowest_free h = (LEAST p. h p = None)"

lemma lowest_free_allocator: "allocator (lowest_free :: (nat \<rightharpoonup> 'k timer) \<Rightarrow> nat)"
proof -
  have "h (lowest_free h) = None" if fin: "finite (dom h)" for h :: "nat \<rightharpoonup> 'k timer"
  proof -
    obtain p where "p \<notin> dom h" using ex_new_if_finite [OF infinite_UNIV_nat fin] by blast
    then show ?thesis unfolding lowest_free_def by (intro LeastI) auto
  qed
  then show ?thesis by (simp add: allocator_def)
qed

text \<open>
  C8. The timer queue never fails: whatever timers are added and cancelled, from other threads, from
  the loop's thread and from callbacks, in any order and with any reuse of memory, no assertion of
  the queue fails and no deleted timer is used.
\<close>

theorem timer_queue_never_fails:
  assumes "allocator malloc"
  shows "\<exists>tr q fs. timer_run malloc script ops (TimerQueue_new, []) = Some (tr, (q, fs)) \<and>
    length (timers q) = card (activeTimers q)"
proof -
  obtain tr st where st: "timer_run malloc script ops (TimerQueue_new, []) = Some (tr, st)" "sys_inv st"
    using timer_run_ok [OF assms sys_inv_new, of script ops] by blast
  obtain q fs where qf: "st = (q, fs)" by fastforce
  then have "sizes_agree q" using st(2) by (simp add: sys_inv_def tq_sizes_agree)
  with st(1) show ?thesis unfolding qf sizes_agree_def by blast
qed

theorem timer_queue_never_fails_witness:
  "\<exists>tr q fs. timer_run lowest_free (\<lambda>k q. [CancelTimer (0, 1), AddTimer 7 k 9 0])
     [ClientAdd ''a'' 5 2, RunFunctor 1, Alarm 6 8, Alarm 10 12] (TimerQueue_new, []) = Some (tr, (q, fs)) \<and>
     length (timers q) = card (activeTimers q)"
  by (rule timer_queue_never_fails [OF lowest_free_allocator])

text \<open>
  C9. An alarm runs exactly the timers that are due, each once, in the order of their expiration.
  Afterwards a due timer that repeats and that no callback cancelled is queued for an interval after
  the alarm; every other due timer is deleted, also one that cancelled itself. A timer that is not
  due stays queued as it was unless a callback cancelled it, and is deleted if one did.
\<close>

theorem alarm_runs_due_timers:
  assumes al: "allocator malloc" and st: "reachable malloc script (q, fs)"
  shows "\<exists>tr q'. handleRead_timer malloc script now now' q = Some (tr, q') \<and>
    map fst tr = map (entry_id q) (filter (\<lambda>e. fst e \<le> now) (timers q)) \<and> sorted (timers q) \<and>
    (\<forall>e tm. queued_as e tm q \<longrightarrow>
      (if fst e \<le> now
       then if repeats tm \<and> \<not> cancelled (snd e, sequence tm) tr
         then queued_as (addTime now (interval tm), snd e) (restart now tm) q'
         else gone (snd e, sequence tm) q'
       else if cancelled (snd e, sequence tm) tr then gone (snd e, sequence tm) q' else queued_as e tm q'))"
proof -
  have inv: "tq_inv q" using reachable_inv [OF assms] by (simp add: sys_inv_def)
  have i: "idle {} q" by (simp add: idle_def)
  obtain tr q' where h: "handleRead_timer malloc script now now' q = Some (tr, q')"
      "map fst tr = map (entry_id q) (expired_at now q)"
    using handleRead_ok [OF inv al i, of script now now'] by blast
  then show ?thesis
    using handleRead_effects [OF inv al i h(1)] tq_inv_D(3) [OF inv] unfolding expired_at_def by blast
qed


text \<open>A reachable queue with one repeating timer.\<close>

lemma one_timer_reachable:
  "\<exists>q. reachable lowest_free script (q, []) \<and> timers q = [(5, 0)] \<and> activeTimers q = {(0, 1)} \<and>
     heap q = [0 \<mapsto> Timer_new k 5 2 1]"
proof -
  have "lowest_free (\<lambda>p. None :: 'a timer option) = 0" by (simp add: lowest_free_def Least_eq_0)
  then have "\<exists>q. timer_run lowest_free script [ClientAdd k 5 2, RunFunctor 1] (TimerQueue_new, []) = Some ([], (q, [])) \<and>
      timers q = [(5, 0)] \<and> activeTimers q = {(0, 1)} \<and> heap q = [0 \<mapsto> Timer_new k 5 2 1]"
    by (simp add: addTimer_create_def TimerQueue_new_def addTimerInLoop_def insert_timer_def sizes_agree_def
        Timer_new_def alarm_resetTimerfd)
  then show ?thesis unfolding reachable_def by blast
qed

theorem alarm_runs_due_timers_witness:
  "\<exists>q tr q'. reachable lowest_free (\<lambda>(_ :: string) _. []) (q, []) \<and> timers q = [(5, 0)] \<and>
     handleRead_timer lowest_free (\<lambda>_ _. []) 6 8 q = Some (tr, q') \<and> map fst tr = [(0, 1)] \<and>
     (cancelled (0, 1) tr \<or> (2000006, 0) \<in> set (timers q'))"
proof -
  obtain q where q: "reachable lowest_free (\<lambda>_ _. []) (q, [])" "timers q = [(5, 0)]" "heap q = [0 \<mapsto> Timer_new ''a'' 5 2 1]"
    using one_timer_reachable [of "\<lambda>_ _. []" "''a''"] by (elim exE conjE) (rule that)
  define tm where "tm = Timer_new ''a'' 5 2 1"
  have e: "queued_as (5, 0) tm q" using q by (simp add: queued_as_def tm_def)
  have add: "addTime 6 2 = 2000006" by (simp add: addTime_def trunc_cast_def kMicroSecondsPerSecond_def)
  obtain tr q' where h: "handleRead_timer lowest_free (\<lambda>_ _. []) 6 8 q = Some (tr, q')"
      "map fst tr = map (entry_id q) (filter (\<lambda>e. fst e \<le> 6) (timers q))"
      "\<forall>e tm. queued_as e tm q \<longrightarrow>
      (if fst e \<le> 6
       then if repeats tm \<and> \<not> cancelled (snd e, sequence tm) tr
         then queued_as (addTime 6 (interval tm), snd e) (restart 6 tm) q'
         else gone (snd e, sequence tm) q'
       else if cancelled (snd e, sequence tm) tr then gone (snd e, sequence tm) q' else queued_as e tm q')"
    using alarm_runs_due_timers [OF lowest_free_allocator q(1), of 6 8] by (elim exE conjE) (rule that)
  have "cancelled (0, 1) tr \<or> (2000006, 0) \<in> set (timers q')"
    using h(3) [rule_format, OF e] add
    by (cases "cancelled (0, 1) tr") (simp_all add: queued_as_def tm_def Timer_new_def)
  moreover have "map fst tr = [(0, 1)]" using h(2) q by (simp add: entry_id_def Timer_new_def)
  ultimately show ?thesis using q(1,2) h(1) by (intro exI conjI)
qed


section \<open>The alarm is set\<close>

text \<open>The timerfd is due no later than the earliest timer, or 100 microseconds after the clock.\<close>

definition armed :: "timestamp \<Rightarrow> 'k timer_queue \<Rightarrow> bool" where
  "armed now q \<longleftrightarrow> timers q = [] \<or> (\<exists>a. alarm q = Some a \<and> a \<le> max (fst (hd (timers q))) (now + 100))"

definition all_good :: "'k timer_queue \<Rightarrow> bool" where
  "all_good q \<longleftrightarrow> (\<forall>p tm. heap q p = Some tm \<longrightarrow> 0 < expiration tm \<and> (repeats tm \<longrightarrow> 0 < interval tm))"

lemma hd_insort: "fst (hd (insort (t, p :: nat) ts)) = (if ts = [] \<or> t < fst (hd ts) then t else fst (hd ts))" for t :: int
  by (cases ts) (auto simp: less_eq_prod_def)

lemma hd_remove1: "sorted ts \<Longrightarrow> remove1 x ts \<noteq> [] \<Longrightarrow> fst (hd ts) \<le> fst (hd (remove1 x ts))" for ts :: "timer_entry list"
proof -
  assume s: "sorted ts" and ne: "remove1 x ts \<noteq> []"
  have "hd (remove1 x ts) \<in> set ts" 
    by (rule subsetD [OF set_remove1_subset hd_in_set [OF ne]])
  moreover have "hd ts \<le> e" if "e \<in> set ts" for e using s that by (cases ts) auto
  ultimately have "hd ts \<le> hd (remove1 x ts)" by blast
  then show ?thesis unfolding less_eq_prod_def by linarith
qed

lemma armed_with_timer:
  assumes "armed c q" "c \<le> now"
  shows "armed now ((with_timer p tm q)\<lparr>alarm := if earliest_changed tm q then Some (max (expiration tm) (now + 100)) else alarm q\<rparr>)"
  using assms by (fastforce simp: armed_def with_timer_def earliest_changed_def hd_insort)

lemma cancel_armed:
  assumes inv: "tq_inv q" and a: "armed c q" and g: "all_good q" and r: "cancelInLoop tid q = Some q'"
  shows "armed c q' \<and> all_good q'"
proof (cases rule: cancelInLoop_cases [OF inv, of tid, case_names active canceling absent])
  case (active tm)
  then have q': "q' = without_timer tid tm q" using r by simp
  have "armed c q'"
    using a hd_remove1 [OF tq_inv_D(3) [OF inv], of "(expiration tm, fst tid)"]
    by (fastforce simp: armed_def q' without_timer_def)
  with g show ?thesis by (auto simp: all_good_def q' without_timer_def)
qed (use a g r in \<open>auto simp: armed_def all_good_def\<close>)

lemma addTimer_armed:
  assumes inv: "tq_inv q" and al: "allocator malloc" and g: "all_good q" and w: "0 < w"
    and r: "addTimer malloc now cb w itv q = Some (tid, q')"
  shows "all_good q' \<and> (\<forall>c\<le>now. armed c q \<longrightarrow> armed now q')"
proof -
  obtain p s q1 where c: "addTimer_create malloc cb w itv q = ((p, s), q1)" by (metis prod.exhaust)
  note n = addTimer_create_ok [OF inv al c]
  define tm where "tm = Timer_new cb w itv s"
  have tm: "heap q1 p = Some tm" using n by (simp add: tm_def)
  have q': "q' = (with_timer p tm q1)\<lparr>alarm := if earliest_changed tm q1 then Some (max (expiration tm) (now + 100)) else alarm q1\<rparr>"
    using r c addTimerInLoop_ok [of q1 p tm now] n tm by (simp add: addTimer_def)
  have "all_good q1" using g n w by (auto simp: all_good_def Timer_new_def)
  moreover have "armed c q \<Longrightarrow> armed c q1" for c using n by (simp add: armed_def)
  ultimately have "all_good q'" "\<And>c. c \<le> now \<Longrightarrow> armed c q \<Longrightarrow> armed now q'"
    using armed_with_timer [where q = q1 and now = now and p = p and tm = tm] unfolding q'
    by (simp add: all_good_def with_timer_def, blast)
  then show ?thesis by blast
qed

fun action_ok :: "'k timer_action \<Rightarrow> bool" where
  "action_ok (AddTimer now cb w itv) \<longleftrightarrow> 0 < w"
| "action_ok (CancelTimer tid) \<longleftrightarrow> True"

lemma run_actions_good:
  assumes al: "allocator malloc"
  shows "tq_inv q \<Longrightarrow> all_good q \<Longrightarrow> list_all action_ok as \<Longrightarrow> run_actions malloc as q = Some q' \<Longrightarrow> all_good q'"
proof (induction as arbitrary: q)
  case (Cons a as)
  obtain q1 where q1: "run_actions malloc [a] q = Some q1" "run_actions malloc as q1 = Some q'" "tq_inv q1"
    using run_actions_step [OF al Cons.prems(1,4)] by blast
  have "all_good q1"
  proof (cases a)
    case (AddTimer now cb w itv)
    then obtain tid where add: "addTimer malloc now cb w itv q = Some (tid, q1)"
      using q1(1) by (auto simp: bind_eq_Some_conv)
    show ?thesis using addTimer_armed [OF Cons.prems(1) al Cons.prems(2) _ add] Cons.prems(3) AddTimer by simp
  next
    case (CancelTimer tid)
    then have c: "cancelInLoop tid q = Some q1" using q1(1) by (auto simp: bind_eq_Some_conv)
    show ?thesis
      by (cases rule: cancelInLoop_cases [OF Cons.prems(1), of tid])
        (use c Cons.prems(2) in \<open>auto simp: all_good_def without_timer_def\<close>)
  qed
  then show ?case using Cons.IH [OF q1(3) _ _ q1(2)] Cons.prems(3) by simp
qed simp

lemma run_expired_good:
  assumes al: "allocator malloc" and sc: "\<And>k q. list_all action_ok (script k q)"
  shows "tq_inv q \<Longrightarrow> all_good q \<Longrightarrow> run_expired malloc script es q = Some (tr, q') \<Longrightarrow> all_good q'"
proof (induction es arbitrary: q tr)
  case (Cons e es)
  obtain t p where e: "e = (t, p)" by fastforce
  obtain tm q1 tr1 where s: "heap q p = Some tm" "run_actions malloc (script (callback tm) q) q = Some q1"
      "run_expired malloc script es q1 = Some (tr1, q')" "tr = ((p, sequence tm), script (callback tm) q) # tr1"
    using run_expired_cons Cons.prems(3) [unfolded e] .
  obtain q1' where "run_actions malloc (script (callback tm) q) q = Some q1'" "keeps {} q q1'"
    using run_actions_keeps [OF al Cons.prems(1), of "{}" "script (callback tm) q"] by (auto simp: idle_def)
  then have "tq_inv q1" using s(2) keeps_inv(1) by auto
  then show ?case
    using Cons.IH [OF _ _ s(3)] run_actions_good [OF al Cons.prems(1,2) sc s(2)] by simp
qed simp

lemma handleRead_armed:
  assumes inv: "tq_inv q" and al: "allocator malloc" and sc: "\<And>k q. list_all action_ok (script k q)"
    and g: "all_good q" and now: "0 < now" and h: "handleRead_timer malloc script now now' q = Some (tr, q')"
  shows "all_good q' \<and> armed now' q'"
proof -
  have i: "idle {} q" by (simp add: idle_def)
  obtain q2 where q2: "run_expired malloc script (expired_at now q) (calling_state now q) = Some (tr, q2)" "tq_inv q'"
      "heap q' = (\<lambda>p. if p \<in> snd ` set (expired_at now q) then restarted now q2 p else heap q2 p)"
      "timers q' \<noteq> [] \<longrightarrow> 0 < fst (hd (timers q')) \<longrightarrow> alarm q' = Some (max (fst (hd (timers q'))) (now' + 100))"
    using handleRead_ok [OF inv al i, of script now now'] h by auto
  have "all_good (calling_state now q)" using g by (simp add: all_good_def)
  then have g2: "all_good q2"
    using run_expired_good [OF al sc calling_state_ok(1) [OF inv i] _ q2(1)] by blast
  have "0 < expiration (restart now tm) \<and> (repeats (restart now tm) \<longrightarrow> 0 < interval (restart now tm))"
    if "heap q2 p = Some tm" "repeats tm" for p tm
    using that g2 now addTime_ge [of "interval tm" now] by (fastforce simp: all_good_def restart_def)
  then have "all_good q'"
    using g2 by (auto simp: all_good_def q2(3) restarted_def split: option.splits if_splits)
  moreover have "0 < fst (hd (timers q'))" if ne: "timers q' \<noteq> []"
  proof -
    obtain t p where e: "hd (timers q') = (t, p)" by fastforce
    then obtain tm where "heap q' p = Some tm" "expiration tm = t"
      using tq_inv_D(6) [OF q2(2), of t p] hd_in_set [OF ne] by auto
    then show ?thesis using \<open>all_good q'\<close> e by (auto simp: all_good_def)
  qed
  ultimately show ?thesis using q2(4) by (auto simp: armed_def)
qed

text \<open>Operations on a clock that does not go back, with timers scheduled at valid times.\<close>

fun op_clock :: "timestamp \<Rightarrow> 'k timer_op \<Rightarrow> timestamp" where
  "op_clock c (ClientAdd cb w itv) = c"
| "op_clock c (ClientCancel tid) = c"
| "op_clock c (RunFunctor now) = now"
| "op_clock c (LoopAction (AddTimer now cb w itv)) = now"
| "op_clock c (LoopAction (CancelTimer tid)) = c"
| "op_clock c (Alarm now now') = now'"

fun op_ok :: "'k timer_op \<Rightarrow> bool" where
  "op_ok (ClientAdd cb w itv) \<longleftrightarrow> 0 < w"
| "op_ok (LoopAction a) \<longleftrightarrow> action_ok a"
| "op_ok (Alarm now now') \<longleftrightarrow> 0 < now"
| "op_ok _ \<longleftrightarrow> True"

fun timed :: "timestamp \<Rightarrow> 'k timer_op list \<Rightarrow> bool" where
  "timed c [] \<longleftrightarrow> True"
| "timed c (op # ops) \<longleftrightarrow> c \<le> op_clock c op \<and> op_ok op \<and> timed (op_clock c op) ops"

lemma armed_step:
  assumes al: "allocator malloc" and sc: "\<And>k q. list_all action_ok (script k q)" and inv: "sys_inv (q, fs)"
    and g: "all_good q" "armed c q" and op: "c \<le> op_clock c op" "op_ok op"
    and s: "timer_step malloc script op (q, fs) = Some (r, (q', fs'))"
  shows "all_good q' \<and> armed (op_clock c op) q'"
proof -
  have q: "tq_inv q" "idle (set (pending_adds fs)) q" using inv by (auto simp: sys_inv_def)
  show ?thesis
  proof (cases op)
    case (ClientAdd cb w itv)
    obtain p sq q1 where cr: "addTimer_create malloc cb w itv q = ((p, sq), q1)" by (metis prod.exhaust)
    note n = addTimer_create_ok [OF q(1) al cr]
    have "q' = q1" using s ClientAdd cr by simp
    then show ?thesis using n g op ClientAdd by (auto simp: all_good_def armed_def Timer_new_def)
  next
    case (ClientCancel tid)
    then show ?thesis using s g by simp
  next
    case (RunFunctor now)
    show ?thesis
    proof (cases fs)
      case Nil
      then show ?thesis using s g op RunFunctor by (fastforce simp: armed_def)
    next
      case (Cons f rest)
      show ?thesis
      proof (cases f)
        case (AddInLoop p)
        then have "idle {p} q" "p \<in> dom (heap q)" using Cons q(2) by (auto simp: idle_def)
        then obtain tm where tm: "heap q p = Some tm" "idle {p} q" by blast
        have "q' = (with_timer p tm q)\<lparr>alarm := if earliest_changed tm q then Some (max (expiration tm) (now + 100)) else alarm q\<rparr>"
          using s RunFunctor Cons AddInLoop addTimerInLoop_ok [OF q(1) tm, of now] by simp
        then show ?thesis
          using armed_with_timer [OF g(2), of now] op g(1) RunFunctor by (simp add: all_good_def with_timer_def)
      next
        case (CancelInLoop tid)
        then have "cancelInLoop tid q = Some q'" using s RunFunctor Cons by (auto simp: bind_eq_Some_conv)
        then show ?thesis using cancel_armed [OF q(1) g(2,1)] op RunFunctor by (fastforce simp: armed_def)
      qed
    qed
  next
    case (LoopAction a)
    then have ra: "run_actions malloc [a] q = Some q'" using s by (auto simp: bind_eq_Some_conv)
    show ?thesis
    proof (cases a)
      case (AddTimer now cb w itv)
      then obtain tid where add: "addTimer malloc now cb w itv q = Some (tid, q')"
        using ra by (auto simp: bind_eq_Some_conv)
      show ?thesis
        using addTimer_armed [OF q(1) al g(1) _ add] g(2) op LoopAction AddTimer by auto
    next
      case (CancelTimer tid)
      then have "cancelInLoop tid q = Some q'" using ra by (auto simp: bind_eq_Some_conv)
      then show ?thesis using cancel_armed [OF q(1) g(2,1)] LoopAction CancelTimer by simp
    qed
  next
    case (Alarm now now')
    then have h: "handleRead_timer malloc script now now' q = Some (r, q')" using s by (auto simp: bind_eq_Some_conv)
    show ?thesis using handleRead_armed [OF q(1) al sc g(1) _ h] op Alarm by simp
  qed
qed

lemma armed_run:
  assumes al: "allocator malloc" and sc: "\<And>k q. list_all action_ok (script k q)"
  shows "sys_inv st \<Longrightarrow> all_good (fst st) \<Longrightarrow> armed c (fst st) \<Longrightarrow> timed c ops \<Longrightarrow>
    timer_run malloc script ops st = Some (tr, st') \<Longrightarrow> armed (foldl op_clock c ops) (fst st')"
proof (induction ops arbitrary: st c tr)
  case (Cons op ops)
  obtain q fs where st: "st = (q, fs)" by fastforce
  obtain r1 st1 where s1: "timer_step malloc script op st = Some (r1, st1)" "sys_inv st1"
    using timer_step_ok [OF al Cons.prems(1)] by blast
  obtain q1 fs1 where st1: "st1 = (q1, fs1)" by fastforce
  have "all_good (fst st1) \<and> armed (op_clock c op) (fst st1)"
    using armed_step [OF al sc, where q = q and fs = fs and c = c and op = op and r = r1 and q' = q1 and fs' = fs1] Cons.prems s1 by (simp add: st st1)
  moreover obtain tr2 where "timer_run malloc script ops st1 = Some (tr2, st')"
    using Cons.prems(5) s1(1) by (auto simp: bind_eq_Some_conv)
  ultimately show ?case using Cons.IH [OF s1(2)] Cons.prems(4) by auto
qed simp



end
