(* ===== verification/Net_EventLoop.thy ===== *)
theory Net_EventLoop
  imports Net_Poller Net_Timer
begin

text \<open>
  The event loop (\<^verbatim>\<open>muduo/net/EventLoop.h\<close>, \<^verbatim>\<open>EventLoop.cc\<close>). The first part is the loop as the code of
  its own thread sees it: the state of an \<^verbatim>\<open>EventLoop\<close>, with its poller and the store of its channels,
  and one function per member function. The calling thread is an argument of the functions that
  compare it with \<^verbatim>\<open>threadId_\<close>. What callbacks and functors do is the parameter \<open>exec\<close>, a function on
  the state of the loop. The second part is the protocol between the threads that queue functors or
  quit and the loop, as a step relation whose steps are the atomic actions of the code.
\<close>

section \<open>The state of a loop\<close>

definition kPollTimeMs :: int where
  "kPollTimeMs = 10000"

record ('c, 'f) event_loop =
  self :: nat
  looping :: bool
  quit_flag :: bool
  el_eventHandling :: bool
  callingPendingFunctors :: bool
  threadId :: int
  pollReturnTime :: timestamp
  loop_poller :: poller
  channels :: "'c store"
  wakeupFd :: int
  wakeupChannel :: nat
  wakeups :: nat
  activeChannels :: "nat list"
  currentActiveChannel :: "nat option"
  pendingFunctors :: "'f list"

definition isInLoopThread :: "int \<Rightarrow> ('c, 'f) event_loop \<Rightarrow> bool" where
  "isInLoopThread tid l \<longleftrightarrow> threadId l = tid"

text \<open>\<^verbatim>\<open>assertInLoopThread\<close>: \<^verbatim>\<open>abortNotInLoopThread\<close> is fatal.\<close>

definition assertInLoopThread :: "int \<Rightarrow> ('c, 'f) event_loop \<Rightarrow> unit option" where
  "assertInLoopThread tid l = check (isInLoopThread tid l)"

definition EventLoop_updateChannel :: "int \<Rightarrow> nat \<Rightarrow> ('c, 'f) event_loop \<Rightarrow> ('c, 'f) event_loop option" where
  "EventLoop_updateChannel tid c l =
     do {
       ch \<leftarrow> channels l c;
       check (ownerLoop ch = self l);
       assertInLoopThread tid l;
       (p, s) \<leftarrow> Poller_updateChannel c (loop_poller l, channels l);
       Some (l\<lparr>loop_poller := p, channels := s\<rparr>)
     }"

definition EventLoop_removeChannel :: "int \<Rightarrow> nat \<Rightarrow> ('c, 'f) event_loop \<Rightarrow> ('c, 'f) event_loop option" where
  "EventLoop_removeChannel tid c l =
     do {
       ch \<leftarrow> channels l c;
       check (ownerLoop ch = self l);
       assertInLoopThread tid l;
       check (el_eventHandling l \<longrightarrow>
         currentActiveChannel l = Some c \<or> c \<notin> set (activeChannels l));
       (p, s) \<leftarrow> Poller_removeChannel c (loop_poller l, channels l);
       Some (l\<lparr>loop_poller := p, channels := s\<rparr>)
     }"

text \<open>
  \<^verbatim>\<open>Channel::update\<close> after a change of the mask (\<^verbatim>\<open>enableReading\<close> and its siblings), and \<^verbatim>\<open>Channel::remove\<close>.
\<close>

definition Channel_update :: "int \<Rightarrow> event_change \<Rightarrow> nat \<Rightarrow> ('c, 'f) event_loop \<Rightarrow> ('c, 'f) event_loop option" where
  "Channel_update tid x c l =
     do {
       ch \<leftarrow> channels l c;
       EventLoop_updateChannel tid c (l\<lparr>channels := (channels l)(c \<mapsto> apply_change x ch)\<rparr>)
     }"

definition Channel_remove :: "int \<Rightarrow> nat \<Rightarrow> ('c, 'f) event_loop \<Rightarrow> ('c, 'f) event_loop option" where
  "Channel_remove tid c l =
     do {
       ch \<leftarrow> channels l c;
       check (isNoneEvent ch);
       EventLoop_removeChannel tid c l
     }"

text \<open>
  The constructor, in the thread \<open>tid\<close>; \<open>existing\<close> is \<^verbatim>\<open>t_loopInThisThread\<close>. The timer queue's channel
  \<open>timerCh\<close> and the wakeup channel \<open>wakeCh\<close> are created on the descriptors \<^verbatim>\<open>timerfd_create\<close> and \<^verbatim>\<open>eventfd\<close>
  returned, \<open>timerCb\<close> and \<open>wakeCb\<close> are \<^verbatim>\<open>TimerQueue::handleRead\<close> and \<^verbatim>\<open>EventLoop::handleRead\<close>. A
  second loop in the thread is fatal.
\<close>

definition EventLoop_new :: "bool \<Rightarrow> nat option \<Rightarrow> nat \<Rightarrow> int \<Rightarrow> nat \<Rightarrow> int \<Rightarrow> 'c \<Rightarrow> nat \<Rightarrow> int \<Rightarrow> 'c \<Rightarrow>
    ('c, 'f) event_loop option" where
  "EventLoop_new use_poll existing this tid timerCh timerfd timerCb wakeCh wakeFd wakeCb =
     do {
       let l0 = \<lparr>self = this, looping = False, quit_flag = False, el_eventHandling = False,
                 callingPendingFunctors = False, threadId = tid, pollReturnTime = Timestamp_invalid,
                 loop_poller = newDefaultPoller use_poll,
                 channels = [timerCh \<mapsto> setReadCallback (Channel_new this timerfd) timerCb],
                 wakeupFd = wakeFd, wakeupChannel = wakeCh, wakeups = 0, activeChannels = [],
                 currentActiveChannel = None, pendingFunctors = []\<rparr>;
       l1 \<leftarrow> Channel_update tid EnableReading timerCh l0;
       check (existing = None);
       let l2 = l1\<lparr>channels := (channels l1)(wakeCh \<mapsto> setReadCallback (Channel_new this wakeFd) wakeCb)\<rparr>;
       Channel_update tid EnableReading wakeCh l2
     }"

section \<open>Waking up and queueing\<close>

text \<open>The eventfd is its counter: \<^verbatim>\<open>wakeup\<close> adds one, \<^verbatim>\<open>handleRead\<close> reads it and sets it to zero.\<close>

definition wakeup :: "('c, 'f) event_loop \<Rightarrow> ('c, 'f) event_loop" where
  "wakeup l = l\<lparr>wakeups := wakeups l + 1\<rparr>"

definition EventLoop_handleRead :: "('c, 'f) event_loop \<Rightarrow> ('c, 'f) event_loop" where
  "EventLoop_handleRead l = l\<lparr>wakeups := 0\<rparr>"

definition queueInLoop :: "int \<Rightarrow> 'f \<Rightarrow> ('c, 'f) event_loop \<Rightarrow> ('c, 'f) event_loop" where
  "queueInLoop tid cb l =
     (let l1 = l\<lparr>pendingFunctors := pendingFunctors l @ [cb]\<rparr>
      in if \<not> isInLoopThread tid l \<or> callingPendingFunctors l then wakeup l1 else l1)"

definition runInLoop :: "('f \<Rightarrow> ('c, 'f) event_loop \<Rightarrow> ('c, 'f) event_loop option) \<Rightarrow> int \<Rightarrow> 'f \<Rightarrow>
    ('c, 'f) event_loop \<Rightarrow> ('c, 'f) event_loop option" where
  "runInLoop exec tid cb l =
     (if isInLoopThread tid l then exec cb l else Some (queueInLoop tid cb l))"

definition quit :: "int \<Rightarrow> ('c, 'f) event_loop \<Rightarrow> ('c, 'f) event_loop" where
  "quit tid l =
     (let l1 = l\<lparr>quit_flag := True\<rparr> in if \<not> isInLoopThread tid l then wakeup l1 else l1)"

fun run_functors :: "('f \<Rightarrow> ('c, 'f) event_loop \<Rightarrow> ('c, 'f) event_loop option) \<Rightarrow> 'f list \<Rightarrow>
    ('c, 'f) event_loop \<Rightarrow> ('c, 'f) event_loop option" where
  "run_functors exec [] l = Some l"
| "run_functors exec (f # fs) l = do { l1 \<leftarrow> exec f l; run_functors exec fs l1 }"

definition doPendingFunctors :: "('f \<Rightarrow> ('c, 'f) event_loop \<Rightarrow> ('c, 'f) event_loop option) \<Rightarrow>
    ('c, 'f) event_loop \<Rightarrow> ('c, 'f) event_loop option" where
  "doPendingFunctors exec l =
     do {
       let functors = pendingFunctors l;
       l1 \<leftarrow> run_functors exec functors (l\<lparr>callingPendingFunctors := True, pendingFunctors := []\<rparr>);
       Some (l1\<lparr>callingPendingFunctors := False\<rparr>)
     }"

text \<open>Timers of the loop, in its own thread; \<open>now\<close> is the clock.\<close>

definition runAt :: "((nat \<rightharpoonup> 'k timer) \<Rightarrow> nat) \<Rightarrow> timestamp \<Rightarrow> timestamp \<Rightarrow> 'k \<Rightarrow> 'k timer_queue \<Rightarrow>
    (timer_id \<times> 'k timer_queue) option" where
  "runAt malloc now time cb q = addTimer malloc now cb time 0 q"

definition runAfter :: "((nat \<rightharpoonup> 'k timer) \<Rightarrow> nat) \<Rightarrow> timestamp \<Rightarrow> rat \<Rightarrow> 'k \<Rightarrow> 'k timer_queue \<Rightarrow>
    (timer_id \<times> 'k timer_queue) option" where
  "runAfter malloc now delay cb q = runAt malloc now (addTime now delay) cb q"

definition runEvery :: "((nat \<rightharpoonup> 'k timer) \<Rightarrow> nat) \<Rightarrow> timestamp \<Rightarrow> rat \<Rightarrow> 'k \<Rightarrow> 'k timer_queue \<Rightarrow>
    (timer_id \<times> 'k timer_queue) option" where
  "runEvery malloc now itv cb q = addTimer malloc now cb (addTime now itv) itv q"

section \<open>Polling and dispatching\<close>

text \<open>
  What the poller's system call returned: \<open>ew\<close> is used by the epoll poller, \<open>pw\<close> by the poll one.
\<close>

definition Poller_poll :: "(32 word \<times> nat) list option \<Rightarrow> (nat \<times> 16 word list) option \<Rightarrow>
    poller \<times> 'c store \<Rightarrow> ((poller \<times> 'c store) \<times> nat list) option" where
  "Poller_poll ew pw = (\<lambda>(p, s).
     (case p of
        EPollPoller ep \<Rightarrow> map_option (apfst (apfst EPollPoller)) (EPoll_poll ew (ep, s))
      | PollPoller pp \<Rightarrow> map_option (apfst (apfst PollPoller)) (Poll_poll pw (pp, s))))"

fun run_calls :: "('c call \<Rightarrow> ('c, 'f) event_loop \<Rightarrow> ('c, 'f) event_loop option) \<Rightarrow> 'c call list \<Rightarrow>
    ('c, 'f) event_loop \<Rightarrow> ('c, 'f) event_loop option" where
  "run_calls exec [] l = Some l"
| "run_calls exec (k # ks) l = do { l1 \<leftarrow> exec k l; run_calls exec ks l1 }"

definition set_eventHandling :: "bool \<Rightarrow> nat \<Rightarrow> ('c, 'f) event_loop \<Rightarrow> ('c, 'f) event_loop option" where
  "set_eventHandling b c l =
     do {
       ch \<leftarrow> channels l c;
       Some (l\<lparr>channels := (channels l)(c \<mapsto> ch\<lparr>eventHandling := b\<rparr>)\<rparr>)
     }"

text \<open>
  \<^verbatim>\<open>handleEvent\<close> of an active channel, with the flag that the destructor of the channel asserts.
  \<open>alive l\<close> says which tied objects are alive; the calls come from \<^const>\<open>handleEvent\<close>.
\<close>

definition dispatch :: "(('c, 'f) event_loop \<Rightarrow> nat \<Rightarrow> bool) \<Rightarrow>
    ('c call \<Rightarrow> ('c, 'f) event_loop \<Rightarrow> ('c, 'f) event_loop option) \<Rightarrow> nat \<Rightarrow>
    ('c, 'f) event_loop \<Rightarrow> ('c, 'f) event_loop option" where
  "dispatch alive exec c l =
     do {
       ch \<leftarrow> channels l c;
       (if tied ch \<and> \<not> (case tie ch of None \<Rightarrow> False | Some obj \<Rightarrow> alive l obj)
        then Some l
        else do {
          l1 \<leftarrow> set_eventHandling True c l;
          l2 \<leftarrow> run_calls exec (handleEvent (alive l) ch (pollReturnTime l)) l1;
          set_eventHandling False c l2
        })
     }"

fun dispatch_all :: "(('c, 'f) event_loop \<Rightarrow> nat \<Rightarrow> bool) \<Rightarrow>
    ('c call \<Rightarrow> ('c, 'f) event_loop \<Rightarrow> ('c, 'f) event_loop option) \<Rightarrow> nat list \<Rightarrow>
    ('c, 'f) event_loop \<Rightarrow> ('c, 'f) event_loop option" where
  "dispatch_all alive exec [] l = Some l"
| "dispatch_all alive exec (c # cs) l =
     do {
       l1 \<leftarrow> dispatch alive exec c (l\<lparr>currentActiveChannel := Some c\<rparr>);
       dispatch_all alive exec cs l1
     }"

text \<open>One turn of the loop; \<open>input\<close> is what the wait returned and when.\<close>

type_synonym wait_input = "timestamp \<times> (32 word \<times> nat) list option \<times> (nat \<times> 16 word list) option"

definition loop_iteration :: "(('c, 'f) event_loop \<Rightarrow> nat \<Rightarrow> bool) \<Rightarrow>
    ('c call \<Rightarrow> ('c, 'f) event_loop \<Rightarrow> ('c, 'f) event_loop option) \<Rightarrow>
    ('f \<Rightarrow> ('c, 'f) event_loop \<Rightarrow> ('c, 'f) event_loop option) \<Rightarrow> wait_input \<Rightarrow>
    ('c, 'f) event_loop \<Rightarrow> ('c, 'f) event_loop option" where
  "loop_iteration alive exec_call exec_functor = (\<lambda>(now, ew, pw) l.
     do {
       ((p, s), active) \<leftarrow> Poller_poll ew pw (loop_poller l, channels l);
       let l1 = l\<lparr>loop_poller := p, channels := s, activeChannels := active, pollReturnTime := now,
                  el_eventHandling := True\<rparr>;
       l2 \<leftarrow> dispatch_all alive exec_call active l1;
       doPendingFunctors exec_functor (l2\<lparr>currentActiveChannel := None, el_eventHandling := False\<rparr>)
     })"

text \<open>The \<^verbatim>\<open>while\<close> of \<^verbatim>\<open>loop\<close>: one input per wait, until \<^verbatim>\<open>quit_\<close> is seen or the inputs end.\<close>

fun loop_while :: "(('c, 'f) event_loop \<Rightarrow> nat \<Rightarrow> bool) \<Rightarrow>
    ('c call \<Rightarrow> ('c, 'f) event_loop \<Rightarrow> ('c, 'f) event_loop option) \<Rightarrow>
    ('f \<Rightarrow> ('c, 'f) event_loop \<Rightarrow> ('c, 'f) event_loop option) \<Rightarrow> wait_input list \<Rightarrow>
    ('c, 'f) event_loop \<Rightarrow> ('c, 'f) event_loop option" where
  "loop_while alive ec ef inputs l =
     (if quit_flag l then Some (l\<lparr>looping := False\<rparr>)
      else case inputs of [] \<Rightarrow> Some l
        | i # is \<Rightarrow> do { l1 \<leftarrow> loop_iteration alive ec ef i l; loop_while alive ec ef is l1 })"

definition loop :: "(('c, 'f) event_loop \<Rightarrow> nat \<Rightarrow> bool) \<Rightarrow>
    ('c call \<Rightarrow> ('c, 'f) event_loop \<Rightarrow> ('c, 'f) event_loop option) \<Rightarrow>
    ('f \<Rightarrow> ('c, 'f) event_loop \<Rightarrow> ('c, 'f) event_loop option) \<Rightarrow> int \<Rightarrow> wait_input list \<Rightarrow>
    ('c, 'f) event_loop \<Rightarrow> ('c, 'f) event_loop option" where
  "loop alive ec ef tid inputs l =
     do {
       check (\<not> looping l);
       assertInLoopThread tid l;
       loop_while alive ec ef inputs (l\<lparr>looping := True, quit_flag := False\<rparr>)
     }"

section \<open>Construction\<close>

lemmas loop_channel_simps = Channel_update_def EventLoop_updateChannel_def Poller_updateChannel_def
  EPoll_updateChannel_def EPoll_update_def epoll_ctl_def assertInLoopThread_def isInLoopThread_def

text \<open>
  A new loop listens to itself: with the epoll poller the constructor succeeds exactly when its
  thread has no loop yet, and it leaves the timerfd and the eventfd registered and watched for
  reading, with the timer queue's and the loop's own handlers as the read callbacks.
\<close>

theorem EventLoop_new_watches:
  assumes "timerCh \<noteq> wakeCh" "timerfd \<noteq> wakeFd"
  shows "case EventLoop_new False existing this tid timerCh timerfd timerCb wakeCh wakeFd wakeCb of
      None \<Rightarrow> existing \<noteq> None
    | Some l \<Rightarrow> existing = None \<and> (\<exists>ep ch1 ch2. loop_poller l = EPollPoller ep \<and>
        ep_channels ep = [timerfd \<mapsto> timerCh, wakeFd \<mapsto> wakeCh] \<and>
        ep_watch ep timerfd = kReadEvent \<and> ep_watch ep wakeFd = kReadEvent \<and>
        channels l timerCh = Some ch1 \<and> readCallback ch1 = Some timerCb \<and>
        channels l wakeCh = Some ch2 \<and> readCallback ch2 = Some wakeCb)"
  using assms
  by (cases existing) (simp_all add: EventLoop_new_def loop_channel_simps newDefaultPoller_def EPollPoller_new_def
      Channel_new_def setReadCallback_def kNew_def set_index_def ep_watch_def fun_upd_twist event_bits Let_def)

theorem EventLoop_new_watches_witness:
  "\<exists>l :: (string, string) event_loop. EventLoop_new False None 0 77 1 3 ''timer'' 2 4 ''wakeup'' = Some l \<and>
     (\<exists>ep. loop_poller l = EPollPoller ep \<and> ep_watch ep 3 = kReadEvent \<and> ep_watch ep 4 = kReadEvent)"
proof -
  have "1 \<noteq> (2 :: nat)" "3 \<noteq> (4 :: int)" by simp_all
  note w = EventLoop_new_watches [OF this, where existing = None and this = 0 and tid = 77 and
      timerCb = "''timer''" and wakeCb = "''wakeup''"]
  then show ?thesis by (auto split: option.splits)
qed

end
