(* ===== verification/Net_LoopProtocol.thy ===== *)
theory Net_LoopProtocol
  imports Net_EventLoop
begin

text \<open>
  The protocol between a loop and the threads that use it (\<^verbatim>\<open>queueInLoop\<close>, \<^verbatim>\<open>quit\<close>, \<^verbatim>\<open>wakeup\<close>, \<^verbatim>\<open>loop\<close>,
  \<^verbatim>\<open>handleRead\<close> and \<^verbatim>\<open>doPendingFunctors\<close> of \<^verbatim>\<open>EventLoop.cc\<close>), as a step relation. A step is one atomic
  action of one thread: the push inside the critical section, the write to the eventfd, setting
  \<^verbatim>\<open>quit_\<close>, the return of the poller's wait, the read of the eventfd, the swap inside the critical
  section, the start of one functor, the test of \<^verbatim>\<open>quit_\<close>. Any number of other threads interleave with
  the loop's thread. Four fields only record what happened: \<open>queued\<close> and \<open>ran_functors\<close> are the functors
  queued and run so far, \<open>early\<close> says that the loop's thread queued a pending functor before it called
  \<^verbatim>\<open>loop()\<close>, \<open>quit_called\<close> that some thread called \<^verbatim>\<open>quit()\<close>.
\<close>

text \<open>
  Where the loop's thread is: before \<^verbatim>\<open>loop()\<close>; at the test of the \<^verbatim>\<open>while\<close>; in the poller's wait;
  handling events, with or without the wakeup channel among those still to be handled; before the
  swap of \<^verbatim>\<open>doPendingFunctors\<close>; running the swapped functors; between the push and the wakeup of a
  \<^verbatim>\<open>queueInLoop\<close> called by a functor; after \<^verbatim>\<open>loop()\<close>.
\<close>

datatype 'f loop_pc = Before | Testing | Polling | Handling bool | Swapping | Running "'f list"
  | RunningPushed "'f list" | Stopped

text \<open>Another thread: outside, or between the push or the assignment of \<^verbatim>\<open>quit_\<close> and the wakeup.\<close>

datatype client_pc = Outside | MustWake

record 'f protocol =
  pc :: "'f loop_pc"
  pending :: "'f list"
  counter :: nat
  quitting :: bool
  clients :: "nat \<Rightarrow> client_pc"
  early :: bool
  quit_called :: bool
  queued :: "'f list"
  ran_functors :: "'f list"

definition protocol_init :: "'f protocol" where
  "protocol_init = \<lparr>pc = Before, pending = [], counter = 0, quitting = False,
     clients = (\<lambda>_. Outside), early = False, quit_called = False, queued = [], ran_functors = []\<rparr>"

definition push :: "'f \<Rightarrow> 'f protocol \<Rightarrow> 'f protocol" where
  "push f st = st\<lparr>pending := pending st @ [f], queued := queued st @ [f]\<rparr>"

inductive pstep :: "'f protocol \<Rightarrow> 'f protocol \<Rightarrow> bool" where
  client_push: "clients st t = Outside \<Longrightarrow>
    pstep st ((push f st)\<lparr>clients := (clients st)(t := MustWake)\<rparr>)"
| client_quit: "clients st t = Outside \<Longrightarrow>
    pstep st (st\<lparr>quitting := True, quit_called := True, clients := (clients st)(t := MustWake)\<rparr>)"
| client_wakeup: "clients st t = MustWake \<Longrightarrow>
    pstep st (st\<lparr>counter := counter st + 1, clients := (clients st)(t := Outside)\<rparr>)"
| early_push: "pc st = Before \<Longrightarrow> pstep st ((push f st)\<lparr>early := True\<rparr>)"
| start: "pc st = Before \<Longrightarrow> pstep st (st\<lparr>pc := Testing, quitting := False\<rparr>)"
| test: "pc st = Testing \<Longrightarrow> pstep st (st\<lparr>pc := if quitting st then Stopped else Polling\<rparr>)"
| wait_return: "pc st = Polling \<Longrightarrow> pstep st (st\<lparr>pc := Handling (counter st > 0)\<rparr>)"
| handle_wakeup: "pc st = Handling True \<Longrightarrow> pstep st (st\<lparr>pc := Handling False, counter := 0\<rparr>)"
| event_push: "pc st = Handling w \<Longrightarrow> pstep st (push f st)"
| event_quit: "pc st = Handling w \<Longrightarrow> pstep st (st\<lparr>quitting := True, quit_called := True\<rparr>)"
| handled: "pc st = Handling False \<Longrightarrow> pstep st (st\<lparr>pc := Swapping\<rparr>)"
| swap: "pc st = Swapping \<Longrightarrow> pstep st (st\<lparr>pc := Running (pending st), pending := [], early := False\<rparr>)"
| run_functor: "pc st = Running (f # fs) \<Longrightarrow>
    pstep st (st\<lparr>pc := Running fs, ran_functors := ran_functors st @ [f]\<rparr>)"
| functor_push: "pc st = Running fs \<Longrightarrow> pstep st ((push f st)\<lparr>pc := RunningPushed fs\<rparr>)"
| functor_wakeup: "pc st = RunningPushed fs \<Longrightarrow> pstep st (st\<lparr>pc := Running fs, counter := counter st + 1\<rparr>)"
| functor_quit: "pc st = Running fs \<Longrightarrow> pstep st (st\<lparr>quitting := True, quit_called := True\<rparr>)"
| functors_done: "pc st = Running [] \<Longrightarrow> pstep st (st\<lparr>pc := Testing\<rparr>)"

definition preachable :: "'f protocol \<Rightarrow> bool" where
  "preachable st \<longleftrightarrow> pstep\<^sup>*\<^sup>* protocol_init st"

lemma push_sel [simp]: "pc (push f st) = pc st" "counter (push f st) = counter st"
  "quitting (push f st) = quitting st" "clients (push f st) = clients st"
  "ran_functors (push f st) = ran_functors st" "pending (push f st) = pending st @ [f]"
  "queued (push f st) = queued st @ [f]" "early (push f st) = early st" "quit_called (push f st) = quit_called st"
  by (simp_all add: push_def)

text \<open>Functors the loop's thread has taken out of \<^verbatim>\<open>pendingFunctors_\<close> and not run yet.\<close>

fun in_hand :: "'f loop_pc \<Rightarrow> 'f list" where
  "in_hand (Running fs) = fs"
| "in_hand (RunningPushed fs) = fs"
| "in_hand _ = []"

lemma preachable_induct [consumes 1, case_names init step]:
  assumes "preachable st" "P protocol_init" "\<And>st st'. preachable st \<Longrightarrow> P st \<Longrightarrow> pstep st st' \<Longrightarrow> P st'"
  shows "P st"
  using assms(1) unfolding preachable_def
proof (induction rule: rtranclp_induct)
  case base
  show ?case by (rule assms(2))
next
  case (step y z)
  then show ?case using assms(3) by (simp add: preachable_def)
qed

lemma preachable_init: "preachable protocol_init"
  by (simp add: preachable_def)

lemma preachable_step: "preachable st \<Longrightarrow> pstep st st' \<Longrightarrow> preachable st'"
  by (simp add: preachable_def)

text \<open>A loop that waits after a functor was queued from another thread, and the state after running it.\<close>

definition started :: "'f list \<Rightarrow> 'f list \<Rightarrow> 'f loop_pc \<Rightarrow> nat \<Rightarrow> 'f protocol" where
  "started fs rs p n = \<lparr>pc = p, pending = fs, counter = n, quitting = False, clients = (\<lambda>_. Outside),
     early = False, quit_called = False, queued = rs @ fs, ran_functors = rs\<rparr>"

lemma started_polling: "preachable (started [f] [] Polling 1)"
proof -
  have 1: "preachable ((push f protocol_init)\<lparr>clients := (clients protocol_init)(0 := MustWake)\<rparr>)"
    using preachable_step [OF preachable_init pstep.client_push [of protocol_init 0 f]] by (simp add: protocol_init_def)
  have "preachable (started [f] [] Before 1)"
    using preachable_step [OF 1 pstep.client_wakeup [where t = 0]]
    by (simp add: started_def push_def protocol_init_def fun_upd_idem)
  then have "preachable (started [f] [] Testing 1)"
    using preachable_step [OF _ pstep.start, of "started [f] [] Before 1"] by (simp add: started_def)
  then show ?thesis
    using preachable_step [OF _ pstep.test, of "started [f] [] Testing 1"] by (simp add: started_def)
qed

lemma started_ran: "preachable \<lparr>pc = Running [], pending = [], counter = 0, quitting = False, clients = (\<lambda>_. Outside),
     early = False, quit_called = False, queued = [f], ran_functors = [f]\<rparr>"
proof -
  have "preachable (started [f] [] (Handling True) 1)"
    using preachable_step [OF started_polling pstep.wait_return, of f] by (simp add: started_def)
  then have "preachable (started [f] [] (Handling False) 0)"
    using preachable_step [OF _ pstep.handle_wakeup, of "started [f] [] (Handling True) 1"] by (simp add: started_def)
  then have "preachable (started [f] [] Swapping 0)"
    using preachable_step [OF _ pstep.handled, of "started [f] [] (Handling False) 0"] by (simp add: started_def)
  then have "preachable ((started [f] [] Swapping 0)\<lparr>pc := Running [f], pending := []\<rparr>)"
    using preachable_step [OF _ pstep.swap, of "started [f] [] Swapping 0"] by (simp add: started_def)
  then show ?thesis
    using preachable_step [OF _ pstep.run_functor, of "(started [f] [] Swapping 0)\<lparr>pc := Running [f], pending := []\<rparr>" f "[]"]
    by (simp add: started_def)
qed

text \<open>
  C12. Functors run in the order they were queued, each exactly once: in every reachable state the
  functors queued so far are those run, followed by those taken for running, followed by those pending.
\<close>

theorem functors_run_in_order:
  "preachable st \<Longrightarrow> queued st = ran_functors st @ in_hand (pc st) @ pending st"
proof (induction rule: preachable_induct)
  case init
  show ?case by (simp add: protocol_init_def)
next
  case (step st st')
  from \<open>pstep st st'\<close> step.IH show ?case by cases auto
qed

theorem functors_run_in_order_witness:
  "let st = \<lparr>pc = Running [], pending = [], counter = 0, quitting = False, clients = (\<lambda>_. Outside),
     early = False, quit_called = False, queued = [''f''], ran_functors = [''f'']\<rparr>
   in preachable st \<and> queued st = ran_functors st @ in_hand (pc st) @ pending st"
  using functors_run_in_order [OF started_ran, of "''f''"] started_ran [of "''f''"] by (simp add: Let_def)

section \<open>Wakeups\<close>

text \<open>A thread other than the loop's that will write to the eventfd.\<close>

definition waking :: "'f protocol \<Rightarrow> bool" where
  "waking st \<longleftrightarrow> counter st > 0 \<or> (\<exists>t. clients st t = MustWake)"

fun must_wake :: "'f loop_pc \<Rightarrow> bool" where
  "must_wake Before = True"
| "must_wake Testing = True"
| "must_wake Polling = True"
| "must_wake (Running fs) = True"
| "must_wake _ = False"

definition wake_inv :: "'f protocol \<Rightarrow> bool" where
  "wake_inv st \<longleftrightarrow> (must_wake (pc st) \<and> pending st \<noteq> [] \<and> \<not> early st \<longrightarrow> waking st) \<and>
     (pc st = Polling \<and> quitting st \<longrightarrow> waking st) \<and>
     (early st \<longrightarrow> in_hand (pc st) = [] \<and> (\<forall>fs. pc st \<noteq> Running fs \<and> pc st \<noteq> RunningPushed fs))"

lemma waking_other: "waking st \<Longrightarrow> clients st t = Outside \<Longrightarrow> counter st' = counter st \<Longrightarrow>
    clients st' = (clients st)(t := MustWake) \<Longrightarrow> waking st'"
  by (auto simp: waking_def)

lemma wake_inv_reachable: "preachable st \<Longrightarrow> wake_inv st"
proof (induction rule: preachable_induct)
  case init
  show ?case by (simp add: wake_inv_def protocol_init_def)
next
  case (step st st')
  from \<open>pstep st st'\<close> step.IH show ?case
    by cases (auto simp: wake_inv_def waking_def split: if_splits)
qed



section \<open>Before the loop runs\<close>

text \<open>
  A \<^verbatim>\<open>quit()\<close> that comes before \<^verbatim>\<open>loop()\<close> is lost, because \<^verbatim>\<open>loop()\<close> clears \<^verbatim>\<open>quit_\<close>: the loop can
  then wait with \<^verbatim>\<open>quit_\<close> unset, the wakeup consumed and no thread left that would wake it.
\<close>

theorem quit_before_loop_is_lost:
  "\<exists>st :: 'f protocol. preachable st \<and> quit_called st \<and> pc st = Polling \<and> \<not> quitting st \<and>
     counter st = 0 \<and> (\<forall>t. clients st t = Outside) \<and> pending st = []"
proof -
  define at_pc :: "'f loop_pc \<Rightarrow> nat \<Rightarrow> bool \<Rightarrow> 'f protocol" where
    "at_pc p n b = \<lparr>pc = p, pending = [], counter = n, quitting = b, clients = (\<lambda>_. Outside),
       early = False, quit_called = True, queued = [], ran_functors = []\<rparr>" for p n b
  have 1: "preachable (protocol_init\<lparr>quitting := True, quit_called := True, clients := (clients protocol_init)(0 := MustWake)\<rparr>)"
    using preachable_step [OF preachable_init pstep.client_quit [of protocol_init 0]] by (simp add: protocol_init_def)
  have "preachable (at_pc Before 1 True)"
    using preachable_step [OF 1 pstep.client_wakeup [where t = 0]] by (simp add: at_pc_def protocol_init_def fun_upd_idem)
  then have "preachable (at_pc Testing 1 False)"
    using preachable_step [OF _ pstep.start, of "at_pc Before 1 True"] by (simp add: at_pc_def)
  then have "preachable (at_pc Polling 1 False)"
    using preachable_step [OF _ pstep.test, of "at_pc Testing 1 False"] by (simp add: at_pc_def)
  then have "preachable (at_pc (Handling True) 1 False)"
    using preachable_step [OF _ pstep.wait_return, of "at_pc Polling 1 False"] by (simp add: at_pc_def)
  then have "preachable (at_pc (Handling False) 0 False)"
    using preachable_step [OF _ pstep.handle_wakeup, of "at_pc (Handling True) 1 False"] by (simp add: at_pc_def)
  then have "preachable (at_pc Swapping 0 False)"
    using preachable_step [OF _ pstep.handled, of "at_pc (Handling False) 0 False"] by (simp add: at_pc_def)
  then have "preachable (at_pc (Running []) 0 False)"
    using preachable_step [OF _ pstep.swap, of "at_pc Swapping 0 False"] by (simp add: at_pc_def)
  then have "preachable (at_pc Testing 0 False)"
    using preachable_step [OF _ pstep.functors_done, of "at_pc (Running []) 0 False"] by (simp add: at_pc_def)
  then have "preachable (at_pc Polling 0 False)"
    using preachable_step [OF _ pstep.test, of "at_pc Testing 0 False"] by (simp add: at_pc_def)
  then show ?thesis by (intro exI [of _ "at_pc Polling 0 False"]) (simp add: at_pc_def)
qed

text \<open>
  A functor that the loop's own thread queues before \<^verbatim>\<open>loop()\<close> wakes nobody: the loop can start to
  wait with it pending and nothing that would end the wait but other events or the timeout.
\<close>

theorem early_functor_waits:
  "\<exists>st. preachable st \<and> pc st = Polling \<and> pending st = [f] \<and> counter st = 0 \<and> (\<forall>t. clients st t = Outside)"
proof -
  let ?e = "(push f protocol_init)\<lparr>early := True\<rparr>"
  have "preachable ?e"
    by (rule preachable_step [OF preachable_init pstep.early_push]) (simp add: protocol_init_def)
  then have "preachable (?e\<lparr>pc := Testing, quitting := False\<rparr>)"
    by (rule preachable_step) (rule pstep.start, simp add: protocol_init_def)
  then have "preachable (?e\<lparr>pc := Polling, quitting := False\<rparr>)"
    using preachable_step [OF _ pstep.test, of "?e\<lparr>pc := Testing, quitting := False\<rparr>"]
    by (simp add: push_def protocol_init_def)
  then show ?thesis
    by (intro exI [of _ "?e\<lparr>pc := Polling, quitting := False\<rparr>"]) (simp add: protocol_init_def)
qed

text \<open>
  C36. What happens before \<^verbatim>\<open>loop()\<close> can be missed. A \<^verbatim>\<open>quit()\<close> that comes before it is lost: the loop can wait
  with \<^verbatim>\<open>quit_\<close> unset and no thread left that would wake it. A functor that the loop's own thread queues before
  it wakes nobody: the loop can wait with it pending.
\<close>

theorem before_loop_missed:
  "(\<exists>st :: 'f protocol. preachable st \<and> quit_called st \<and> pc st = Polling \<and> \<not> quitting st \<and>
     counter st = 0 \<and> (\<forall>t. clients st t = Outside) \<and> pending st = []) \<and>
   (\<exists>st :: 'f protocol. preachable st \<and> pc st = Polling \<and> pending st = [f] \<and> counter st = 0 \<and>
     (\<forall>t. clients st t = Outside))"
  by (rule conjI [OF quit_before_loop_is_lost early_functor_waits])

end
