(* ===== verification/Net_TcpConnection.thy ===== *)
theory Net_TcpConnection
  imports Net_Buffer Net_Poller
begin

unbundle bit_operations_syntax

text \<open>
  TCP connections (\<^verbatim>\<open>muduo/net/TcpConnection.h\<close>, \<^verbatim>\<open>TcpConnection.cc\<close>), with the two buffers of
  \<open>Net_Buffer\<close>. The connection's channel is the abstract channel of the poller contract: a mask and
  whether it is registered, changed by \<^const>\<open>spec_step\<close>, which the epoll poller implements. The
  loop is the queue of the functors that the connection has in it. The kernel's side of the socket is
  the list of bytes it has accepted and whether the writing side is shut down; what \<^verbatim>\<open>write(2)\<close> returns
  is a function \<open>k\<close> of the state and the data, an argument of every operation that may write. What
  the user's callbacks do is the parameter \<open>user\<close>, the calls they make on the connection for each
  event. Four fields are history: the bytes the connection took on for sending, the bytes it
  received and those the user retrieved, and the callbacks made.
\<close>

datatype conn_state = kDisconnected | kConnecting | kConnected | kDisconnecting

datatype write_result = Wrote nat | WriteErr int

definition EWOULDBLOCK :: int where "EWOULDBLOCK = 11"
definition EPIPE :: int where "EPIPE = 32"

datatype conn_functor = SendInLoop "char list" | ShutdownInLoop | ConnectDestroyed
  | WriteComplete | HighWaterMark nat

datatype conn_event = ConnUp | ConnDown | Message | Closed | WriteCompleted | HighWater nat

record conn =
  cstate :: conn_state
  cmask :: "32 word"
  registered :: bool
  outputBuffer :: buffer
  inputBuffer :: buffer
  highWaterMark :: nat
  writeCompleteCallback :: bool
  highWaterMarkCallback :: bool
  functors :: "conn_functor list"
  sent :: "char list"
  writeShut :: bool
  accepted :: "char list"
  received :: "char list"
  consumed :: "char list"
  history :: "conn_event list"

type_synonym kernel_write = "conn \<Rightarrow> char list \<Rightarrow> write_result"

definition TcpConnection_new :: "bool \<Rightarrow> conn" where
  "TcpConnection_new wcc = \<lparr>cstate = kConnecting, cmask = kNoneEvent, registered = False,
     outputBuffer = Buffer_new, inputBuffer = Buffer_new, highWaterMark = 64 * 1024 * 1024,
     writeCompleteCallback = wcc, highWaterMarkCallback = False, functors = [],
     sent = [], writeShut = False, accepted = [], received = [], consumed = [], history = []\<rparr>"

definition setHighWaterMarkCallback :: "nat \<Rightarrow> conn \<Rightarrow> conn" where
  "setHighWaterMarkCallback n c = c\<lparr>highWaterMarkCallback := True, highWaterMark := n\<rparr>"

definition setState :: "conn_state \<Rightarrow> conn \<Rightarrow> conn" where
  "setState s c = c\<lparr>cstate := s\<rparr>"

definition connected :: "conn \<Rightarrow> bool" where
  "connected c \<longleftrightarrow> cstate c = kConnected"

definition writing :: "conn \<Rightarrow> bool" where
  "writing c \<longleftrightarrow> cmask c AND kWriteEvent \<noteq> 0"

text \<open>An operation on the connection's channel.\<close>

definition on_channel :: "(nat \<Rightarrow> chan_op) \<Rightarrow> conn \<Rightarrow> conn option" where
  "on_channel op c =
     do {
       a \<leftarrow> spec_step (op 0) [0 \<mapsto> (cmask c, registered c)];
       (m, r) \<leftarrow> a 0;
       Some (c\<lparr>cmask := m, registered := r\<rparr>)
     }"

definition queue_functor :: "conn_functor \<Rightarrow> conn \<Rightarrow> conn" where
  "queue_functor f c = c\<lparr>functors := functors c @ [f]\<rparr>"

section \<open>Sending and shutting down\<close>

text \<open>Subtraction of \<^verbatim>\<open>size_t\<close> values wraps around.\<close>

definition size_sub :: "nat \<Rightarrow> nat \<Rightarrow> nat" where
  "size_sub a b = (if b \<le> a then a - b else 2 ^ 64 + a - b)"

text \<open>The direct write of \<^verbatim>\<open>sendInLoop\<close>: the bytes written, the bytes left and whether it failed for good.\<close>

definition write_directly :: "kernel_write \<Rightarrow> char list \<Rightarrow> conn \<Rightarrow> nat \<times> nat \<times> bool \<times> conn" where
  "write_directly k data c =
     (if \<not> writing c \<and> readableBytes (outputBuffer c) = 0
      then (case k c data of
              Wrote nwrote \<Rightarrow>
                (let remaining = size_sub (length data) nwrote;
                     c1 = c\<lparr>sent := sent c @ take nwrote data\<rparr>
                 in (nwrote, remaining, False,
                     if remaining = 0 \<and> writeCompleteCallback c1 then queue_functor WriteComplete c1 else c1))
            | WriteErr errno \<Rightarrow> (0, length data, errno \<noteq> EWOULDBLOCK \<and> errno = EPIPE, c))
      else (0, length data, False, c))"

text \<open>The bytes that were not written go to the output buffer, and the channel waits for the socket to be writable.\<close>

definition append_remaining :: "nat \<Rightarrow> nat \<Rightarrow> char list \<Rightarrow> conn \<Rightarrow> conn option" where
  "append_remaining nwrote remaining data c =
     do {
       let oldLen = readableBytes (outputBuffer c);
       let c1 = (if oldLen + remaining \<ge> highWaterMark c \<and> oldLen < highWaterMark c \<and> highWaterMarkCallback c
                 then queue_functor (HighWaterMark (oldLen + remaining)) c else c);
       b \<leftarrow> append_buffer (outputBuffer c1) (take remaining (drop nwrote data));
       let c2 = c1\<lparr>outputBuffer := b, accepted := accepted c1 @ data\<rparr>;
       (if \<not> writing c2 then on_channel (Change EnableWriting) c2 else Some c2)
     }"

definition sendInLoop :: "kernel_write \<Rightarrow> char list \<Rightarrow> conn \<Rightarrow> conn option" where
  "sendInLoop k data c =
     (if cstate c = kDisconnected then Some c
      else do {
        let (nwrote, remaining, error, c1) = write_directly k data c;
        check (remaining \<le> length data);
        (if \<not> error \<and> remaining > 0
         then append_remaining nwrote remaining data c1
         else Some (if error then c1 else c1\<lparr>accepted := accepted c1 @ data\<rparr>))
      })"

text \<open>\<^verbatim>\<open>send\<close> from the loop's thread and from another one, which copies the data into a functor.\<close>

definition send :: "kernel_write \<Rightarrow> bool \<Rightarrow> char list \<Rightarrow> conn \<Rightarrow> conn option" where
  "send k inLoop data c =
     (if cstate c = kConnected
      then if inLoop then sendInLoop k data c else Some (queue_functor (SendInLoop data) c)
      else Some c)"

text \<open>\<^verbatim>\<open>send(Buffer*)\<close> also empties the buffer.\<close>

definition send_buffer :: "kernel_write \<Rightarrow> bool \<Rightarrow> buffer \<Rightarrow> conn \<Rightarrow> (conn \<times> buffer) option" where
  "send_buffer k inLoop b c =
     (if cstate c = kConnected
      then if inLoop
        then do { c1 \<leftarrow> sendInLoop k (readable b) c; Some (c1, retrieveAll b) }
        else do { (data, b1) \<leftarrow> retrieveAllAsString b; Some (queue_functor (SendInLoop data) c, b1) }
      else Some (c, b))"

definition shutdownInLoop :: "conn \<Rightarrow> conn" where
  "shutdownInLoop c = (if \<not> writing c then c\<lparr>writeShut := True\<rparr> else c)"

definition shutdown :: "bool \<Rightarrow> conn \<Rightarrow> conn" where
  "shutdown inLoop c =
     (if cstate c = kConnected
      then let c1 = setState kDisconnecting c
           in if inLoop then shutdownInLoop c1 else queue_functor ShutdownInLoop c1
      else c)"

section \<open>User callbacks\<close>

text \<open>
  What a callback may do, in the loop's thread: send, shut down, and take bytes out of the input
  buffer, at most those that are there.
\<close>

datatype user_action = UserSend "char list" | UserShutdown | UserRetrieve nat

type_synonym user_code = "conn_event \<Rightarrow> conn \<Rightarrow> user_action list"

fun user_act :: "kernel_write \<Rightarrow> user_action \<Rightarrow> conn \<Rightarrow> conn option" where
  "user_act k (UserSend data) c = send k True data c"
| "user_act k UserShutdown c = Some (shutdown True c)"
| "user_act k (UserRetrieve n) c =
     do {
       let m = min n (readableBytes (inputBuffer c));
       b \<leftarrow> retrieve (inputBuffer c) m;
       Some (c\<lparr>inputBuffer := b, consumed := consumed c @ take m (readable (inputBuffer c))\<rparr>)
     }"

fun user_acts :: "kernel_write \<Rightarrow> user_action list \<Rightarrow> conn \<Rightarrow> conn option" where
  "user_acts k [] c = Some c"
| "user_acts k (a # as) c = do { c1 \<leftarrow> user_act k a c; user_acts k as c1 }"

definition user_callback :: "user_code \<Rightarrow> kernel_write \<Rightarrow> conn_event \<Rightarrow> conn \<Rightarrow> conn option" where
  "user_callback user k ev c = (let c1 = c\<lparr>history := history c @ [ev]\<rparr> in user_acts k (user ev c1) c1)"

text \<open>The default message callback throws the data away.\<close>

definition defaultMessageCallback :: user_code where
  "defaultMessageCallback ev c = (if ev = Message then [UserRetrieve (readableBytes (inputBuffer c))] else [])"

section \<open>Life cycle and events\<close>

definition connectEstablished :: "user_code \<Rightarrow> kernel_write \<Rightarrow> conn \<Rightarrow> conn option" where
  "connectEstablished user k c =
     do {
       check (cstate c = kConnecting);
       c1 \<leftarrow> on_channel (Change EnableReading) (setState kConnected c);
       user_callback user k ConnUp c1
     }"

definition connectDestroyed :: "user_code \<Rightarrow> kernel_write \<Rightarrow> conn \<Rightarrow> conn option" where
  "connectDestroyed user k c =
     do {
       c1 \<leftarrow> (if cstate c = kConnected
              then do {
                c' \<leftarrow> on_channel (Change DisableAll) (setState kDisconnected c);
                user_callback user k ConnDown c'
              }
              else Some c);
       on_channel Remove c1
     }"

definition handleClose :: "user_code \<Rightarrow> kernel_write \<Rightarrow> conn \<Rightarrow> conn option" where
  "handleClose user k c =
     do {
       check (cstate c = kConnected \<or> cstate c = kDisconnecting);
       c1 \<leftarrow> on_channel (Change DisableAll) (setState kDisconnected c);
       c2 \<leftarrow> user_callback user k ConnDown c1;
       Some (c2\<lparr>history := history c2 @ [Closed]\<rparr>)
     }"

text \<open>\<^verbatim>\<open>handleError\<close> only reads \<^verbatim>\<open>SO_ERROR\<close> and logs it.\<close>

definition handleError :: "conn \<Rightarrow> conn" where
  "handleError c = c"

definition handleRead :: "user_code \<Rightarrow> kernel_write \<Rightarrow> readv_result \<Rightarrow> conn \<Rightarrow> conn option" where
  "handleRead user k rv c =
     do {
       (b, n, savedErrno) \<leftarrow> readFd (inputBuffer c) rv;
       let data = (case rv of ReadvData d \<Rightarrow> d | ReadvError _ \<Rightarrow> []);
       let c1 = c\<lparr>inputBuffer := b, received := received c @ data\<rparr>;
       (if n > 0 then user_callback user k Message c1
        else if n = 0 then handleClose user k c1
        else Some (handleError c1))
     }"

definition handleWrite :: "kernel_write \<Rightarrow> conn \<Rightarrow> conn option" where
  "handleWrite k c =
     (if writing c
      then (case k c (readable (outputBuffer c)) of
              Wrote n \<Rightarrow>
                (if n > 0
                 then do {
                   b \<leftarrow> retrieve (outputBuffer c) n;
                   let c1 = c\<lparr>outputBuffer := b, sent := sent c @ take n (readable (outputBuffer c))\<rparr>;
                   (if readableBytes b = 0
                    then do {
                      c2 \<leftarrow> on_channel (Change DisableWriting) c1;
                      let c3 = (if writeCompleteCallback c2 then queue_functor WriteComplete c2 else c2);
                      Some (if cstate c3 = kDisconnecting then shutdownInLoop c3 else c3)
                    }
                    else Some c1)
                 }
                 else Some c)
            | WriteErr errno \<Rightarrow> Some c)
      else Some c)"

text \<open>The loop runs the connection's next functor.\<close>

definition run_functor :: "user_code \<Rightarrow> kernel_write \<Rightarrow> conn \<Rightarrow> conn option" where
  "run_functor user k c =
     (case functors c of
        [] \<Rightarrow> Some c
      | f # fs \<Rightarrow>
          (let c1 = c\<lparr>functors := fs\<rparr> in
           case f of
             SendInLoop data \<Rightarrow> sendInLoop k data c1
           | ShutdownInLoop \<Rightarrow> Some (shutdownInLoop c1)
           | ConnectDestroyed \<Rightarrow> connectDestroyed user k c1
           | WriteComplete \<Rightarrow> user_callback user k WriteCompleted c1
           | HighWaterMark n \<Rightarrow> user_callback user k (HighWater n) c1))"

text \<open>
  One report of the poller: the calls \<^const>\<open>handleEventWithGuard\<close> makes on the connection's channel,
  whose callbacks are the four handlers.
\<close>

datatype conn_handler = HRead | HWrite | HClose | HError

definition conn_channel :: "32 word \<Rightarrow> conn_handler channel" where
  "conn_channel r = set_revents (setReadCallback (setWriteCallback (setCloseCallback
     (setErrorCallback (Channel_new 0 0) HError) HClose) HWrite) HRead) r"

fun handle_call :: "user_code \<Rightarrow> kernel_write \<Rightarrow> readv_result \<Rightarrow> conn_handler call \<Rightarrow> conn \<Rightarrow> conn option" where
  "handle_call user k rv (CallClose h) c = handleClose user k c"
| "handle_call user k rv (CallError h) c = Some (handleError c)"
| "handle_call user k rv (CallRead h t) c = handleRead user k rv c"
| "handle_call user k rv (CallWrite h) c = handleWrite k c"

fun handle_calls :: "user_code \<Rightarrow> kernel_write \<Rightarrow> readv_result \<Rightarrow> conn_handler call list \<Rightarrow> conn \<Rightarrow> conn option" where
  "handle_calls user k rv [] c = Some c"
| "handle_calls user k rv (x # xs) c = do { c1 \<leftarrow> handle_call user k rv x c; handle_calls user k rv xs c1 }"

definition poll_event :: "user_code \<Rightarrow> kernel_write \<Rightarrow> readv_result \<Rightarrow> 32 word \<Rightarrow> conn \<Rightarrow> conn option" where
  "poll_event user k rv r c = handle_calls user k rv (handleEventWithGuard (conn_channel r) 0) c"

text \<open>
  The operations on a connection, in the order its loop sees them. \<open>Destroy\<close> is the functor that the
  server queues when it has taken the connection out of its map, and \<open>DestroyNow\<close> what the server's
  destructor makes the loop run at once.
\<close>

datatype conn_op = Establish kernel_write | LoopSend kernel_write "char list" | OtherSend "char list"
  | LoopShutdown | OtherShutdown | LoopFunctor kernel_write | PollEvent kernel_write readv_result "32 word"
  | Destroy | DestroyNow kernel_write

fun conn_step :: "user_code \<Rightarrow> conn_op \<Rightarrow> conn \<Rightarrow> conn option" where
  "conn_step user (Establish k) c = connectEstablished user k c"
| "conn_step user (LoopSend k data) c = send k True data c"
| "conn_step user (OtherSend data) c = send (\<lambda>_ _. Wrote 0) False data c"
| "conn_step user LoopShutdown c = Some (shutdown True c)"
| "conn_step user OtherShutdown c = Some (shutdown False c)"
| "conn_step user (LoopFunctor k) c = run_functor user k c"
| "conn_step user (PollEvent k rv r) c = poll_event user k rv r c"
| "conn_step user Destroy c = Some (queue_functor ConnectDestroyed c)"
| "conn_step user (DestroyNow k) c = connectDestroyed user k c"

end
