(* ===== verification/Net_TcpConnFacts.thy ===== *)
theory Net_TcpConnFacts
  imports Net_TcpConnection
begin

unbundle bit_operations_syntax

text \<open>
  The invariant of a connection: the bytes of both directions are conserved, the channel waits for
  writability exactly while the output buffer holds data, the state agrees with the callbacks made, and
  the connection is destroyed at most once. Every operation of \<open>Net_TcpConnection\<close> that can happen
  succeeds and keeps it, whatever the user's callbacks do and whatever \<^verbatim>\<open>write(2)\<close> and \<^verbatim>\<open>readv(2)\<close> return.
\<close>

section \<open>The channel of a connection\<close>

definition reading :: "conn \<Rightarrow> bool" where
  "reading c \<longleftrightarrow> cmask c AND kReadEvent \<noteq> 0"

lemma mask_bits:
  "(e OR kWriteEvent) AND kWriteEvent = kWriteEvent" "(e AND NOT kWriteEvent) AND kWriteEvent = 0"
  "(e OR kWriteEvent) AND kReadEvent = e AND kReadEvent" "(e AND NOT kWriteEvent) AND kReadEvent = e AND kReadEvent"
  "(e OR kReadEvent) AND kReadEvent = kReadEvent"
proof -
  have disj: "kWriteEvent AND kReadEvent = 0" "NOT kWriteEvent AND kReadEvent = kReadEvent"
    by (simp_all add: event_bits)
  show "(e OR kWriteEvent) AND kReadEvent = e AND kReadEvent"
    by (simp only: bit.conj_disj_distrib2 disj) simp
  show "(e AND NOT kWriteEvent) AND kReadEvent = e AND kReadEvent"
    by (simp only: and.assoc disj)
qed (rule bit_word_eqI, auto simp: bit_simps)+

lemma masks_nonzero [simp]: "kWriteEvent \<noteq> 0" "kReadEvent \<noteq> 0"
  by (simp_all add: event_bits)

lemma on_channel_change: "on_channel (Change x) c = Some (c\<lparr>cmask := change_mask x (cmask c), registered := True\<rparr>)"
  by (simp add: on_channel_def)

lemma on_channel_remove: "cmask c = kNoneEvent \<Longrightarrow> registered c \<Longrightarrow>
    on_channel Remove c = Some (c\<lparr>cmask := kNoneEvent, registered := False\<rparr>)"
  by (simp add: on_channel_def)

lemma on_channel_remove_fails: "cmask c \<noteq> kNoneEvent \<or> \<not> registered c \<Longrightarrow> on_channel Remove c = None"
  by (auto simp: on_channel_def)

lemma writing_change [simp]:
  "writing (c\<lparr>cmask := cmask c OR kWriteEvent, registered := b\<rparr>)"
  "\<not> writing (c\<lparr>cmask := cmask c AND NOT kWriteEvent, registered := b\<rparr>)"
  "\<not> writing (c\<lparr>cmask := kNoneEvent, registered := b\<rparr>)"
  by (simp_all add: writing_def mask_bits) (simp add: kNoneEvent_def)

section \<open>The invariant of a connection\<close>

text \<open>
  What the code relies on of \<^verbatim>\<open>write(2)\<close>: it accepts at most the bytes it was given, none after
  \<^verbatim>\<open>shutdown(SHUT_WR)\<close>, and then fails with \<^verbatim>\<open>EPIPE\<close>.
\<close>

definition kernel_ok :: "kernel_write \<Rightarrow> bool" where
  "kernel_ok k \<longleftrightarrow> (\<forall>c d. case k c d of Wrote n \<Rightarrow> n \<le> length d \<and> \<not> writeShut c
     | WriteErr e \<Rightarrow> writeShut c \<longrightarrow> e = EPIPE)"

definition data_inv :: "conn \<Rightarrow> bool" where
  "data_inv c \<longleftrightarrow> buffer_inv (outputBuffer c) \<and> buffer_inv (inputBuffer c) \<and>
     sent c @ readable (outputBuffer c) = accepted c \<and> consumed c @ readable (inputBuffer c) = received c"

definition open_inv :: "conn \<Rightarrow> bool" where
  "open_inv c \<longleftrightarrow> registered c \<and> reading c \<and> (writing c \<longleftrightarrow> readable (outputBuffer c) \<noteq> [])"

definition chan_inv :: "conn \<Rightarrow> bool" where
  "chan_inv c \<longleftrightarrow> (case cstate c of
      kConnecting \<Rightarrow> cmask c = kNoneEvent \<and> \<not> writeShut c \<and> functors c = [] \<and> readable (outputBuffer c) = []
    | kConnected \<Rightarrow> open_inv c \<and> \<not> writeShut c \<and> ShutdownInLoop \<notin> set (functors c)
    | kDisconnecting \<Rightarrow> open_inv c \<and> (writeShut c \<longrightarrow> readable (outputBuffer c) = []) \<and>
        (writeShut c \<or> readable (outputBuffer c) \<noteq> [] \<or> ShutdownInLoop \<in> set (functors c))
    | kDisconnected \<Rightarrow> cmask c = kNoneEvent)"

text \<open>The history without the events of messages.\<close>

definition life :: "conn \<Rightarrow> conn_event list" where
  "life c = filter (\<lambda>e. e \<in> {ConnUp, ConnDown, Closed}) (history c)"

definition life_inv :: "conn \<Rightarrow> bool" where
  "life_inv c \<longleftrightarrow> (case cstate c of
      kConnecting \<Rightarrow> life c = []
    | kConnected \<Rightarrow> life c = [ConnUp]
    | kDisconnecting \<Rightarrow> life c = [ConnUp]
    | kDisconnected \<Rightarrow> life c = [ConnUp, ConnDown] \<or> life c = [ConnUp, ConnDown, Closed])"

definition destroy_inv :: "conn \<Rightarrow> bool" where
  "destroy_inv c \<longleftrightarrow> count_list (functors c) ConnectDestroyed \<le> 1 \<and>
     (ConnectDestroyed \<in> set (functors c) \<longrightarrow> cstate c = kDisconnected \<and> registered c)"

definition conn_inv :: "conn \<Rightarrow> bool" where
  "conn_inv c \<longleftrightarrow> data_inv c \<and> chan_inv c \<and> life_inv c \<and> destroy_inv c"

lemmas conn_invs = conn_inv_def data_inv_def chan_inv_def life_inv_def destroy_inv_def

text \<open>What a user's calls keep.\<close>

declare count_list_append [simp]

definition calm :: "conn \<Rightarrow> conn \<Rightarrow> bool" where
  "calm c c' \<longleftrightarrow> history c' = history c \<and> registered c' = registered c \<and>
     count_list (functors c') ConnectDestroyed = count_list (functors c) ConnectDestroyed \<and>
     (cstate c' = cstate c \<or> cstate c = kConnected \<and> cstate c' = kDisconnecting)"

lemma calm_refl [simp]: "calm c c"
  by (simp add: calm_def)

lemma calm_trans: "calm c c1 \<Longrightarrow> calm c1 c2 \<Longrightarrow> calm c c2"
  by (auto simp: calm_def)

text \<open>What every operation keeps until the connection is destroyed.\<close>

definition kept :: "conn \<Rightarrow> conn \<Rightarrow> bool" where
  "kept c c' \<longleftrightarrow> count_list (functors c') ConnectDestroyed = count_list (functors c) ConnectDestroyed \<and>
     (registered c \<longrightarrow> registered c') \<and> set (history c) \<subseteq> set (history c')"

lemma kept_refl [simp]: "kept c c"
  by (simp add: kept_def)

lemma kept_trans: "kept c c1 \<Longrightarrow> kept c1 c2 \<Longrightarrow> kept c c2"
  by (auto simp: kept_def)

lemma calm_kept: "calm c c' \<Longrightarrow> kept c c'"
  by (simp add: calm_def kept_def)

lemma readableBytes_0: "buffer_inv b \<Longrightarrow> readableBytes b = 0 \<longleftrightarrow> readable b = []"
  using length_readable [of b] by auto

lemma writing_upd [simp]:
  "writing (c\<lparr>outputBuffer := b\<rparr>) = writing c" "writing (c\<lparr>sent := x\<rparr>) = writing c"
  "writing (c\<lparr>accepted := x\<rparr>) = writing c" "writing (c\<lparr>functors := f\<rparr>) = writing c"
  "writing (c\<lparr>cstate := s\<rparr>) = writing c" "writing (c\<lparr>writeShut := w\<rparr>) = writing c"
  "writing (c\<lparr>history := h\<rparr>) = writing c" "writing (c\<lparr>inputBuffer := b\<rparr>) = writing c"
  "writing (c\<lparr>consumed := x\<rparr>) = writing c" "writing (c\<lparr>received := x\<rparr>) = writing c"
  by (simp_all add: writing_def)

lemma reading_upd [simp]:
  "reading (c\<lparr>outputBuffer := b\<rparr>) = reading c" "reading (c\<lparr>sent := x\<rparr>) = reading c"
  "reading (c\<lparr>accepted := x\<rparr>) = reading c" "reading (c\<lparr>functors := f\<rparr>) = reading c"
  "reading (c\<lparr>cstate := s\<rparr>) = reading c" "reading (c\<lparr>writeShut := w\<rparr>) = reading c"
  "reading (c\<lparr>history := h\<rparr>) = reading c" "reading (c\<lparr>inputBuffer := b\<rparr>) = reading c"
  "reading (c\<lparr>consumed := x\<rparr>) = reading c" "reading (c\<lparr>received := x\<rparr>) = reading c"
  "reading (c\<lparr>cmask := cmask c OR kWriteEvent, registered := r\<rparr>) = reading c"
  "reading (c\<lparr>cmask := cmask c AND NOT kWriteEvent, registered := r\<rparr>) = reading c"
  by (simp_all add: reading_def mask_bits)


lemma life_upd [simp]:
  "life (c\<lparr>outputBuffer := b\<rparr>) = life c" "life (c\<lparr>sent := x\<rparr>) = life c"
  "life (c\<lparr>accepted := x\<rparr>) = life c" "life (c\<lparr>functors := f\<rparr>) = life c"
  "life (c\<lparr>cstate := s\<rparr>) = life c" "life (c\<lparr>writeShut := w\<rparr>) = life c"
  "life (c\<lparr>inputBuffer := b\<rparr>) = life c" "life (c\<lparr>consumed := x\<rparr>) = life c"
  "life (c\<lparr>received := x\<rparr>) = life c" "life (c\<lparr>cmask := m\<rparr>) = life c" "life (c\<lparr>registered := r\<rparr>) = life c"
  "life (c\<lparr>history := history c @ h\<rparr>) = life c @ filter (\<lambda>e. e \<in> {ConnUp, ConnDown, Closed}) h"
  by (simp_all add: life_def)

lemma calm_queue [simp]: "f \<noteq> ConnectDestroyed \<Longrightarrow> calm c (queue_functor f c)"
  by (simp add: calm_def queue_functor_def)

text \<open>Functors that stand for a callback to the user.\<close>

lemma queue_functor_inv:
  assumes "conn_inv c" "cstate c \<noteq> kConnecting" "f \<notin> {ConnectDestroyed, ShutdownInLoop}"
  shows "conn_inv (queue_functor f c)"
  using assms by (auto simp: conn_invs queue_functor_def open_inv_def split: conn_state.splits)

lemma size_sub_le [simp]: "b \<le> a \<Longrightarrow> size_sub a b = a - b"
  by (simp add: size_sub_def)


definition open_state :: "conn \<Rightarrow> bool" where
  "open_state c \<longleftrightarrow> cstate c = kConnected \<or> cstate c = kDisconnecting"

lemma open_state_inv: "conn_inv c \<Longrightarrow> open_state c \<Longrightarrow> open_inv c"
  by (auto simp: conn_inv_def chan_inv_def open_state_def)

text \<open>An open connection takes on bytes in its output buffer and waits for the socket to be writable.\<close>

lemma grow_output_inv:
  assumes "conn_inv c" "open_state c" "\<not> writeShut c" "rest \<noteq> []" "buffer_inv b"
    "readable b = readable (outputBuffer c) @ rest"
    "m AND kWriteEvent \<noteq> 0" "m AND kReadEvent = cmask c AND kReadEvent"
  shows "conn_inv (c\<lparr>cmask := m, registered := True, outputBuffer := b, accepted := accepted c @ rest\<rparr>)"
proof -
  have inv: "data_inv c" "chan_inv c" "life_inv c" "destroy_inv c"
    using assms(1) by (simp_all add: conn_inv_def)
  have "data_inv (c\<lparr>cmask := m, registered := True, outputBuffer := b, accepted := accepted c @ rest\<rparr>)"
    using inv(1) assms(5,6) by (auto simp: data_inv_def)
  moreover have "chan_inv (c\<lparr>cmask := m, registered := True, outputBuffer := b, accepted := accepted c @ rest\<rparr>)"
    using inv(2) assms by (auto simp: chan_inv_def open_state_def open_inv_def reading_def writing_def)
  ultimately show ?thesis
    using inv(3,4) by (simp add: conn_inv_def life_inv_def destroy_inv_def split: conn_state.splits)
qed

lemma append_remaining_ok:
  assumes c: "conn_inv c" "open_state c" "\<not> writeShut c"
    and n: "n < length data" "accepted c = acc @ take n data"
  shows "\<exists>c'. append_remaining n (length data - n) data (c\<lparr>accepted := acc\<rparr>) = Some c' \<and> conn_inv c' \<and> calm c c'"
proof -
  define hw where "hw d \<longleftrightarrow> readableBytes (outputBuffer d) + (length data - n) \<ge> highWaterMark d \<and>
      readableBytes (outputBuffer d) < highWaterMark d \<and> highWaterMarkCallback d" for d :: conn
  define d where "d = (if hw c then queue_functor (HighWaterMark (readableBytes (outputBuffer c) + (length data - n))) c else c)"
  have d: "conn_inv d" "open_state d" "\<not> writeShut d" "outputBuffer d = outputBuffer c" "accepted d = accepted c"
      "calm c d" "registered d"
    using c queue_functor_inv [OF c(1)] open_state_inv [OF c(1,2)]
    by (auto simp: d_def open_state_def queue_functor_def open_inv_def calm_def)
  obtain b where b: "append_buffer (outputBuffer c) (drop n data) = Some b" "buffer_inv b"
      "readable b = readable (outputBuffer d) @ drop n data"
    using append_ok [of "outputBuffer c" "drop n data"] c(1) d(4) by (auto simp: conn_inv_def data_inv_def)
  define c' where "c' = d\<lparr>cmask := if writing d then cmask d else cmask d OR kWriteEvent, registered := True,
     outputBuffer := b, accepted := accepted d @ drop n data\<rparr>"
  have "append_remaining n (length data - n) data (c\<lparr>accepted := acc\<rparr>) = Some c'"
    using b(1) n d(7) unfolding append_remaining_def c'_def d_def hw_def
    by (auto simp: Let_def on_channel_change queue_functor_def writing_def)
  moreover have "conn_inv c'"
    unfolding c'_def using n by (intro grow_output_inv d b(2,3)) (auto simp: mask_bits writing_def)
  moreover have "calm c c'"
    using d(6,7) by (simp add: c'_def calm_def)
  ultimately show ?thesis by blast
qed

text \<open>An open connection with an empty output buffer writes directly.\<close>

lemma written_inv:
  assumes "conn_inv c" "readable (outputBuffer c) = []"
  shows "conn_inv (c\<lparr>sent := sent c @ data, accepted := accepted c @ data\<rparr>)"
  using assms by (simp add: conn_invs open_inv_def split: conn_state.splits)


lemma functors_accepted: "c\<lparr>functors := f, accepted := a\<rparr> = c\<lparr>accepted := a, functors := f\<rparr>"
  by (cases c) simp

lemma sendInLoop_ok:
  assumes c: "conn_inv c" "cstate c \<noteq> kConnecting" and k: "kernel_ok k"
  shows "\<exists>c'. sendInLoop k data c = Some c' \<and> conn_inv c' \<and> calm c c'"
proof (cases "open_state c")
  case False
  then have "cstate c = kDisconnected"
    using c(2) by (cases "cstate c") (auto simp: open_state_def)
  then show ?thesis using c(1) by (simp add: sendInLoop_def)
next
  case True
  have buf: "buffer_inv (outputBuffer c)" and op: "open_inv c" and nd: "cstate c \<noteq> kDisconnected"
    using c(1) open_state_inv [OF c(1) True] True by (auto simp: conn_inv_def data_inv_def open_state_def)
  have whole: ?thesis if "\<not> writeShut c" "write_directly k data c = (0, length data, False, c)"
  proof (cases "data = []")
    case True
    then show ?thesis using c(1) nd that by (simp add: sendInLoop_def)
  next
    case False
    then show ?thesis
      using append_remaining_ok [OF c(1) True that(1), of 0 data "accepted c"] nd that(2)
      by (simp add: sendInLoop_def)
  qed
  show ?thesis
  proof (cases "readable (outputBuffer c) = []")
    case False
    then show ?thesis
      using whole c(1) op True
      by (auto simp: write_directly_def open_inv_def conn_inv_def chan_inv_def open_state_def)
  next
    case empty: True
    then have direct: "\<not> writing c" "readableBytes (outputBuffer c) = 0"
      using op buf by (simp_all add: open_inv_def readableBytes_0)
    show ?thesis
    proof (cases "k c data")
      case (WriteErr e)
      then have "writeShut c \<longrightarrow> e = EPIPE"
        using k unfolding kernel_ok_def by (metis write_result.simps(6))
      then show ?thesis
        using whole c(1) direct WriteErr nd
        by (cases "e = EPIPE") (auto simp: write_directly_def sendInLoop_def EPIPE_def EWOULDBLOCK_def)
    next
      case (Wrote n)
      then have n: "n \<le> length data" "\<not> writeShut c"
        using k unfolding kernel_ok_def by (metis write_result.simps(5))+
      define d where "d = c\<lparr>sent := sent c @ take n data, accepted := accepted c @ take n data\<rparr>"
      have d: "conn_inv d" "open_state d" "\<not> writeShut d" "calm c d" "cstate d \<noteq> kConnecting"
        using written_inv [OF c(1) empty] True n(2) c(2) by (simp_all add: d_def open_state_def calm_def)
      show ?thesis
      proof (cases "n < length data")
        case True
        then show ?thesis
          using append_remaining_ok [OF d(1,2,3) True, of "accepted c"] Wrote direct nd n calm_trans [OF d(4)]
          by (auto simp: sendInLoop_def write_directly_def d_def)
      next
        case False
        then show ?thesis
          using d n Wrote direct nd queue_functor_inv [OF d(1) d(5), of WriteComplete]
          by (auto simp: sendInLoop_def write_directly_def d_def Let_def queue_functor_def calm_def functors_accepted)
      qed
    qed
  qed
qed


lemma shutdownInLoop_inv:
  assumes "conn_inv c" "cstate c \<in> {kDisconnecting, kDisconnected}"
  shows "conn_inv (shutdownInLoop c)"
  using assms by (auto simp: conn_invs open_inv_def shutdownInLoop_def split: conn_state.splits)

lemma shutdown_ok:
  assumes "conn_inv c"
  shows "conn_inv (shutdown inLoop c) \<and> calm c (shutdown inLoop c)"
  using assms
  by (auto simp: conn_invs open_inv_def shutdownInLoop_def shutdown_def setState_def queue_functor_def calm_def
      Let_def split: conn_state.splits)

lemma send_ok:
  assumes "conn_inv c" "kernel_ok k"
  shows "\<exists>c'. send k inLoop data c = Some c' \<and> conn_inv c' \<and> calm c c'"
  using sendInLoop_ok [OF assms(1) _ assms(2)] queue_functor_inv [OF assms(1)] assms(1)
  by (auto simp: send_def)

lemma user_act_ok:
  assumes "conn_inv c" "kernel_ok k"
  shows "\<exists>c'. user_act k a c = Some c' \<and> conn_inv c' \<and> calm c c'"
proof (cases a)
  case (UserRetrieve n)
  have buf: "buffer_inv (inputBuffer c)" using assms(1) by (simp add: conn_inv_def data_inv_def)
  obtain b where b: "retrieve (inputBuffer c) (min n (readableBytes (inputBuffer c))) = Some b" "buffer_inv b"
      "readable b = drop (min n (readableBytes (inputBuffer c))) (readable (inputBuffer c))"
    using retrieve_ok [OF buf, of "min n (readableBytes (inputBuffer c))"] length_readable [OF buf] by auto
  show ?thesis
    using UserRetrieve b assms(1) by (auto simp: Let_def conn_invs open_inv_def calm_def split: conn_state.splits)
qed (use send_ok [OF assms] shutdown_ok [OF assms(1)] in auto)

lemma user_acts_ok:
  assumes "conn_inv c" "kernel_ok k"
  shows "\<exists>c'. user_acts k as c = Some c' \<and> conn_inv c' \<and> calm c c'"
  using assms(1)
proof (induction as arbitrary: c)
  case (Cons a as)
  obtain c1 where c1: "user_act k a c = Some c1" "conn_inv c1" "calm c c1"
    using user_act_ok [OF Cons.prems assms(2)] by blast
  then show ?case using Cons.IH [OF c1(2)] calm_trans [OF c1(3)] by fastforce
qed simp

text \<open>The event \<open>ev\<close> may complete the history of a state change.\<close>

lemma user_callback_ok:
  assumes "conn_inv (c\<lparr>history := history c @ [ev]\<rparr>)" "kernel_ok k"
  shows "\<exists>c'. user_callback user k ev c = Some c' \<and> conn_inv c' \<and> calm (c\<lparr>history := history c @ [ev]\<rparr>) c'"
  unfolding user_callback_def Let_def by (rule user_acts_ok [OF assms])

lemma history_inv:
  assumes "conn_inv c" "ev \<notin> {ConnUp, ConnDown, Closed}"
  shows "conn_inv (c\<lparr>history := history c @ [ev]\<rparr>)"
  using assms by (auto simp: conn_invs open_inv_def split: conn_state.splits)

lemma handleClose_ok:
  assumes c: "conn_inv c" "open_state c" and k: "kernel_ok k"
  shows "\<exists>c'. handleClose user k c = Some c' \<and> conn_inv c' \<and> registered c' \<and> kept c c'"
proof -
  define c1 where "c1 = c\<lparr>cstate := kDisconnected, cmask := kNoneEvent, registered := True\<rparr>"
  have 1: "conn_inv (c1\<lparr>history := history c1 @ [ConnDown]\<rparr>)"
    using c by (auto simp: c1_def conn_invs open_state_def life_def)
  obtain c2 where c2: "user_callback user k ConnDown c1 = Some c2" "conn_inv c2"
      "calm (c1\<lparr>history := history c1 @ [ConnDown]\<rparr>) c2"
    using user_callback_ok [OF 1 k] by blast
  have "life c2 = [ConnUp, ConnDown]"
    using c2(3) c by (auto simp: calm_def life_def c1_def conn_inv_def life_inv_def open_state_def)
  moreover have "cstate c2 = kDisconnected" "registered c2"
    using c2(3) by (auto simp: calm_def c1_def)
  ultimately have "conn_inv (c2\<lparr>history := history c2 @ [Closed]\<rparr>)"
    using c2(2) by (simp add: conn_invs)
  moreover have "kept c (c2\<lparr>history := history c2 @ [Closed]\<rparr>)"
    using c2(3) \<open>registered c2\<close> by (auto simp: calm_def kept_def c1_def)
  ultimately show ?thesis
    using c(2) c2(1) \<open>registered c2\<close>
    by (auto simp: handleClose_def open_state_def on_channel_change setState_def c1_def)
qed

lemma readFd_error: "readFd b (ReadvError e) = Some (b, -1, Some e)"
  by (simp add: readFd_def)

lemma conn_handleRead_ok:
  assumes c: "conn_inv c" "open_state c" and k: "kernel_ok k"
  shows "\<exists>c'. handleRead user k rv c = Some c' \<and> conn_inv c' \<and> kept c c'"
proof (cases rv)
  case (ReadvError e)
  then show ?thesis using c(1) by (simp add: handleRead_def readFd_error handleError_def)
next
  case (ReadvData d)
  have "buffer_inv (inputBuffer c)" using c(1) by (simp add: conn_inv_def data_inv_def)
  then obtain b where b: "readFd (inputBuffer c) (ReadvData d) = Some (b, int (length d), None)" "buffer_inv b"
      "readable b = readable (inputBuffer c) @ d"
    using readFd_ok by blast
  define c1 where "c1 = c\<lparr>inputBuffer := b, received := received c @ d\<rparr>"
  have c1: "conn_inv c1" "open_state c1"
    using c b(2,3) by (auto simp: c1_def conn_invs open_inv_def open_state_def split: conn_state.splits)
  have "kept c c1" "kept c (c1\<lparr>history := history c1 @ [Message]\<rparr>)" by (auto simp: c1_def kept_def)
  moreover have "handleRead user k rv c = (if d = [] then handleClose user k c1 else user_callback user k Message c1)"
    using ReadvData b(1) by (simp add: handleRead_def c1_def)
  ultimately show ?thesis
    using handleClose_ok [OF c1 k, of user] user_callback_ok [OF history_inv [OF c1(1)] k, of Message user]
    by (auto dest: calm_kept intro: kept_trans)
qed


lemma empty_output_inv:
  assumes "conn_inv c" "open_state c" "\<not> writeShut c" "buffer_inv b" "readable b = []"
    "c' = c\<lparr>outputBuffer := b, sent := accepted c, cmask := cmask c AND NOT kWriteEvent, registered := True,
       functors := functors c @ replicate w WriteComplete\<rparr>"
  shows "conn_inv (if cstate c = kDisconnecting then c'\<lparr>writeShut := True\<rparr> else c')"
  using assms
  by (auto simp: conn_invs open_state_def open_inv_def reading_def writing_def mask_bits count_list_append)

lemma handleWrite_ok:
  assumes c: "conn_inv c" and k: "kernel_ok k"
  shows "\<exists>c'. handleWrite k c = Some c' \<and> conn_inv c' \<and> kept c c'"
proof (cases "writing c \<and> (\<exists>n > 0. k c (readable (outputBuffer c)) = Wrote n)")
  case False
  then show ?thesis
    using c by (cases "k c (readable (outputBuffer c))") (auto simp: handleWrite_def)
next
  case True
  then obtain n where w: "writing c" and n: "n > 0" "k c (readable (outputBuffer c)) = Wrote n" by blast
  have op: "open_state c" "open_inv c"
    using w c by (cases "cstate c"; auto simp: conn_inv_def chan_inv_def writing_def kNoneEvent_def open_state_def)+
  have le: "n \<le> length (readable (outputBuffer c))" "\<not> writeShut c"
    using n(2) k unfolding kernel_ok_def by (metis write_result.simps(5))+
  have buf: "buffer_inv (outputBuffer c)" and acc: "accepted c = sent c @ readable (outputBuffer c)"
    using c by (simp_all add: conn_inv_def data_inv_def)
  obtain b where b: "retrieve (outputBuffer c) n = Some b" "buffer_inv b" "readable b = drop n (readable (outputBuffer c))"
    using retrieve_ok [OF buf le(1)] by blast
  show ?thesis
  proof (cases "readable b = []")
    case False
    then have "conn_inv (c\<lparr>outputBuffer := b, sent := sent c @ take n (readable (outputBuffer c))\<rparr>)"
      using c b(2,3) op w le(2)
      by (auto simp: conn_invs open_inv_def open_state_def split: conn_state.splits)
    then show ?thesis using w n b False by (simp add: handleWrite_def readableBytes_0 kept_def)
  next
    case True
    then have "take n (readable (outputBuffer c)) = readable (outputBuffer c)" using b(3) by simp
    then show ?thesis
      using empty_output_inv [OF c op(1) le(2) b(2) True refl, of "if writeCompleteCallback c then 1 else 0"] w n b True acc
      by (auto simp: handleWrite_def readableBytes_0 on_channel_change queue_functor_def shutdownInLoop_def
          kept_def Let_def writing_def mask_bits split: if_splits)
  qed
qed


lemma connectEstablished_ok:
  assumes c: "conn_inv c" "cstate c = kConnecting" and k: "kernel_ok k"
  shows "\<exists>c'. connectEstablished user k c = Some c' \<and> conn_inv c' \<and> registered c' \<and>
     ConnectDestroyed \<notin> set (functors c') \<and> cstate c' \<in> {kConnected, kDisconnecting}"
proof -
  define c1 where "c1 = c\<lparr>cstate := kConnected, cmask := cmask c OR kReadEvent, registered := True\<rparr>"
  have 1: "conn_inv (c1\<lparr>history := history c1 @ [ConnUp]\<rparr>)"
    using c by (auto simp: c1_def conn_invs open_inv_def reading_def writing_def life_def event_bits)
  have f: "functors c = []" using c by (simp add: conn_inv_def chan_inv_def)
  show ?thesis
    using user_callback_ok [OF 1 k, of user] c(2) f
    by (auto simp: connectEstablished_def on_channel_change setState_def c1_def calm_def count_list_0_iff)
qed


lemma connectDestroyed_connected:
  assumes c: "conn_inv c" "cstate c = kConnected" and k: "kernel_ok k"
  shows "\<exists>c'. connectDestroyed user k c = Some c' \<and> conn_inv c'"
proof -
  define c1 where "c1 = c\<lparr>cstate := kDisconnected, cmask := kNoneEvent, registered := True\<rparr>"
  have 1: "conn_inv (c1\<lparr>history := history c1 @ [ConnDown]\<rparr>)"
    using c by (auto simp: c1_def conn_invs life_def)
  obtain c2 where c2: "user_callback user k ConnDown c1 = Some c2" "conn_inv c2"
      "calm (c1\<lparr>history := history c1 @ [ConnDown]\<rparr>) c2"
    using user_callback_ok [OF 1 k] by blast
  have 2: "cstate c2 = kDisconnected" "registered c2" "cmask c2 = kNoneEvent"
    using c2(2,3) by (auto simp: calm_def c1_def conn_inv_def chan_inv_def)
  have "ConnectDestroyed \<notin> set (functors c2)"
    using c2(3) c by (auto simp: calm_def c1_def conn_inv_def destroy_inv_def count_list_0_iff)
  then have "conn_inv (c2\<lparr>cmask := kNoneEvent, registered := False\<rparr>)"
    using c2(2) 2 by (simp add: conn_invs)
  then show ?thesis
    using c(2) c2(1) 2 on_channel_remove [of c2]
    by (auto simp: connectDestroyed_def on_channel_change setState_def c1_def)
qed

lemma connectDestroyed_closed:
  assumes "conn_inv c" "cstate c = kDisconnected" "registered c" "ConnectDestroyed \<notin> set (functors c)"
  shows "\<exists>c'. connectDestroyed user k c = Some c' \<and> conn_inv c' \<and> history c' = history c"
  using assms on_channel_remove [of c] by (auto simp: connectDestroyed_def conn_invs)

lemma pop_inv:
  assumes "conn_inv c" "functors c = f # fs" "f \<noteq> ShutdownInLoop"
  shows "conn_inv (c\<lparr>functors := fs\<rparr>)"
  using assms by (auto simp: conn_invs open_inv_def split: conn_state.splits if_splits)

lemma run_shutdown:
  assumes "conn_inv c" "functors c = ShutdownInLoop # fs"
  shows "conn_inv (shutdownInLoop (c\<lparr>functors := fs\<rparr>))"
  using assms by (auto simp: conn_invs open_inv_def shutdownInLoop_def split: conn_state.splits)

lemma run_functor_ok:
  assumes c: "conn_inv c" and k: "kernel_ok k"
  shows "\<exists>c'. run_functor user k c = Some c' \<and> conn_inv c' \<and> set (history c) \<subseteq> set (history c') \<and>
     (ConnectDestroyed \<notin> set (functors c) \<longrightarrow> kept c c') \<and> (Closed \<in> set (history c') \<longleftrightarrow> Closed \<in> set (history c))"
proof (cases "functors c")
  case (Cons f fs)
  let ?c1 = "c\<lparr>functors := fs\<rparr>"
  have ncon: "cstate ?c1 \<noteq> kConnecting" using c Cons by (auto simp: conn_inv_def chan_inv_def)
  show ?thesis
  proof (cases f)
    case ConnectDestroyed
    then have "ConnectDestroyed \<notin> set fs" "cstate c = kDisconnected" "registered c"
      using c Cons by (auto simp: conn_inv_def destroy_inv_def count_list_0_iff)
    then show ?thesis
      using connectDestroyed_closed [OF pop_inv [OF c Cons], of user k] Cons ConnectDestroyed by (auto simp: run_functor_def)
  next
    case (SendInLoop data)
    then show ?thesis
      using sendInLoop_ok [OF pop_inv [OF c Cons] ncon k, of data] Cons by (auto simp: run_functor_def calm_def kept_def)
  next
    case WriteComplete
    then show ?thesis
      using user_callback_ok [OF history_inv [OF pop_inv [OF c Cons]] k, of WriteCompleted user] Cons
      by (auto simp: run_functor_def calm_def kept_def)
  next
    case (HighWaterMark n)
    then show ?thesis
      using user_callback_ok [OF history_inv [OF pop_inv [OF c Cons]] k, of "HighWater n" user] Cons
      by (auto simp: run_functor_def calm_def kept_def)
  qed (use run_shutdown [OF c] Cons in \<open>auto simp: run_functor_def shutdownInLoop_def kept_def Let_def\<close>)
qed (use c in \<open>simp add: run_functor_def\<close>)

text \<open>The reports of a connected socket: a hang-up comes with \<^verbatim>\<open>POLLIN\<close>, or with nothing to read.\<close>

definition socket_report :: "32 word \<Rightarrow> bool" where
  "socket_report r \<longleftrightarrow> (r AND POLLHUP \<noteq> 0 \<longrightarrow> r AND POLLIN \<noteq> 0 \<or> r AND (POLLIN OR POLLPRI OR POLLRDHUP) = 0)"

lemma conn_channel_calls: "handleEventWithGuard (conn_channel r) t =
   (if r AND POLLHUP \<noteq> 0 \<and> \<not> r AND POLLIN \<noteq> 0 then [CallClose HClose] else []) @
   (if r AND (POLLERR OR POLLNVAL) \<noteq> 0 then [CallError HError] else []) @
   (if r AND (POLLIN OR POLLPRI OR POLLRDHUP) \<noteq> 0 then [CallRead HRead t] else []) @
   (if r AND POLLOUT \<noteq> 0 then [CallWrite HWrite] else [])"
  by (simp add: handleEventWithGuard_def conn_channel_def set_revents_def setReadCallback_def setWriteCallback_def
      setCloseCallback_def setErrorCallback_def opt_call_def Channel_new_def)

lemma handle_calls_append: "handle_calls user k rv (xs @ ys) c =
    do { c1 \<leftarrow> handle_calls user k rv xs c; handle_calls user k rv ys c1 }"
  by (induction xs arbitrary: c) (auto split: bind_splits)

lemma poll_event_ok:
  assumes c: "conn_inv c" "open_state c" and k: "kernel_ok k" and r: "socket_report r"
  shows "\<exists>c'. poll_event user k rv r c = Some c' \<and> conn_inv c' \<and> kept c c'"
proof -
  define hup err rd where "hup \<longleftrightarrow> r AND POLLHUP \<noteq> 0 \<and> \<not> r AND POLLIN \<noteq> 0"
    and "err \<longleftrightarrow> r AND (POLLERR OR POLLNVAL) \<noteq> 0" and "rd \<longleftrightarrow> r AND (POLLIN OR POLLPRI OR POLLRDHUP) \<noteq> 0"
  have excl: "\<not> (hup \<and> rd)" using r by (auto simp: socket_report_def hup_def rd_def)
  let ?calls = "(if hup then [CallClose HClose] else []) @ (if err then [CallError HError] else []) @
     (if rd then [CallRead HRead 0] else [])"
  obtain c1 where c1: "handle_calls user k rv ?calls c = Some c1" "conn_inv c1" "kept c c1"
    using handleClose_ok [OF c k, of user] conn_handleRead_ok [OF c k, of user rv] excl c(1)
    by (cases hup; cases err; cases rd) (auto simp: handleError_def)
  have "poll_event user k rv r c =
      handle_calls user k rv (if r AND POLLOUT \<noteq> 0 then [CallWrite HWrite] else []) c1"
    using c1(1) unfolding poll_event_def conn_channel_calls hup_def [symmetric] err_def [symmetric] rd_def [symmetric]
    by (simp add: handle_calls_append flip: append_assoc)
  then show ?thesis using handleWrite_ok [OF c1(2) k] c1(2) kept_trans [OF c1(3)] c1(3) by auto
qed


text \<open>
  The operations that can happen to a connection: the server establishes it once, destroys it once
  after it was closed, or at once while it is connected; the poller reports only events of a channel that
  waits for some.
\<close>

fun enabled :: "conn_op \<Rightarrow> conn \<Rightarrow> bool" where
  "enabled (Establish k) c \<longleftrightarrow> kernel_ok k \<and> cstate c = kConnecting"
| "enabled (LoopSend k data) c \<longleftrightarrow> kernel_ok k"
| "enabled (LoopFunctor k) c \<longleftrightarrow> kernel_ok k"
| "enabled (PollEvent k rv r) c \<longleftrightarrow> kernel_ok k \<and> cmask c \<noteq> kNoneEvent \<and> socket_report r"
| "enabled Destroy c \<longleftrightarrow> Closed \<in> set (history c) \<and> registered c \<and> ConnectDestroyed \<notin> set (functors c)"
| "enabled (DestroyNow k) c \<longleftrightarrow> kernel_ok k \<and> cstate c = kConnected"
| "enabled _ c \<longleftrightarrow> True"

inductive reachable_conn :: "user_code \<Rightarrow> conn \<Rightarrow> bool" for user where
  new: "reachable_conn user (TcpConnection_new wcc)"
| hwm: "reachable_conn user c \<Longrightarrow> reachable_conn user (setHighWaterMarkCallback n c)"
| step: "reachable_conn user c \<Longrightarrow> enabled op c \<Longrightarrow> conn_step user op c = Some c' \<Longrightarrow> reachable_conn user c'"

lemma new_inv: "conn_inv (TcpConnection_new wcc)"
  by (simp add: conn_invs TcpConnection_new_def life_def)

lemma hwm_inv: "conn_inv c \<Longrightarrow> conn_inv (setHighWaterMarkCallback n c)"
  by (auto simp: conn_invs setHighWaterMarkCallback_def open_inv_def reading_def writing_def life_def split: conn_state.splits)

lemma closed_disconnected: "conn_inv c \<Longrightarrow> Closed \<in> set (history c) \<Longrightarrow> cstate c = kDisconnected"
proof (rule ccontr)
  assume c: "conn_inv c" "Closed \<in> set (history c)" "cstate c \<noteq> kDisconnected"
  then have "Closed \<in> set (life c)" by (simp add: life_def)
  then show False using c by (auto simp: conn_inv_def life_inv_def split: conn_state.splits)
qed

lemma watched_open: "conn_inv c \<Longrightarrow> cmask c \<noteq> kNoneEvent \<Longrightarrow> open_state c"
  by (cases "cstate c") (auto simp: conn_inv_def chan_inv_def open_state_def)

lemma kernel_blocks: "kernel_ok (\<lambda>c d. if writeShut c then WriteErr EPIPE else Wrote 0)"
  by (simp add: kernel_ok_def)

lemma conn_step_ok:
  assumes "conn_inv c" "enabled op c"
  shows "\<exists>c'. conn_step user op c = Some c' \<and> conn_inv c'"
proof (cases op)
  case (OtherSend data)
  then show ?thesis using assms(1) queue_functor_inv [OF assms(1)] by (auto simp: send_def)
next
  case (LoopSend k data)
  then show ?thesis using send_ok [OF assms(1), of k True data] assms(2) by auto
next
  case (Establish k)
  then show ?thesis using connectEstablished_ok [OF assms(1), of k user] assms(2) by auto
next
  case (LoopFunctor k)
  then show ?thesis using run_functor_ok [OF assms(1), of k user] assms(2) by auto
next
  case Destroy
  then show ?thesis
    using assms closed_disconnected [OF assms(1)] by (auto simp: conn_invs queue_functor_def)
next
  case (PollEvent k rv r)
  then show ?thesis
    using assms watched_open [OF assms(1)] poll_event_ok [OF assms(1), of k r user rv] by auto
qed (use assms shutdown_ok [OF assms(1)] connectDestroyed_connected [OF assms(1)] in auto)

text \<open>The operations other than those with which the server begins and ends a connection.\<close>

fun ordinary :: "conn_op \<Rightarrow> bool" where
  "ordinary (Establish k) = False"
| "ordinary Destroy = False"
| "ordinary (DestroyNow k) = False"
| "ordinary _ = True"

lemma conn_step_kept:
  assumes "conn_inv c" "enabled op c" "ordinary op" "conn_step user op c = Some c'"
  shows "set (history c) \<subseteq> set (history c') \<and> (ConnectDestroyed \<notin> set (functors c) \<longrightarrow> kept c c')"
proof (cases op)
  case (OtherSend data)
  then show ?thesis using assms(4) by (auto simp: send_def queue_functor_def kept_def split: if_splits)
next
  case (LoopSend k data)
  then show ?thesis using send_ok [OF assms(1), of k True data] assms(2,4) by (auto simp: calm_def kept_def)
next
  case (PollEvent k rv r)
  then show ?thesis
    using assms(2,4) watched_open [OF assms(1)] poll_event_ok [OF assms(1), of k r user rv] by (auto simp: kept_def)
next
  case (LoopFunctor k)
  then show ?thesis using run_functor_ok [OF assms(1), of k user] assms(2,4) by auto
qed (use assms shutdown_ok [OF assms(1)] calm_kept in \<open>auto simp: calm_def\<close>)

text \<open>Before it is established, nothing happens to a connection.\<close>

lemma connecting_step:
  assumes "conn_inv c" "enabled op c" "ordinary op" "cstate c = kConnecting"
  shows "conn_step user op c = Some c"
  using assms watched_open [OF assms(1)]
  by (cases op) (auto simp: send_def shutdown_def run_functor_def conn_inv_def chan_inv_def)

lemma established_stays:
  assumes "conn_inv c" "conn_inv c'" "cstate c \<noteq> kConnecting" "set (history c) \<subseteq> set (history c')"
  shows "cstate c' \<noteq> kConnecting"
proof -
  have "life c \<noteq> []" using assms(1,3) by (auto simp: conn_inv_def life_inv_def split: conn_state.splits)
  then obtain e where "e \<in> set (life c)" by (cases "life c") auto
  then have "e \<in> set (life c')" using assms(4) by (auto simp: life_def)
  then show ?thesis using assms(2) by (auto simp: conn_inv_def life_inv_def)
qed

text \<open>Only a report of the poller closes a connection.\<close>

fun reports :: "conn_op \<Rightarrow> bool" where
  "reports (PollEvent k rv r) = True"
| "reports _ = False"

lemma not_closing:
  assumes "conn_inv c" "enabled op c" "ordinary op" "\<not> reports op" "conn_step user op c = Some d"
  shows "Closed \<in> set (history d) \<longleftrightarrow> Closed \<in> set (history c)"
proof (cases op)
  case (LoopFunctor k)
  then show ?thesis using run_functor_ok [OF assms(1), of k user] assms(2,5) by auto
next
  case (LoopSend k data)
  then show ?thesis using send_ok [OF assms(1), of k True data] assms(2,5) by (auto simp: calm_def)
next
  case (OtherSend data)
  then show ?thesis using assms(5) by (auto simp: send_def queue_functor_def split: if_splits)
qed (use assms shutdown_ok [OF assms(1)] in \<open>auto simp: calm_def\<close>)

lemma reachable_conn_inv: "reachable_conn user c \<Longrightarrow> conn_inv c"
proof (induction rule: reachable_conn.induct)
  case (step c op c')
  then show ?case using conn_step_ok [of c op user] by auto
qed (auto simp: new_inv hwm_inv)

end
