(* ===== verification/Net_TcpConnProps.thy ===== *)
theory Net_TcpConnProps
  imports Net_TcpConnFacts
begin

unbundle bit_operations_syntax

text \<open>
  What connections guarantee: no reachable operation fails an assertion, the bytes of both directions
  are conserved in order, the connection callback is made once up and once down, what \<^verbatim>\<open>send\<close> does on
  each branch, and that a connection that was shut down still delivers its output before it closes its side.
\<close>

section \<open>The effect of the operations\<close>

lemma handleWrite_progress:
  assumes c: "conn_inv c" "cstate c = kDisconnecting" "readable (outputBuffer c) \<noteq> []" and k: "kernel_ok k"
    and n: "k c (readable (outputBuffer c)) = Wrote n" "n > 0"
  shows "\<exists>c'. handleWrite k c = Some c' \<and> accepted c' = accepted c \<and>
     length (readable (outputBuffer c')) < length (readable (outputBuffer c)) \<and> cstate c' = kDisconnecting \<and>
     (readable (outputBuffer c') = [] \<longrightarrow> writeShut c')"
proof -
  have w: "writing c" and buf: "buffer_inv (outputBuffer c)"
    using c by (auto simp: conn_inv_def chan_inv_def open_inv_def data_inv_def)
  have le: "n \<le> length (readable (outputBuffer c))"
    using n(1) k unfolding kernel_ok_def by (metis write_result.simps(5))
  obtain b where b: "retrieve (outputBuffer c) n = Some b" "buffer_inv b" "readable b = drop n (readable (outputBuffer c))"
    using retrieve_ok [OF buf le] by blast
  show ?thesis
    using w n b c(2) le
    by (cases "readable b = []")
      (auto simp: handleWrite_def readableBytes_0 on_channel_change queue_functor_def shutdownInLoop_def
        Let_def writing_def mask_bits)
qed

fun writable_events :: "user_code \<Rightarrow> kernel_write \<Rightarrow> readv_result \<Rightarrow> nat \<Rightarrow> conn \<Rightarrow> conn option" where
  "writable_events user k rv 0 c = Some c"
| "writable_events user k rv (Suc n) c = do { c1 \<leftarrow> poll_event user k rv POLLOUT c; writable_events user k rv n c1 }"

lemma poll_writable: "poll_event user k rv POLLOUT c = handleWrite k c"
  by (simp add: poll_event_def conn_channel_calls poll_bits split: bind_splits)


lemma shutdown_completes:
  assumes "conn_inv c" "cstate c = kDisconnecting" "readable (outputBuffer c) \<noteq> []" and k: "kernel_ok k"
    and progress: "\<forall>d data. \<not> writeShut d \<longrightarrow> data \<noteq> [] \<longrightarrow> (\<exists>n > 0. k d data = Wrote n)"
  shows "\<exists>n \<le> length (readable (outputBuffer c)). \<exists>c'. writable_events user k rv n c = Some c' \<and>
     writeShut c' \<and> sent c' = accepted c"
  using assms(1-3)
proof (induction "length (readable (outputBuffer c))" arbitrary: c rule: less_induct)
  case less
  have "\<not> writeShut c" using less.prems by (auto simp: conn_inv_def chan_inv_def)
  then obtain n where n: "k c (readable (outputBuffer c)) = Wrote n" "n > 0"
    using progress less.prems(3) by blast
  obtain c1 where c1: "handleWrite k c = Some c1" "accepted c1 = accepted c"
      "length (readable (outputBuffer c1)) < length (readable (outputBuffer c))" "cstate c1 = kDisconnecting"
      "readable (outputBuffer c1) = [] \<longrightarrow> writeShut c1"
    using handleWrite_progress [OF less.prems k n] by blast
  have inv: "conn_inv c1" using handleWrite_ok [OF less.prems(1) k] c1(1) by simp
  show ?case
  proof (cases "readable (outputBuffer c1) = []")
    case True
    then have "writable_events user k rv 1 c = Some c1 \<and> writeShut c1 \<and> sent c1 = accepted c"
      using c1 inv by (simp add: poll_writable conn_inv_def data_inv_def)
    then show ?thesis using less.prems(3) by (intro exI [of _ 1]) (auto simp: Suc_le_eq)
  next
    case False
    obtain n c' where n: "n \<le> length (readable (outputBuffer c1))" "writable_events user k rv n c1 = Some c'"
        "writeShut c'" "sent c' = accepted c1"
      using less.hyps [OF c1(3) inv c1(4) False] by blast
    then show ?thesis
      using c1 by (intro exI [of _ "Suc n"]) (auto simp: poll_writable)
  qed
qed

text \<open>How many bytes \<^verbatim>\<open>sendInLoop\<close> hands to the kernel at once; \<open>None\<close> when the peer is gone.\<close>

definition direct :: "kernel_write \<Rightarrow> char list \<Rightarrow> conn \<Rightarrow> nat option" where
  "direct k data c = (if readable (outputBuffer c) \<noteq> [] then Some 0
     else case k c data of Wrote n \<Rightarrow> Some n | WriteErr e \<Rightarrow> if e = EPIPE then None else Some 0)"

definition written_at_once :: "kernel_write \<Rightarrow> char list \<Rightarrow> conn \<Rightarrow> bool" where
  "written_at_once k data c \<longleftrightarrow> readable (outputBuffer c) = [] \<and> k c data = Wrote (length data)"

definition mark_crossed :: "nat \<Rightarrow> conn \<Rightarrow> bool" where
  "mark_crossed m c \<longleftrightarrow> highWaterMarkCallback c \<and> length (readable (outputBuffer c)) < highWaterMark c \<and>
     highWaterMark c \<le> length (readable (outputBuffer c)) + m"

lemma append_remaining_effect:
  assumes "buffer_inv (outputBuffer c)" "n < length data"
  shows "\<exists>c'. append_remaining n (length data - n) data c = Some c' \<and> sent c' = sent c \<and> cstate c' = cstate c \<and>
     readable (outputBuffer c') = readable (outputBuffer c) @ drop n data \<and>
     functors c' = functors c @ (if mark_crossed (length data - n) c
       then [HighWaterMark (length (readable (outputBuffer c)) + length data - n)] else [])"
proof -
  obtain b where b: "append_buffer (outputBuffer c) (drop n data) = Some b" "readable b = readable (outputBuffer c) @ drop n data"
    using append_ok [OF assms(1), of "drop n data"] by blast
  show ?thesis
    using b assms(2) length_readable [OF assms(1)]
    by (auto simp: append_remaining_def Let_def queue_functor_def on_channel_change mark_crossed_def)
qed

lemma sendInLoop_effect:
  assumes c: "conn_inv c" "open_state c" and k: "kernel_ok k"
  shows "\<exists>c'. sendInLoop k data c = Some c' \<and> (case direct k data c of None \<Rightarrow> c' = c
     | Some n \<Rightarrow> sent c' = sent c @ take n data \<and> cstate c' = cstate c \<and>
         readable (outputBuffer c') = readable (outputBuffer c) @ drop n data \<and>
         functors c' = functors c @ (if written_at_once k data c \<and> writeCompleteCallback c then [WriteComplete] else []) @
           (if n < length data \<and> mark_crossed (length data - n) c
            then [HighWaterMark (length (readable (outputBuffer c)) + length data - n)] else []))"
proof -
  have inv: "buffer_inv (outputBuffer c)" "writing c \<longleftrightarrow> readable (outputBuffer c) \<noteq> []" "cstate c \<noteq> kDisconnected"
    using c open_state_inv [OF c] by (auto simp: conn_inv_def data_inv_def open_inv_def open_state_def)
  have empty: "readableBytes (outputBuffer c) = 0 \<longleftrightarrow> readable (outputBuffer c) = []"
    using inv(1) by (rule readableBytes_0)
  show ?thesis
  proof (cases "readable (outputBuffer c) = []")
    case False
    then show ?thesis
      using append_remaining_effect [OF inv(1), of 0 data] inv(3) inv(2) empty
      by (auto simp: sendInLoop_def write_directly_def direct_def written_at_once_def)
  next
    case True
    show ?thesis
    proof (cases "k c data")
      case (WriteErr e)
      then show ?thesis
        using append_remaining_effect [OF inv(1), of 0 data] inv(2,3) empty True
        by (auto simp: sendInLoop_def write_directly_def direct_def written_at_once_def EPIPE_def EWOULDBLOCK_def)
    next
      case (Wrote n)
      then have n: "n \<le> length data" using k unfolding kernel_ok_def by (metis write_result.simps(5))
      show ?thesis
        using append_remaining_effect [of "c\<lparr>sent := sent c @ take n data\<rparr>" n data] inv empty True Wrote n
        by (auto simp: sendInLoop_def write_directly_def direct_def written_at_once_def mark_crossed_def
            queue_functor_def Let_def)
    qed
  qed
qed

section \<open>A connection that is shutting down\<close>

definition idle_user :: user_code where
  "idle_user ev c = []"

definition full_socket :: kernel_write where
  "full_socket c data = (if writeShut c then WriteErr EPIPE else Wrote 0)"

definition slow_socket :: kernel_write where
  "slow_socket c data = (if writeShut c then WriteErr EPIPE else Wrote (min 1 (length data)))"

lemma sockets_ok: "kernel_ok full_socket" "kernel_ok slow_socket"
  by (simp_all add: kernel_ok_def full_socket_def slow_socket_def)

lemma idle_connected:
  "\<exists>c. reachable_conn idle_user c \<and> cstate c = kConnected \<and> readable (outputBuffer c) = [] \<and> \<not> writeShut c \<and>
     accepted c = [] \<and> functors c = [] \<and> \<not> highWaterMarkCallback c \<and> readable (inputBuffer c) = []"
proof -
  define c where "c = (TcpConnection_new False)\<lparr>cstate := kConnected, cmask := kNoneEvent OR kReadEvent,
    registered := True, history := [ConnUp]\<rparr>"
  have "conn_step idle_user (Establish full_socket) (TcpConnection_new False) = Some c"
    by (simp add: c_def connectEstablished_def on_channel_change setState_def user_callback_def idle_user_def
        TcpConnection_new_def Let_def)
  then have "reachable_conn idle_user c"
    by (rule reachable_conn.step [OF reachable_conn.new, rotated]) (simp add: sockets_ok TcpConnection_new_def)
  then show ?thesis
    by (intro exI [of _ c]) (simp add: c_def TcpConnection_new_def)
qed

lemma idle_sending:
  "\<exists>c. reachable_conn idle_user c \<and> cstate c = kConnected \<and> readable (outputBuffer c) = ''hi''"
proof -
  obtain c where c: "reachable_conn idle_user c" "cstate c = kConnected" "readable (outputBuffer c) = []" "\<not> writeShut c"
    using idle_connected by blast
  have "\<exists>c'. send full_socket True ''hi'' c = Some c' \<and> cstate c' = kConnected \<and> readable (outputBuffer c') = ''hi''"
    using sendInLoop_effect [OF reachable_conn_inv [OF c(1)] _ sockets_ok(1), of "''hi''"] c(2-4)
    by (simp add: send_def open_state_def direct_def full_socket_def) blast
  then show ?thesis
    using reachable_conn.step [OF c(1), of "LoopSend full_socket ''hi''"] sockets_ok(1) by auto
qed

lemma idle_shutting:
  "\<exists>c. reachable_conn idle_user c \<and> cstate c = kDisconnecting \<and> readable (outputBuffer c) = ''hi''"
proof -
  obtain c where c: "reachable_conn idle_user c" "cstate c = kConnected" "readable (outputBuffer c) = ''hi''"
    using idle_sending by blast
  then have "reachable_conn idle_user (shutdown True c)" by (auto intro: reachable_conn.step [OF c(1), of LoopShutdown])
  then show ?thesis
    using c by (intro exI [of _ "shutdown True c"]) (simp add: shutdown_def setState_def shutdownInLoop_def Let_def)
qed

section \<open>Properties\<close>



text \<open>
  C1. Stream integrity: in every reachable state the bytes the kernel has accepted, followed by the
  output buffer, are the bytes the connection took on, in order; and the bytes the user has retrieved,
  followed by the input buffer, are the bytes received.
\<close>

theorem conn_stream_integrity:
  assumes "reachable_conn user c"
  shows "sent c @ readable (outputBuffer c) = accepted c \<and> consumed c @ readable (inputBuffer c) = received c"
  using reachable_conn_inv [OF assms] by (simp add: conn_inv_def data_inv_def)

theorem conn_stream_integrity_witness:
  "\<exists>c. reachable_conn idle_user c \<and> readable (outputBuffer c) = ''hi'' \<and> sent c @ ''hi'' = accepted c \<and>
     consumed c @ readable (inputBuffer c) = received c"
proof -
  obtain c where c: "reachable_conn idle_user c" "readable (outputBuffer c) = ''hi''" using idle_sending by blast
  show ?thesis using conn_stream_integrity [OF c(1)] c by (intro exI [of _ c]) simp
qed

text \<open>
  C16. The connection callback is made once when the connection comes up and at most once when it goes
  down, the close callback at most once and only after it; the connection is up exactly between the two.
\<close>

theorem conn_callbacks_once:
  assumes "reachable_conn user c"
  shows "prefix (life c) [ConnUp, ConnDown, Closed] \<and> (cstate c = kConnecting \<longleftrightarrow> life c = []) \<and>
     (cstate c = kDisconnected \<longleftrightarrow> ConnDown \<in> set (history c))"
proof -
  have "ConnDown \<in> set (history c) \<longleftrightarrow> ConnDown \<in> set (life c)" by (simp add: life_def)
  then show ?thesis
    using reachable_conn_inv [OF assms] by (auto simp: conn_inv_def life_inv_def split: conn_state.splits)
qed

theorem conn_callbacks_once_witness:
  "\<exists>c. reachable_conn idle_user c \<and> cstate c = kConnected \<and> prefix (life c) [ConnUp, ConnDown, Closed] \<and> life c \<noteq> []"
proof -
  obtain c where c: "reachable_conn idle_user c" "cstate c = kConnected" using idle_connected by blast
  show ?thesis using c conn_callbacks_once [OF c(1)] by (intro exI [of _ c]) simp
qed



text \<open>
  C14. A connection that was shut down with data in its output buffer delivers that data first: if the
  kernel takes at least one byte at each report of writability, then after at most as many reports as
  there are bytes all that was taken on has been sent and the writing side is shut down.
\<close>

theorem graceful_shutdown:
  assumes "reachable_conn user c" "cstate c = kDisconnecting" "readable (outputBuffer c) \<noteq> []" "kernel_ok k"
    "\<forall>d data. \<not> writeShut d \<longrightarrow> data \<noteq> [] \<longrightarrow> (\<exists>n > 0. k d data = Wrote n)"
  shows "\<exists>n \<le> length (readable (outputBuffer c)). \<exists>c'. writable_events user k rv n c = Some c' \<and>
     writeShut c' \<and> sent c' = accepted c"
  by (rule shutdown_completes [OF reachable_conn_inv [OF assms(1)] assms(2-5)])

theorem graceful_shutdown_witness:
  "\<exists>c n c'. cstate c = kDisconnecting \<and> readable (outputBuffer c) = ''hi'' \<and> n \<le> 2 \<and>
     writable_events idle_user slow_socket (ReadvError 0) n c = Some c' \<and> writeShut c' \<and> sent c' = accepted c"
proof -
  obtain c where c: "reachable_conn idle_user c" "cstate c = kDisconnecting" "readable (outputBuffer c) = ''hi''"
    using idle_shutting by blast
  have "\<forall>d data. \<not> writeShut d \<longrightarrow> data \<noteq> [] \<longrightarrow> (\<exists>n > 0. slow_socket d data = Wrote n)"
    by (auto simp: slow_socket_def)
  then obtain n c' where "n \<le> length (readable (outputBuffer c))"
      "writable_events idle_user slow_socket (ReadvError 0) n c = Some c'" "writeShut c'" "sent c' = accepted c"
    using graceful_shutdown [OF c(1,2) _ sockets_ok(2), of "ReadvError 0"] c(3) by auto
  then show ?thesis using c(2,3) by (intro exI [of _ c] exI [of _ n] exI [of _ c']) simp
qed

text \<open>
  C37. \<^verbatim>\<open>connectDestroyed\<close> is not prepared for a connection that is being shut down: only
  the state kConnected makes it disable the channel, and removing a channel that still waits for events
  fails the assertion of \<^verbatim>\<open>Channel::remove\<close>. The server's destructor runs it on every connection.
\<close>

theorem destroy_while_disconnecting_fails:
  assumes "reachable_conn user c" "cstate c = kDisconnecting"
  shows "connectDestroyed user k c = None"
proof -
  have "reading c" using reachable_conn_inv [OF assms(1)] assms(2) by (simp add: conn_inv_def chan_inv_def open_inv_def)
  then have "cmask c \<noteq> kNoneEvent" by (auto simp: reading_def kNoneEvent_def)
  then show ?thesis using assms(2) by (simp add: connectDestroyed_def on_channel_remove_fails)
qed

theorem destroy_while_disconnecting_fails_witness:
  "\<exists>c. reachable_conn idle_user c \<and> connectDestroyed idle_user slow_socket c = None"
proof -
  obtain c where c: "reachable_conn idle_user c" "cstate c = kDisconnecting" using idle_shutting by blast
  show ?thesis using c(1) destroy_while_disconnecting_fails [OF c] by (intro exI [of _ c]) simp
qed

end
