(* ===== verification/Net_Socket.thy ===== *)
theory Net_Socket
  imports Net_Endian
begin

text \<open>
  Socket calls and addresses (\<^verbatim>\<open>muduo/net/SocketsOps.cc\<close>, \<^verbatim>\<open>InetAddress.h\<close>, \<^verbatim>\<open>InetAddress.cc\<close>,
  \<^verbatim>\<open>Socket.cc\<close>). What a system call returns is an argument: a value or an \<open>errno\<close>. \<^verbatim>\<open>LOG_FATAL\<close> and
  \<^verbatim>\<open>LOG_SYSFATAL\<close> abort the process, which is \<open>None\<close>. An address holds the port and the IP address in
  network byte order, so their values depend on the byte order \<open>e\<close> of the host.
\<close>

section \<open>Addresses\<close>

definition AF_INET :: nat where "AF_INET = 2"
definition INET_ADDRSTRLEN :: nat where "INET_ADDRSTRLEN = 16"

record sockaddr_in =
  sin_family :: nat
  sin_port :: "16 word"
  sin_addr :: "32 word"

text \<open>\<^verbatim>\<open>bzero\<close> of an address.\<close>

definition zero_addr :: sockaddr_in where
  "zero_addr = \<lparr>sin_family = 0, sin_port = 0, sin_addr = 0\<rparr>"

text \<open>\<^verbatim>\<open>inet_ntop(AF_INET)\<close>: the four bytes in memory as dotted decimals.\<close>

fun dotted :: "char list \<Rightarrow> string" where
  "dotted [] = []"
| "dotted [b] = print_nat (of_char b)"
| "dotted (b # bs) = print_nat (of_char b) @ CHR ''.'' # dotted bs"

text \<open>
  \<^verbatim>\<open>inet_pton(AF_INET)\<close>: four decimals separated by dots, each at most 255 and without leading zeros;
  \<open>tp\<close> is the octet being read, \<open>saw\<close> whether it has a digit, \<open>done\<close> the octets before it.
\<close>

fun pton4 :: "char list \<Rightarrow> nat \<Rightarrow> bool \<Rightarrow> string \<Rightarrow> char list option" where
  "pton4 done tp saw [] = (if saw \<and> length done = 3 then Some (done @ [char_of tp]) else None)"
| "pton4 done tp saw (ch # src) =
     (if is_digit ch
      then let new = tp * 10 + digit_value ch in
           if saw \<and> tp = 0 \<or> new > 255 then None else pton4 done new True src
      else if ch = CHR ''.'' \<and> saw \<and> length done < 3
           then pton4 (done @ [char_of tp]) 0 False src
           else None)"

definition inet_pton :: "string \<Rightarrow> char list option" where
  "inet_pton ip = pton4 [] 0 False ip"

definition toIp :: "endian \<Rightarrow> nat \<Rightarrow> sockaddr_in \<Rightarrow> string option" where
  "toIp e sz addr =
     do {
       check (sz \<ge> INET_ADDRSTRLEN);
       Some (dotted (mem_store e 4 (sin_addr addr)))
     }"

definition toIpPort :: "endian \<Rightarrow> nat \<Rightarrow> sockaddr_in \<Rightarrow> string option" where
  "toIpPort e sz addr =
     do {
       host \<leftarrow> toIp e INET_ADDRSTRLEN addr;
       let port = networkToHost16 e (sin_port addr);
       Some (snprintf sz (host @ CHR '':'' # print_nat (unat port)))
     }"

text \<open>A string that is no address only logs; the address then keeps its old IP.\<close>

definition fromIpPort :: "endian \<Rightarrow> string \<Rightarrow> 16 word \<Rightarrow> sockaddr_in \<Rightarrow> sockaddr_in" where
  "fromIpPort e ip port addr =
     (let addr1 = addr\<lparr>sin_family := AF_INET, sin_port := hostToNetwork16 e port\<rparr> in
      case inet_pton ip of None \<Rightarrow> addr1 | Some bytes \<Rightarrow> addr1\<lparr>sin_addr := mem_load e bytes\<rparr>)"

definition kInaddrAny :: "32 word" where "kInaddrAny = 0"

definition InetAddress_port :: "endian \<Rightarrow> 16 word \<Rightarrow> sockaddr_in" where
  "InetAddress_port e port = zero_addr\<lparr>sin_family := AF_INET, sin_addr := hostToNetwork32 e kInaddrAny,
     sin_port := hostToNetwork16 e port\<rparr>"

definition InetAddress_ip_port :: "endian \<Rightarrow> string \<Rightarrow> 16 word \<Rightarrow> sockaddr_in" where
  "InetAddress_ip_port e ip port = fromIpPort e ip port zero_addr"

definition InetAddress_toIpPort :: "endian \<Rightarrow> sockaddr_in \<Rightarrow> string option" where
  "InetAddress_toIpPort e addr = toIpPort e 32 addr"

definition InetAddress_toIp :: "endian \<Rightarrow> sockaddr_in \<Rightarrow> string option" where
  "InetAddress_toIp e addr = toIp e 32 addr"

section \<open>System calls\<close>

definition createNonblockingOrDie :: "int \<Rightarrow> int option" where
  "createNonblockingOrDie sockfd = (if sockfd < 0 then None else Some sockfd)"

definition bindOrDie :: "int \<Rightarrow> unit option" where
  "bindOrDie ret = (if ret < 0 then None else Some ())"

definition listenOrDie :: "int \<Rightarrow> unit option" where
  "listenOrDie ret = (if ret < 0 then None else Some ())"

datatype accept_result = Accepted int sockaddr_in | AcceptErr int

definition EPERM :: int where "EPERM = 1"
definition EINTR :: int where "EINTR = 4"
definition EAGAIN :: int where "EAGAIN = 11"
definition EMFILE :: int where "EMFILE = 24"
definition EPROTO :: int where "EPROTO = 71"
definition ECONNABORTED :: int where "ECONNABORTED = 103"

lemmas errnos = EPERM_def EINTR_def EAGAIN_def EMFILE_def EPROTO_def ECONNABORTED_def

text \<open>The result of \<^verbatim>\<open>accept\<close>: the descriptor or -1, the address written, and \<open>errno\<close>.\<close>

definition sockets_accept :: "accept_result \<Rightarrow> (int \<times> sockaddr_in \<times> int) option" where
  "sockets_accept res = (case res of
      Accepted connfd addr \<Rightarrow> Some (connfd, addr, 0)
    | AcceptErr savedErrno \<Rightarrow>
        (if savedErrno \<in> {EAGAIN, ECONNABORTED, EINTR, EPROTO, EPERM, EMFILE}
         then Some (-1, zero_addr, savedErrno)
         else None))"

text \<open>\<^verbatim>\<open>Socket::accept\<close> hands the peer's address to its caller only on success.\<close>

definition Socket_accept :: "accept_result \<Rightarrow> sockaddr_in \<Rightarrow> (int \<times> sockaddr_in \<times> int) option" where
  "Socket_accept res peeraddr =
     do {
       (connfd, addr, errno) \<leftarrow> sockets_accept res;
       Some (connfd, if connfd \<ge> 0 then addr else peeraddr, errno)
     }"

definition getSocketError :: "int + int \<Rightarrow> int" where
  "getSocketError res = (case res of Inl errno \<Rightarrow> errno | Inr optval \<Rightarrow> optval)"

definition getLocalAddr :: "sockaddr_in option \<Rightarrow> sockaddr_in" where
  "getLocalAddr res = (case res of None \<Rightarrow> zero_addr | Some a \<Rightarrow> a)"

definition getPeerAddr :: "sockaddr_in option \<Rightarrow> sockaddr_in" where
  "getPeerAddr res = (case res of None \<Rightarrow> zero_addr | Some a \<Rightarrow> a)"

definition isSelfConnect :: "sockaddr_in option \<Rightarrow> sockaddr_in option \<Rightarrow> bool" where
  "isSelfConnect sockname peername =
     (let localaddr = getLocalAddr sockname; peeraddr = getPeerAddr peername in
      sin_port localaddr = sin_port peeraddr \<and> sin_addr localaddr = sin_addr peeraddr)"

text \<open>The socket options, as the kernel keeps them.\<close>

record socket_options =
  tcp_nodelay :: bool
  so_reuseaddr :: bool
  so_keepalive :: bool

definition setTcpNoDelay :: "bool \<Rightarrow> socket_options \<Rightarrow> socket_options" where
  "setTcpNoDelay on s = s\<lparr>tcp_nodelay := on\<rparr>"

definition setReuseAddr :: "bool \<Rightarrow> socket_options \<Rightarrow> socket_options" where
  "setReuseAddr on s = s\<lparr>so_reuseaddr := on\<rparr>"

definition setKeepAlive :: "bool \<Rightarrow> socket_options \<Rightarrow> socket_options" where
  "setKeepAlive on s = s\<lparr>so_keepalive := on\<rparr>"

section \<open>Printing and reading addresses\<close>

lemma digit_value_0: "is_digit c \<Longrightarrow> digit_value c = 0 \<Longrightarrow> c = CHR ''0''"
proof -
  assume "is_digit c" "digit_value c = 0"
  then have "(of_char c :: nat) = of_char (CHR ''0'')" by (simp add: is_digit_def digit_value_def)
  then show ?thesis by (simp only: of_char_eq_iff)
qed

lemma pton4_digits:
  assumes "\<forall>c \<in> set ds. is_digit c" "saw \<longrightarrow> 0 < tp" "ds \<noteq> []" "hd ds \<noteq> CHR ''0'' \<or> saw"
    "foldl (\<lambda>acc c. 10 * acc + digit_value c) tp ds \<le> 255"
  shows "pton4 done tp saw (ds @ rest) = pton4 done (foldl (\<lambda>acc c. 10 * acc + digit_value c) tp ds) True rest"
  using assms
proof (induction ds arbitrary: tp saw)
  case (Cons d ds)
  have mono: "acc \<le> foldl (\<lambda>acc c. 10 * acc + digit_value c) acc xs" for acc :: nat and xs
  proof (induction xs arbitrary: acc)
    case (Cons x xs)
    show ?case using Cons [of "10 * acc + digit_value x"] by simp
  qed simp
  have le: "tp * 10 + digit_value d \<le> 255"
    using mono [of "10 * tp + digit_value d" ds] Cons.prems(5) by simp
  show ?case
  proof (cases ds)
    case Nil
    then show ?thesis using Cons.prems le by (auto simp: Let_def mult.commute)
  next
    case (Cons d2 ds2)
    have "0 < digit_value d \<or> saw"
      using Cons.prems(1,4) digit_value_0 [of d] by auto
    then show ?thesis
      using Cons.IH [of True "tp * 10 + digit_value d"] Cons.prems le \<open>ds = d2 # ds2\<close>
      by (auto simp: Let_def mult.commute)
  qed
qed simp

lemma hd_print_nat: "0 < n \<Longrightarrow> hd (print_nat n) \<noteq> CHR ''0''"
proof (induction n rule: print_nat.induct)
  case (1 n)
  show ?case
  proof (cases "n < 10")
    case True
    have "digit n \<noteq> CHR ''0''"
      using True "1.prems" digit_value_digit [of n] by (auto simp: digit_value_def)
    then show ?thesis using True by (simp add: print_nat_small)
  next
    case False
    then show ?thesis using "1.IH" by (simp add: print_nat.simps [of n])
  qed
qed

lemma pton4_print_nat:
  assumes "n < 256"
  shows "pton4 done 0 False (print_nat n @ rest) = pton4 done n True rest"
proof (cases "n = 0")
  case True
  then show ?thesis by (simp add: print_nat_small Let_def)
next
  case False
  then show ?thesis
    using pton4_digits [of "print_nat n" False 0 "done" rest] print_nat_is_digit hd_print_nat [of n]
      read_nat_print_nat [of n] assms
    by (auto simp: read_nat_def)
qed

lemma of_char_less: "(of_char c :: nat) < 256"
  by simp

lemma inet_pton_dotted: "inet_pton (dotted [a, b, c, d]) = Some [a, b, c, d]"
proof -
  have dot: "\<not> is_digit (CHR ''.'')" by (simp add: is_digit_def)
  have last: "pton4 [a, b, c] 0 False (print_nat (of_char d)) = Some [a, b, c, d]"
    using pton4_print_nat [OF of_char_less, of "[a, b, c]" d "[]"] by simp
  show ?thesis
    by (simp add: inet_pton_def pton4_print_nat [OF of_char_less] dot last)
qed

lemma four_bytes: "length bs = 4 \<Longrightarrow> \<exists>a b c d. bs = [a, b, c, d]"
  by (auto simp: length_Suc_conv numeral_eq_Suc)

lemma length_dotted: "length (dotted [a, b, c, d]) \<le> 15"
proof -
  have "length (print_nat (of_char x)) \<le> 3" for x :: char
    using length_print_nat_le [of "of_char x" 3] of_char_less [of x] by simp
  from this [of a] this [of b] this [of c] this [of d] show ?thesis by simp
qed

lemma mem_load_store: "mem_load e (mem_store e 4 (w :: 32 word)) = w"
  by (cases e) (simp_all add: mem_load_def mem_store_def bytes_word_word_bytes)

lemma dotted_inject: "length bs = 4 \<Longrightarrow> length cs = 4 \<Longrightarrow> dotted bs = dotted cs \<Longrightarrow> bs = cs"
  by (metis four_bytes inet_pton_dotted option.inject)

lemma dotted_chars: "ch \<in> set (dotted bs) \<Longrightarrow> is_digit ch \<or> ch = CHR ''.''"
  by (induction bs rule: dotted.induct) (auto dest: print_nat_is_digit)

lemma split_at_sep: "x \<notin> set as \<Longrightarrow> x \<notin> set bs \<Longrightarrow> as @ x # us = bs @ x # vs \<Longrightarrow> as = bs \<and> us = vs"
proof (induction as arbitrary: bs)
  case Nil
  then show ?case by (cases bs) auto
next
  case (Cons a as)
  then show ?case by (cases bs) auto
qed

text \<open>The text of an address and its port, before it is cut to the buffer.\<close>

definition ip_port_text :: "endian \<Rightarrow> sockaddr_in \<Rightarrow> string" where
  "ip_port_text e a = dotted (mem_store e 4 (sin_addr a)) @ CHR '':'' # print_nat (unat (networkToHost16 e (sin_port a)))"

lemma length_ip_port_text: "length (ip_port_text e a) \<le> 21"
proof -
  obtain b1 b2 b3 b4 where b: "mem_store e 4 (sin_addr a) = [b1, b2, b3, b4]"
    using four_bytes [OF length_mem_store] by blast
  have "unat (networkToHost16 e (sin_port a)) < 10 ^ 5"
    using unsigned_less [of "networkToHost16 e (sin_port a)", where 'a = nat] by simp
  then have "length (print_nat (unat (networkToHost16 e (sin_port a)))) \<le> 5"
    by (rule length_print_nat_le) simp
  then show ?thesis using length_dotted [of b1 b2 b3 b4] b by (simp add: ip_port_text_def)
qed

lemma toIpPort_text: "InetAddress_toIpPort e a = Some (ip_port_text e a)"
  using length_ip_port_text [of e a]
  by (simp add: InetAddress_toIpPort_def toIpPort_def toIp_def snprintf_def ip_port_text_def)

lemma networkToHost16_inject: "networkToHost16 e v = networkToHost16 e w \<Longrightarrow> v = w"
proof -
  assume "networkToHost16 e v = networkToHost16 e w"
  then have "htobe e 2 (htobe e 2 v) = htobe e 2 (htobe e 2 w)" by (simp add: networkToHost16_def)
  then show ?thesis by (simp add: htobe_involution)
qed

section \<open>Properties\<close>

text \<open>
  C33. Addresses survive their text: constructing an address from the text that \<^verbatim>\<open>toIp\<close> prints and from
  its port gives the same address back, on hosts of both byte orders.
\<close>

theorem InetAddress_round_trip:
  assumes "sin_family a = AF_INET"
  shows "\<exists>ip. InetAddress_toIp e a = Some ip \<and> InetAddress_ip_port e ip (networkToHost16 e (sin_port a)) = a"
proof -
  obtain b1 b2 b3 b4 where b: "mem_store e 4 (sin_addr a) = [b1, b2, b3, b4]"
    using four_bytes [OF length_mem_store] by blast
  have "mem_load e [b1, b2, b3, b4] = sin_addr a" using mem_load_store [of e "sin_addr a"] b by simp
  moreover have "hostToNetwork16 e (networkToHost16 e (sin_port a)) = sin_port a"
    by (simp add: hostToNetwork16_def networkToHost16_def htobe_involution)
  ultimately show ?thesis
    using assms b inet_pton_dotted [of b1 b2 b3 b4]
    by (simp add: InetAddress_toIp_def toIp_def INET_ADDRSTRLEN_def InetAddress_ip_port_def fromIpPort_def
        zero_addr_def)
qed

theorem InetAddress_round_trip_witness:
  "\<exists>ip. InetAddress_toIp Little (InetAddress_port Little 9981) = Some ip \<and>
     InetAddress_ip_port Little ip (networkToHost16 Little (sin_port (InetAddress_port Little 9981))) =
       InetAddress_port Little 9981"
  by (rule InetAddress_round_trip) (simp add: InetAddress_port_def)

text \<open>
  The 32 bytes that \<^verbatim>\<open>InetAddress::toIpPort\<close> prints to are always enough: the text is never cut, has at
  most 21 characters, and two addresses with the same text have the same IP and port.
\<close>

theorem toIpPort_never_cut:
  "InetAddress_toIpPort e a = Some (ip_port_text e a) \<and> length (ip_port_text e a) \<le> 21 \<and>
   (ip_port_text e a = ip_port_text e b \<longleftrightarrow> sin_addr a = sin_addr b \<and> sin_port a = sin_port b)"
proof -
  have colon: "CHR '':'' \<notin> set (dotted bs)" for bs
    using dotted_chars [of "CHR '':''" bs] by (auto simp: is_digit_def)
  let ?m = "\<lambda>x. mem_store e 4 (sin_addr x)" and ?p = "\<lambda>x. unat (networkToHost16 e (sin_port x))"
  have "ip_port_text e a = ip_port_text e b \<longleftrightarrow> sin_addr a = sin_addr b \<and> sin_port a = sin_port b"
  proof
    assume "ip_port_text e a = ip_port_text e b"
    then have "dotted (?m a) = dotted (?m b) \<and> print_nat (?p a) = print_nat (?p b)"
      unfolding ip_port_text_def by (rule split_at_sep [OF colon colon])
    then have "?m a = ?m b" and "read_nat (print_nat (?p a)) = read_nat (print_nat (?p b))"
      using dotted_inject [OF length_mem_store length_mem_store] by (blast, simp only:)
    then have "mem_load e (?m a) = (mem_load e (?m b) :: 32 word)" and "?p a = ?p b"
      by (simp_all only: read_nat_print_nat)
    then have "sin_addr a = sin_addr b" "networkToHost16 e (sin_port a) = networkToHost16 e (sin_port b)"
      by (simp_all only: mem_load_store word_unat_eq_iff)
    then show "sin_addr a = sin_addr b \<and> sin_port a = sin_port b" using networkToHost16_inject by blast
  qed (simp add: ip_port_text_def)
  then show ?thesis by (intro conjI toIpPort_text length_ip_port_text)
qed

end
