(* ===== verification/Net_Acceptor.thy ===== *)
theory Net_Acceptor
  imports Net_Socket Net_Poller
begin

unbundle bit_operations_syntax

text \<open>
  The acceptor (\<^verbatim>\<open>muduo/net/Acceptor.h\<close>, \<^verbatim>\<open>Acceptor.cc\<close>). The system calls on descriptors are a
  parameter, a record of functions on a kernel state of any type; what the code relies on of them
  (the table of descriptors is limited, \<^verbatim>\<open>accept\<close> takes the oldest pending connection) is
  \<open>fd_kernel\<close>. The acceptor's channel is the abstract channel of the poller contract.
\<close>

record 'k syscalls =
  sys_accept :: "'k \<Rightarrow> accept_result \<times> 'k"
  sys_close :: "int \<Rightarrow> 'k \<Rightarrow> 'k"
  sys_open_null :: "'k \<Rightarrow> int \<times> 'k"

record acceptor =
  acceptChannel :: "32 word \<times> bool"
  hasNewConnectionCallback :: bool
  listenning :: bool
  idleFd :: int

definition own_channel :: "(nat \<Rightarrow> chan_op) \<Rightarrow> 32 word \<times> bool \<Rightarrow> (32 word \<times> bool) option" where
  "own_channel op s = do { a \<leftarrow> spec_step (op 0) [0 \<mapsto> s]; a 0 }"

definition Acceptor_new :: "'k syscalls \<Rightarrow> int \<Rightarrow> int \<Rightarrow> 'k \<Rightarrow> (acceptor \<times> 'k) option" where
  "Acceptor_new sys sockRet bindRet k =
     do {
       sockfd \<leftarrow> createNonblockingOrDie sockRet;
       let (spare, k1) = sys_open_null sys k;
       check (spare \<ge> 0);
       bindOrDie bindRet;
       Some (\<lparr>acceptChannel = (kNoneEvent, False), hasNewConnectionCallback = False, listenning = False, idleFd = spare\<rparr>, k1)
     }"

definition setNewConnectionCallback :: "acceptor \<Rightarrow> acceptor" where
  "setNewConnectionCallback acc = acc\<lparr>hasNewConnectionCallback := True\<rparr>"

definition Acceptor_delete :: "'k syscalls \<Rightarrow> acceptor \<Rightarrow> 'k \<Rightarrow> 'k option" where
  "Acceptor_delete sys acc k =
     do {
       ch \<leftarrow> own_channel (Change DisableAll) (acceptChannel acc);
       ch1 \<leftarrow> own_channel Remove ch;
       Some (sys_close sys (idleFd acc) k)
     }"

definition Acceptor_listen :: "bool \<Rightarrow> int \<Rightarrow> acceptor \<Rightarrow> acceptor option" where
  "Acceptor_listen inLoop listenRet acc =
     do {
       check inLoop;
       listenOrDie listenRet;
       ch \<leftarrow> own_channel (Change EnableReading) (acceptChannel acc);
       Some (acc\<lparr>listenning := True, acceptChannel := ch\<rparr>)
     }"

text \<open>The result of the read event: the connection handed to the callback, if any.\<close>

definition Acceptor_handleRead ::
  "'k syscalls \<Rightarrow> endian \<Rightarrow> bool \<Rightarrow> acceptor \<Rightarrow> 'k \<Rightarrow> ((int \<times> sockaddr_in) option \<times> acceptor \<times> 'k) option" where
  "Acceptor_handleRead sys e inLoop acc k =
     do {
       check inLoop;
       let (res, k1) = sys_accept sys k;
       (connfd, peerAddr, errno) \<leftarrow> Socket_accept res (InetAddress_port e 0);
       (if connfd \<ge> 0
        then if hasNewConnectionCallback acc
             then Some (Some (connfd, peerAddr), acc, k1)
             else Some (None, acc, sys_close sys connfd k1)
        else if errno = EMFILE
        then let k2 = sys_close sys (idleFd acc) k1;
                 (res2, k3) = sys_accept sys k2;
                 fd2 = (case res2 of Accepted newfd a \<Rightarrow> newfd | AcceptErr err \<Rightarrow> -1);
                 k4 = sys_close sys fd2 k3;
                 (fd3, k5) = sys_open_null sys k4
             in Some (None, acc\<lparr>idleFd := fd3\<rparr>, k5)
        else Some (None, acc, k1))
     }"

section \<open>What the code relies on of the kernel\<close>

definition fd_kernel :: "'k syscalls \<Rightarrow> ('k \<Rightarrow> int set) \<Rightarrow> ('k \<Rightarrow> sockaddr_in list) \<Rightarrow> nat \<Rightarrow> bool" where
  "fd_kernel sys opened backlog limit \<longleftrightarrow>
     (\<forall>k. finite (opened k)) \<and>
     (\<forall>k. backlog k = [] \<longrightarrow> sys_accept sys k = (AcceptErr EAGAIN, k)) \<and>
     (\<forall>k. backlog k \<noteq> [] \<longrightarrow> card (opened k) \<ge> limit \<longrightarrow> sys_accept sys k = (AcceptErr EMFILE, k)) \<and>
     (\<forall>k. backlog k \<noteq> [] \<longrightarrow> card (opened k) < limit \<longrightarrow>
        (\<exists>fd k'. sys_accept sys k = (Accepted fd (hd (backlog k)), k') \<and> 0 \<le> fd \<and> fd \<notin> opened k \<and>
           opened k' = insert fd (opened k) \<and> backlog k' = tl (backlog k))) \<and>
     (\<forall>fd k. opened (sys_close sys fd k) = opened k - {fd} \<and> backlog (sys_close sys fd k) = backlog k) \<and>
     (\<forall>k. card (opened k) < limit \<longrightarrow>
        (\<exists>fd k'. sys_open_null sys k = (fd, k') \<and> 0 \<le> fd \<and> fd \<notin> opened k \<and>
           opened k' = insert fd (opened k) \<and> backlog k' = backlog k))"

text \<open>A kernel that satisfies it: a list of open descriptors and the backlog.\<close>

definition unused_fd :: "int list \<Rightarrow> int" where
  "unused_fd fds = 1 + foldr max fds 0"

definition list_kernel :: "nat \<Rightarrow> (int list \<times> sockaddr_in list) syscalls" where
  "list_kernel limit = \<lparr>
     sys_accept = (\<lambda>(fds, bs). case bs of [] \<Rightarrow> (AcceptErr EAGAIN, (fds, bs))
       | b # bs' \<Rightarrow> if card (set fds) \<ge> limit then (AcceptErr EMFILE, (fds, bs))
                    else (Accepted (unused_fd fds) b, (unused_fd fds # fds, bs'))),
     sys_close = (\<lambda>fd (fds, bs). (filter (\<lambda>x. x \<noteq> fd) fds, bs)),
     sys_open_null = (\<lambda>(fds, bs). if card (set fds) \<ge> limit then (-1, (fds, bs))
                    else (unused_fd fds, (unused_fd fds # fds, bs)))\<rparr>"

lemma foldr_max_le: "x \<in> set fds \<Longrightarrow> x \<le> foldr max fds (0 :: int)" and foldr_max_ge: "0 \<le> foldr max fds (0 :: int)"
  by (induction fds) auto

lemma unused_fd_fresh: "unused_fd fds \<notin> set fds" "0 \<le> unused_fd fds"
  using foldr_max_le [of "unused_fd fds" fds] foldr_max_ge [of fds] by (auto simp: unused_fd_def)

lemma list_kernel_ok: "fd_kernel (list_kernel limit) (set \<circ> fst) snd limit"
  unfolding fd_kernel_def
  by (auto simp: list_kernel_def unused_fd_fresh neq_Nil_conv)

section \<open>Properties\<close>

text \<open>
  C32. With the descriptor table full, the acceptor still takes a pending connection off the backlog and
  closes it, so the listening socket does not stay readable for it: one descriptor is given up, used for
  the connection and taken back. The spare descriptor is open again and the number of open ones is unchanged.
\<close>

theorem acceptor_sheds_when_full:
  assumes kernel: "fd_kernel sys opened backlog limit" and full: "card (opened k) = limit" "idleFd acc \<in> opened k"
    and pending: "backlog k = p # ps"
  shows "\<exists>fd k'. Acceptor_handleRead sys e True acc k = Some (None, acc\<lparr>idleFd := fd\<rparr>, k') \<and> backlog k' = ps \<and>
     card (opened k') = limit \<and> fd \<in> opened k' \<and> 0 \<le> fd"
proof -
  let ?k2 = "sys_close sys (idleFd acc) k"
  have fin: "finite (opened x)" for x using kernel by (simp add: fd_kernel_def)
  have k: "sys_accept sys k = (AcceptErr EMFILE, k)"
    using kernel full pending by (simp add: fd_kernel_def)
  have k2: "opened ?k2 = opened k - {idleFd acc}" "backlog ?k2 = p # ps"
    using kernel pending by (simp_all add: fd_kernel_def)
  have lim: "card (opened ?k2) + 1 = limit" "card (opened ?k2) < limit"
    using k2(1) full fin [of k] card_Suc_Diff1 [of "opened k" "idleFd acc"] by auto
  obtain fd2 k3 where k3: "sys_accept sys ?k2 = (Accepted fd2 p, k3)" "0 \<le> fd2" "fd2 \<notin> opened ?k2"
      "opened k3 = insert fd2 (opened ?k2)" "backlog k3 = ps"
    using kernel lim(2) k2(2) unfolding fd_kernel_def by (metis list.distinct(1) list.sel(1,3))
  let ?k4 = "sys_close sys fd2 k3"
  have k4: "opened ?k4 = opened ?k2" "backlog ?k4 = ps"
    using kernel k3 unfolding fd_kernel_def by auto
  obtain fd3 k5 where k5: "sys_open_null sys ?k4 = (fd3, k5)" "0 \<le> fd3" "fd3 \<notin> opened ?k4"
      "opened k5 = insert fd3 (opened ?k4)" "backlog k5 = ps"
    using kernel lim(2) k4 unfolding fd_kernel_def by metis
  have "card (opened k5) = limit" using k5(3,4) k4(1) lim(1) fin by simp
  then show ?thesis
    using k k3(1) k5
    by (intro exI [of _ fd3] exI [of _ k5]) (simp add: Acceptor_handleRead_def Socket_accept_def sockets_accept_def errnos)
qed

theorem acceptor_sheds_when_full_witness:
  "\<exists>fd k'. Acceptor_handleRead (list_kernel 2) Little True
       \<lparr>acceptChannel = (kReadEvent, True), hasNewConnectionCallback = True, listenning = True, idleFd = 4\<rparr>
       ([3, 4], [InetAddress_port Little 1]) =
     Some (None, \<lparr>acceptChannel = (kReadEvent, True), hasNewConnectionCallback = True, listenning = True, idleFd = fd\<rparr>, k') \<and>
     snd k' = [] \<and> card (set (fst k')) = 2 \<and> fd \<in> set (fst k')"
  using acceptor_sheds_when_full [OF list_kernel_ok, of "([3, 4], [InetAddress_port Little 1])" 2
    "\<lparr>acceptChannel = (kReadEvent, True), hasNewConnectionCallback = True, listenning = True, idleFd = 4\<rparr>"
    "InetAddress_port Little 1" "[]" Little]
  by (simp, elim exE conjE) (intro exI conjI, assumption+)

end
