(* ===== verification/Net_LoopThread.thy ===== *)
theory Net_LoopThread
  imports Muduo_Prelude
begin

text \<open>
  Loop threads (\<^verbatim>\<open>muduo/net/EventLoopThread.h\<close>, \<^verbatim>\<open>EventLoopThread.cc\<close>) and the pool of them
  (\<^verbatim>\<open>EventLoopThreadPool.h\<close>, \<^verbatim>\<open>EventLoopThreadPool.cc\<close>). Starting a thread is a protocol of two threads
  over the mutex and the condition: a step relation whose steps are the sections between blocking
  calls, a section under the mutex being one step. Loops are named by their addresses.
\<close>

section \<open>Starting a loop in a thread\<close>

text \<open>Where the thread in \<^verbatim>\<open>startLoop\<close> is, and where the new one in \<^verbatim>\<open>threadFunc\<close>.\<close>

datatype starter = NotCalled | Locking | InWait | Returned nat
datatype worker = NotRunning | Constructing | InCallback | Publishing | Looping | Finished

record loop_thread =
  loop_ptr :: "nat option"
  exiting :: bool
  has_callback :: bool
  starter :: starter
  worker :: worker
  callback_done :: bool

definition EventLoopThread_new :: "bool \<Rightarrow> loop_thread" where
  "EventLoopThread_new cb = \<lparr>loop_ptr = None, exiting = False, has_callback = cb, starter = NotCalled,
     worker = NotRunning, callback_done = False\<rparr>"

text \<open>The section of \<^verbatim>\<open>startLoop\<close> under the mutex, from its start or from a return of \<^verbatim>\<open>cond_.wait()\<close>.\<close>

definition startLoop_locked :: "loop_thread \<Rightarrow> loop_thread" where
  "startLoop_locked t = t\<lparr>starter := (case loop_ptr t of None \<Rightarrow> InWait | Some a \<Rightarrow> Returned a)\<rparr>"

text \<open>The section of \<^verbatim>\<open>threadFunc\<close> under the mutex: \<^verbatim>\<open>notify\<close> ends a wait that has begun.\<close>

definition threadFunc_publish :: "nat \<Rightarrow> loop_thread \<Rightarrow> loop_thread" where
  "threadFunc_publish a t = t\<lparr>loop_ptr := Some a, worker := Looping,
     starter := (if starter t = InWait then Locking else starter t)\<rparr>"

text \<open>The steps; \<open>a\<close> is the address of the loop on the new thread's stack. The last one is the spurious wakeup POSIX allows.\<close>

inductive lt_step :: "nat \<Rightarrow> bool \<Rightarrow> loop_thread \<Rightarrow> loop_thread \<Rightarrow> bool" for a where
  start: "starter t = NotCalled \<Longrightarrow> worker t = NotRunning \<Longrightarrow>
    lt_step a False t (t\<lparr>starter := Locking, worker := Constructing\<rparr>)"
| construct: "worker t = Constructing \<Longrightarrow>
    lt_step a False t (t\<lparr>worker := (if has_callback t then InCallback else Publishing)\<rparr>)"
| init: "worker t = InCallback \<Longrightarrow> lt_step a False t (t\<lparr>worker := Publishing, callback_done := True\<rparr>)"
| publish: "worker t = Publishing \<Longrightarrow> lt_step a False t (threadFunc_publish a t)"
| locked: "starter t = Locking \<Longrightarrow> lt_step a False t (startLoop_locked t)"
| spurious: "starter t = InWait \<Longrightarrow> lt_step a True t (t\<lparr>starter := Locking\<rparr>)"

inductive_cases lt_stepE: "lt_step a sp t t'"

text \<open>
  The destructor: \<^verbatim>\<open>loop_->quit()\<close> on a thread that was never started dereferences a null pointer. The
  loop leaves after a quit, and \<^verbatim>\<open>join\<close> returns once the thread has finished.
\<close>

definition EventLoopThread_delete :: "loop_thread \<Rightarrow> loop_thread option" where
  "EventLoopThread_delete t =
     (case loop_ptr t of None \<Rightarrow> None | Some a \<Rightarrow> Some (t\<lparr>exiting := True, worker := Finished\<rparr>))"

inductive lt_reachable :: "nat \<Rightarrow> bool \<Rightarrow> loop_thread \<Rightarrow> bool" for a cb where
  new: "lt_reachable a cb (EventLoopThread_new cb)"
| step: "lt_reachable a cb t \<Longrightarrow> lt_step a sp t t' \<Longrightarrow> lt_reachable a cb t'"

definition lt_inv :: "nat \<Rightarrow> bool \<Rightarrow> loop_thread \<Rightarrow> bool" where
  "lt_inv a cb t \<longleftrightarrow> has_callback t = cb \<and>
     (loop_ptr t = Some a \<longleftrightarrow> worker t = Looping) \<and> (loop_ptr t = None \<longleftrightarrow> worker t \<noteq> Looping) \<and>
     (worker t \<in> {Publishing, Looping} \<longrightarrow> cb \<longrightarrow> callback_done t) \<and> worker t \<noteq> Finished \<and>
     (case starter t of
        NotCalled \<Rightarrow> worker t = NotRunning
      | Locking \<Rightarrow> worker t \<noteq> NotRunning
      | InWait \<Rightarrow> worker t \<noteq> NotRunning \<and> worker t \<noteq> Looping
      | Returned b \<Rightarrow> worker t = Looping \<and> b = a)"

lemma lt_inv_step: "lt_step a sp t t' \<Longrightarrow> lt_inv a cb t \<Longrightarrow> lt_inv a cb t'"
  by (induction rule: lt_step.induct)
    (auto simp: lt_inv_def threadFunc_publish_def startLoop_locked_def split: starter.splits option.splits if_splits)

lemma lt_reachable_inv: "lt_reachable a cb t \<Longrightarrow> lt_inv a cb t"
proof (induction rule: lt_reachable.induct)
  case new
  then show ?case by (simp add: lt_inv_def EventLoopThread_new_def)
qed (rule lt_inv_step)

text \<open>How far both threads still have to go.\<close>

fun starter_rank :: "starter \<Rightarrow> nat" where
  "starter_rank NotCalled = 2"
| "starter_rank Locking = 1"
| "starter_rank InWait = 0"
| "starter_rank (Returned b) = 0"

fun worker_rank :: "worker \<Rightarrow> nat" where
  "worker_rank NotRunning = 8"
| "worker_rank Constructing = 6"
| "worker_rank InCallback = 4"
| "worker_rank Publishing = 2"
| "worker_rank _ = 0"

definition lt_rank :: "loop_thread \<Rightarrow> nat" where
  "lt_rank t = starter_rank (starter t) + worker_rank (worker t)"

lemma lt_rank_step: "lt_step a False t t' \<Longrightarrow> lt_rank t' < lt_rank t"
  by (erule lt_stepE)
    (auto simp: lt_rank_def threadFunc_publish_def startLoop_locked_def split: option.splits)

section \<open>The pool\<close>

record loop_pool =
  baseLoop :: nat
  pool_started :: bool
  numThreads :: int
  next_loop :: int
  loops :: "nat list"

definition EventLoopThreadPool_new :: "nat \<Rightarrow> loop_pool" where
  "EventLoopThreadPool_new base = \<lparr>baseLoop = base, pool_started = False, numThreads = 0, next_loop = 0, loops = []\<rparr>"

definition pool_setThreadNum :: "int \<Rightarrow> loop_pool \<Rightarrow> loop_pool" where
  "pool_setThreadNum n p = p\<lparr>numThreads := n\<rparr>"

text \<open>
  \<^verbatim>\<open>start\<close>: \<open>startLoop i\<close> is the loop that the \<open>i\<close>-th new thread returns; the callback runs on it in its thread.
  The result lists the loops the callback ran on.
\<close>

definition pool_start :: "(nat \<Rightarrow> nat) \<Rightarrow> bool \<Rightarrow> bool \<Rightarrow> loop_pool \<Rightarrow> (loop_pool \<times> nat list) option" where
  "pool_start startLoop cb inLoop p =
     do {
       check (\<not> pool_started p);
       check inLoop;
       let new = map startLoop [0..<nat (numThreads p)];
       let p1 = p\<lparr>pool_started := True, loops := loops p @ new\<rparr>;
       Some (p1, if \<not> cb then [] else if numThreads p = 0 then [baseLoop p] else new)
     }"

definition getNextLoop :: "bool \<Rightarrow> loop_pool \<Rightarrow> (nat \<times> loop_pool) option" where
  "getNextLoop inLoop p =
     do {
       check inLoop;
       (if loops p \<noteq> []
        then do {
          check (0 \<le> next_loop p \<and> next_loop p < int (length (loops p)));
          let loop = loops p ! nat (next_loop p);
          let next1 = next_loop p + 1;
          Some (loop, p\<lparr>next_loop := (if next1 \<ge> int (length (loops p)) then 0 else next1)\<rparr>)
        }
        else Some (baseLoop p, p))
     }"

text \<open>Several calls one after the other.\<close>

fun getNextLoops :: "nat \<Rightarrow> loop_pool \<Rightarrow> (nat list \<times> loop_pool) option" where
  "getNextLoops 0 p = Some ([], p)"
| "getNextLoops (Suc n) p = do { (l, p1) \<leftarrow> getNextLoop True p; (ls, p2) \<leftarrow> getNextLoops n p1; Some (l # ls, p2) }"

lemma getNextLoops_from:
  assumes "loops p \<noteq> []" "next_loop p = int i" "i < length (loops p)"
  shows "\<exists>p'. getNextLoops n p = Some (map (\<lambda>j. loops p ! ((i + j) mod length (loops p))) [0..<n], p')"
  using assms
proof (induction n arbitrary: p i)
  case (Suc n)
  define i1 where "i1 = Suc i mod length (loops p)"
  define p1 where "p1 = p\<lparr>next_loop := int i1\<rparr>"
  have call: "getNextLoop True p = Some (loops p ! i, p1)"
    using Suc.prems by (auto simp: getNextLoop_def p1_def i1_def mod_if Let_def)
  have "i1 < length (loops p)" using Suc.prems(1) by (simp add: i1_def)
  then obtain p' where "getNextLoops n p1 = Some (map (\<lambda>j. loops p ! ((i1 + j) mod length (loops p))) [0..<n], p')"
    using Suc.IH [of p1 i1] Suc.prems(1) by (auto simp: p1_def)
  moreover have "(i1 + j) mod length (loops p) = (i + Suc j) mod length (loops p)" for j
    by (simp add: i1_def mod_add_left_eq)
  ultimately show ?case
    using Suc.prems call
    by (auto simp: upt_conv_Cons simp del: upt_Suc simp flip: map_Suc_upt)
qed simp

section \<open>Properties\<close>

text \<open>
  C23. \<^verbatim>\<open>startLoop\<close> returns: in every reachable state of the start of a loop thread, either it has
  returned, with the address of the thread's loop and after the thread's initialisation callback, or
  some thread can take a step, and every step but a spurious wakeup brings the return strictly nearer.
\<close>

theorem startLoop_returns:
  assumes "lt_reachable a cb t"
  shows "(starter t = Returned a \<and> loop_ptr t = Some a \<and> (callback_done t \<or> \<not> cb)) \<or>
    ((\<forall>b. starter t \<noteq> Returned b) \<and> (\<exists>t'. lt_step a False t t') \<and>
     (\<forall>t'. lt_step a False t t' \<longrightarrow> lt_rank t' < lt_rank t))"
proof -
  have inv: "lt_inv a cb t" using assms by (rule lt_reachable_inv)
  have "\<exists>t'. lt_step a False t t'" if "\<And>b. starter t \<noteq> Returned b"
  proof (cases "starter t")
    case InWait
    then show ?thesis using inv by (cases "worker t") (auto simp: lt_inv_def intro: lt_step.intros)
  qed (use that inv in \<open>auto simp: lt_inv_def intro: lt_step.intros\<close>)
  then show ?thesis
    using inv lt_rank_step by (cases "starter t") (auto simp: lt_inv_def)
qed

theorem startLoop_returns_witness:
  "\<exists>t'. lt_step 7 False (EventLoopThread_new True) t'"
  using startLoop_returns [OF lt_reachable.new, of True 7] by (auto simp: EventLoopThread_new_def)

text \<open>
  The pool hands out its loops round-robin: after the start of a pool of \<open>n > 0\<close> threads, the
  \<open>k\<close>-th call of \<^verbatim>\<open>getNextLoop\<close> returns the loop of thread \<open>k mod n\<close>, and the index stays in range.
\<close>

theorem getNextLoop_round_robin:
  assumes "n > 0"
  shows "\<exists>p cbs. pool_start startLoop cb True (pool_setThreadNum (int n) (EventLoopThreadPool_new base)) = Some (p, cbs) \<and>
    (\<forall>m. \<exists>p'. getNextLoops m p = Some (map (\<lambda>k. startLoop (k mod n)) [0..<m], p'))"
proof -
  define p where "p = (pool_setThreadNum (int n) (EventLoopThreadPool_new base))\<lparr>pool_started := True,
    loops := map startLoop [0..<n]\<rparr>"
  have p: "loops p = map startLoop [0..<n]" "next_loop p = int 0"
    by (simp_all add: p_def pool_setThreadNum_def EventLoopThreadPool_new_def)
  have "\<exists>p'. getNextLoops m p = Some (map (\<lambda>k. startLoop (k mod n)) [0..<m], p')" for m
    using getNextLoops_from [of p 0 m] p assms by (simp add: nth_map)
  then show ?thesis
    by (auto simp: pool_start_def p_def pool_setThreadNum_def EventLoopThreadPool_new_def Let_def)
qed

theorem getNextLoop_round_robin_witness:
  "\<exists>p cbs p'. pool_start (\<lambda>i. 10 + i) False True (pool_setThreadNum 2 (EventLoopThreadPool_new 1)) = Some (p, cbs) \<and>
     getNextLoops 3 p = Some ([10, 11, 10], p')"
proof -
  obtain p cbs where p: "pool_start (\<lambda>i. 10 + i) False True (pool_setThreadNum (int 2) (EventLoopThreadPool_new 1)) = Some (p, cbs)"
      "\<forall>m. \<exists>p'. getNextLoops m p = Some (map (\<lambda>k. 10 + k mod 2) [0..<m], p')"
    using getNextLoop_round_robin [of 2 "\<lambda>i. 10 + i" False 1] by auto
  have "map (\<lambda>k. 10 + k mod 2 :: nat) [0..<3] = [10, 11, 10]" by (simp add: upt_rec)
  then show ?thesis using p(1) spec [OF p(2), of 3] by auto
qed

end
