(* ===== verification/Net_TcpServer.thy ===== *)
theory Net_TcpServer
  imports Net_TcpConnFacts Net_LoopThread Net_Socket
begin

text \<open>
  The server (\<^verbatim>\<open>muduo/net/TcpServer.h\<close>, \<^verbatim>\<open>TcpServer.cc\<close>) over the connections of
  \<open>Net_TcpConnection\<close> and the pool of \<open>Net_LoopThread\<close>. Connection objects live in a list, the connection
  map takes names to their indices. A connection belongs to the loop the pool gave it; what the server
  hands to another loop waits in a queue: \<open>connectEstablished\<close> for the connection's loop,
  \<open>removeConnectionInLoop\<close> for the server's own. When they are the same loop, \<^verbatim>\<open>runInLoop\<close> calls at once.
\<close>

record conn_object =
  obj_conn :: conn
  obj_name :: string
  obj_loop :: nat

record server =
  hostport :: string
  server_name :: string
  server_started :: bool
  acceptor_listening :: bool
  write_complete :: bool
  nextConnId :: int
  connections :: "string \<rightharpoonup> nat"
  pool :: loop_pool
  objects :: "conn_object list"
  toEstablish :: "nat list"
  toRemove :: "nat list"

definition TcpServer_new :: "string \<Rightarrow> string \<Rightarrow> nat \<Rightarrow> server" where
  "TcpServer_new hp nm base = \<lparr>hostport = hp, server_name = nm, server_started = False, acceptor_listening = False,
     write_complete = False, nextConnId = 1, connections = Map.empty, pool = EventLoopThreadPool_new base,
     objects = [], toEstablish = [], toRemove = []\<rparr>"

definition setWriteCompleteCallback :: "server \<Rightarrow> server" where
  "setWriteCompleteCallback s = s\<lparr>write_complete := True\<rparr>"

definition setThreadNum :: "int \<Rightarrow> server \<Rightarrow> server option" where
  "setThreadNum n s = do { check (0 \<le> n); Some (s\<lparr>pool := pool_setThreadNum n (pool s)\<rparr>) }"

text \<open>\<^verbatim>\<open>start\<close> in the server's loop: the pool starts once, and the acceptor listens once.\<close>

definition TcpServer_start :: "(nat \<Rightarrow> nat) \<Rightarrow> bool \<Rightarrow> server \<Rightarrow> server option" where
  "TcpServer_start startLoop cb s =
     do {
       s1 \<leftarrow> (if \<not> server_started s
              then do {
                (p, cbs) \<leftarrow> pool_start startLoop cb True (pool s);
                Some (s\<lparr>server_started := True, pool := p\<rparr>)
              }
              else Some s);
       Some (if \<not> acceptor_listening s1 then s1\<lparr>acceptor_listening := True\<rparr> else s1)
     }"

definition connName :: "string \<Rightarrow> string \<Rightarrow> int \<Rightarrow> string" where
  "connName nm hp connId = nm @ snprintf 32 (CHR '':'' # hp @ CHR ''#'' # print_int connId)"

definition set_conn :: "nat \<Rightarrow> conn \<Rightarrow> server \<Rightarrow> server" where
  "set_conn i c s = s\<lparr>objects := (objects s)[i := (objects s ! i)\<lparr>obj_conn := c\<rparr>]\<rparr>"

definition conn_of :: "server \<Rightarrow> nat \<Rightarrow> conn" where
  "conn_of s i = obj_conn (objects s ! i)"

definition in_base_loop :: "server \<Rightarrow> nat \<Rightarrow> bool" where
  "in_base_loop s i \<longleftrightarrow> obj_loop (objects s ! i) = baseLoop (pool s)"

definition removeConnectionInLoop :: "user_code \<Rightarrow> nat \<Rightarrow> server \<Rightarrow> server option" where
  "removeConnectionInLoop user i s =
     do {
       let nm = obj_name (objects s ! i);
       check (connections s nm \<noteq> None);
       c \<leftarrow> conn_step user Destroy (conn_of s i);
       Some (set_conn i c (s\<lparr>connections := (connections s)(nm := None)\<rparr>))
     }"

definition removeConnection :: "user_code \<Rightarrow> nat \<Rightarrow> server \<Rightarrow> server option" where
  "removeConnection user i s =
     (if in_base_loop s i then removeConnectionInLoop user i s
      else Some (s\<lparr>toRemove := toRemove s @ [i]\<rparr>))"

text \<open>
  An operation of a connection inside the server. Its close callback, the last thing the closing does, is
  \<^verbatim>\<open>removeConnection\<close>.
\<close>

definition conn_op_in :: "user_code \<Rightarrow> nat \<Rightarrow> conn_op \<Rightarrow> server \<Rightarrow> server option" where
  "conn_op_in user i op s =
     do {
       c \<leftarrow> conn_step user op (conn_of s i);
       let closed = (Closed \<in> set (history c) \<and> Closed \<notin> set (history (conn_of s i)));
       (if closed then removeConnection user i (set_conn i c s) else Some (set_conn i c s))
     }"

definition newConnection :: "user_code \<Rightarrow> kernel_write \<Rightarrow> server \<Rightarrow> server option" where
  "newConnection user k s =
     do {
       (ioLoop, p) \<leftarrow> getNextLoop True (pool s);
       let nm = connName (server_name s) (hostport s) (nextConnId s);
       check (nextConnId s + 1 < 2 ^ 31);
       let i = length (objects s);
       let ob = \<lparr>obj_conn = TcpConnection_new (write_complete s), obj_name = nm, obj_loop = ioLoop\<rparr>;
       let s1 = s\<lparr>pool := p, nextConnId := nextConnId s + 1, objects := objects s @ [ob],
                  connections := (connections s)(nm \<mapsto> i)\<rparr>;
       (if in_base_loop s1 i then conn_op_in user i (Establish k) s1
        else Some (s1\<lparr>toEstablish := toEstablish s1 @ [i]\<rparr>))
     }"

text \<open>
  The destructor lets every connection in the map be destroyed in its loop; \<open>order\<close> lists the map's
  connections by name. Queued functors keep their objects alive.
\<close>

fun destroy_all :: "user_code \<Rightarrow> kernel_write \<Rightarrow> nat list \<Rightarrow> server \<Rightarrow> server option" where
  "destroy_all user k [] s = Some s"
| "destroy_all user k (i # is) s =
     do {
       c \<leftarrow> conn_step user (if in_base_loop s i then DestroyNow k else Destroy) (conn_of s i);
       destroy_all user k is (set_conn i c s)
     }"

definition TcpServer_delete :: "user_code \<Rightarrow> kernel_write \<Rightarrow> nat list \<Rightarrow> server \<Rightarrow> server option" where
  "TcpServer_delete user k order s = destroy_all user k order (s\<lparr>connections := Map.empty\<rparr>)"

text \<open>What happens to a server while it runs.\<close>

datatype server_op = Accept kernel_write | RunEstablish kernel_write nat | ConnOp nat conn_op | RunRemove

definition server_step :: "user_code \<Rightarrow> server_op \<Rightarrow> server \<Rightarrow> server option" where
  "server_step user op s = (case op of
      Accept k \<Rightarrow> newConnection user k s
    | RunEstablish k i \<Rightarrow> conn_op_in user i (Establish k) (s\<lparr>toEstablish := remove1 i (toEstablish s)\<rparr>)
    | ConnOp i cop \<Rightarrow> conn_op_in user i cop s
    | RunRemove \<Rightarrow> (case toRemove s of [] \<Rightarrow> Some s
        | i # is \<Rightarrow> removeConnectionInLoop user i (s\<lparr>toRemove := is\<rparr>)))"

text \<open>
  Connections are accepted while their numbers fit into the buffer of the name (and into an \<^verbatim>\<open>int\<close>); a
  loop runs only functors that were queued in it.
\<close>

definition id_fits :: "server \<Rightarrow> bool" where
  "id_fits s \<longleftrightarrow> length (hostport s) < 29 \<and> nextConnId s < 10 ^ (29 - length (hostport s)) \<and> nextConnId s + 1 < 2 ^ 31"

fun server_enabled :: "server_op \<Rightarrow> server \<Rightarrow> bool" where
  "server_enabled (Accept k) s \<longleftrightarrow> kernel_ok k \<and> id_fits s"
| "server_enabled (RunEstablish k i) s \<longleftrightarrow> kernel_ok k \<and> i \<in> set (toEstablish s)"
| "server_enabled (ConnOp i op) s \<longleftrightarrow> i < length (objects s) \<and> ordinary op \<and> enabled op (conn_of s i)"
| "server_enabled RunRemove s \<longleftrightarrow> True"

inductive reachable_server :: "user_code \<Rightarrow> server \<Rightarrow> bool" for user where
  started: "TcpServer_start startLoop cb (s0\<lparr>pool := pool_setThreadNum (int n) (pool s0)\<rparr>) = Some s \<Longrightarrow>
    s0 = TcpServer_new hp nm base \<Longrightarrow> (\<forall>j. startLoop j \<noteq> base) \<Longrightarrow> reachable_server user s"
| step: "reachable_server user s \<Longrightarrow> server_enabled op s \<Longrightarrow> server_step user op s = Some s' \<Longrightarrow> reachable_server user s'"

end
