(* ===== verification/Net_TcpServerProps.thy ===== *)
theory Net_TcpServerProps
  imports Net_TcpServer
begin

text \<open>
  What the server guarantees. The invariant ties the connection map, the queues between the loops and
  the states of the connections together; with it every operation of a running server succeeds, so the
  conditions under which \<open>Net_TcpConnFacts\<close> showed a connection safe (established once, destroyed once
  after it was closed) are what the server provides.
\<close>

section \<open>Names\<close>

lemma connName_full:
  assumes "length hp < 29" "0 \<le> n" "n < 10 ^ (29 - length hp)"
  shows "connName nm hp n = nm @ CHR '':'' # hp @ CHR ''#'' # print_int n"
proof -
  have "nat n < 10 ^ (29 - length hp)"
    using assms(2,3) by (simp add: nat_less_iff)
  then have "length (print_nat (nat n)) \<le> 29 - length hp"
    by (rule length_print_nat_le) (use assms(1) in simp)
  then show ?thesis using assms(1,2) by (simp add: connName_def snprintf_def print_int_def)
qed

lemma connName_inject:
  assumes "length hp < 29" "0 \<le> m" "m < 10 ^ (29 - length hp)" "0 \<le> n" "n < 10 ^ (29 - length hp)"
    "connName nm hp m = connName nm hp n"
  shows "m = n"
  using assms by (simp add: connName_full print_int_inject)

section \<open>The invariant of a server\<close>

definition present :: "server \<Rightarrow> nat \<Rightarrow> bool" where
  "present s i \<longleftrightarrow> connections s (obj_name (objects s ! i)) = Some i"

definition obj_inv :: "server \<Rightarrow> nat \<Rightarrow> bool" where
  "obj_inv s i \<longleftrightarrow> conn_inv (conn_of s i) \<and>
     obj_name (objects s ! i) = connName (server_name s) (hostport s) (int i + 1) \<and>
     (i \<in> set (toEstablish s) \<longleftrightarrow> cstate (conn_of s i) = kConnecting) \<and>
     (i \<in> set (toEstablish s) \<longrightarrow> present s i) \<and>
     (Closed \<in> set (history (conn_of s i)) \<longleftrightarrow> i \<in> set (toRemove s) \<or> \<not> present s i) \<and>
     (i \<in> set (toRemove s) \<longrightarrow> present s i) \<and>
     (present s i \<longrightarrow> i \<notin> set (toEstablish s) \<longrightarrow>
        registered (conn_of s i) \<and> ConnectDestroyed \<notin> set (functors (conn_of s i)))"

definition frame_inv :: "server \<Rightarrow> bool" where
  "frame_inv s \<longleftrightarrow>
     nextConnId s = int (length (objects s)) + 1 \<and>
     (\<forall>i < length (objects s). length (hostport s) < 29 \<and> int i + 1 < 10 ^ (29 - length (hostport s))) \<and>
     (loops (pool s) = [] \<or> 0 \<le> next_loop (pool s) \<and> next_loop (pool s) < int (length (loops (pool s)))) \<and>
     distinct (toEstablish s) \<and> distinct (toRemove s) \<and>
     set (toEstablish s) \<subseteq> {..<length (objects s)} \<and> set (toRemove s) \<subseteq> {..<length (objects s)}"

definition server_inv :: "server \<Rightarrow> bool" where
  "server_inv s \<longleftrightarrow> frame_inv s \<and> (\<forall>i < length (objects s). obj_inv s i)"

lemma conn_of_set_conn: "i < length (objects s) \<Longrightarrow> conn_of (set_conn i c s) j = (if j = i then c else conn_of s j)"
  by (simp add: conn_of_def set_conn_def nth_list_update)

lemma set_conn_simps [simp]:
  "connections (set_conn i c s) = connections s" "toEstablish (set_conn i c s) = toEstablish s"
  "toRemove (set_conn i c s) = toRemove s" "pool (set_conn i c s) = pool s" "nextConnId (set_conn i c s) = nextConnId s"
  "hostport (set_conn i c s) = hostport s" "server_name (set_conn i c s) = server_name s"
  "length (objects (set_conn i c s)) = length (objects s)"
  by (simp_all add: set_conn_def)

lemma set_conn_obj [simp]:
  "obj_name (objects (set_conn i c s) ! j) = obj_name (objects s ! j)"
  "obj_loop (objects (set_conn i c s) ! j) = obj_loop (objects s ! j)"
  by (cases "i < length (objects s) \<and> j = i", auto simp: set_conn_def list_update_beyond nth_list_update
    split: if_splits)+

lemma in_base_set_conn [simp]: "in_base_loop (set_conn i c s) j = in_base_loop s j"
  by (simp add: in_base_loop_def)

lemma set_conn_same [simp]: "set_conn i (conn_of s i) s = s"
  by (simp add: set_conn_def conn_of_def)

lemma names_distinct:
  assumes "server_inv s" "i < length (objects s)" "j < length (objects s)"
  shows "obj_name (objects s ! i) = obj_name (objects s ! j) \<longleftrightarrow> i = j"
proof
  assume eq: "obj_name (objects s ! i) = obj_name (objects s ! j)"
  have "int i + 1 = int j + 1"
    by (rule connName_inject [of "hostport s" _ _ "server_name s"]) (use assms eq in \<open>auto simp: server_inv_def frame_inv_def obj_inv_def\<close>)
  then show "i = j" by simp
qed simp

text \<open>A change of one connection, and of its entry in the map, leaves the others as they were.\<close>

lemma update_inv:
  assumes inv: "server_inv s" and i: "i < length (objects s)"
    and s': "objects s' = objects (set_conn i c s)" "nextConnId s' = nextConnId s" "hostport s' = hostport s"
      "server_name s' = server_name s" "pool s' = pool s"
    and map: "connections s' = connections s \<or> connections s' = (connections s)(obj_name (objects s ! i) := None)"
    and est: "\<And>j. j \<noteq> i \<Longrightarrow> j \<in> set (toEstablish s') \<longleftrightarrow> j \<in> set (toEstablish s)" "distinct (toEstablish s')"
    and rem: "\<And>j. j \<noteq> i \<Longrightarrow> j \<in> set (toRemove s') \<longleftrightarrow> j \<in> set (toRemove s)" "distinct (toRemove s')"
    and obj: "obj_inv s' i"
  shows "server_inv s'"
proof -
  have len: "length (objects s') = length (objects s)" by (simp add: s'(1))
  have "frame_inv s'"
    using inv i est rem s' unfolding server_inv_def frame_inv_def len
    by (auto simp: subset_iff) (metis lessThan_iff subsetD)+
  moreover have "obj_inv s' j" if j: "j < length (objects s)" for j
  proof (cases "j = i")
    case False
    have conn: "conn_of s' j = conn_of s j" "obj_name (objects s' ! j) = obj_name (objects s ! j)"
      using s'(1) conn_of_set_conn [OF i, of c j] False by (simp_all add: conn_of_def)
    have "present s' j = present s j"
      using names_distinct [OF inv j i] False map conn(2) by (auto simp: present_def)
    moreover have "obj_inv s j" using inv j by (simp add: server_inv_def)
    ultimately show ?thesis using conn est(1) [OF False] rem(1) [OF False] s' by (simp add: obj_inv_def)
  qed (use obj in simp)
  ultimately show ?thesis by (simp add: server_inv_def len)
qed


lemma Closed_not_open: "conn_inv c \<Longrightarrow> cstate c \<in> {kConnected, kDisconnecting, kConnecting} \<Longrightarrow> Closed \<notin> set (history c)"
  using closed_disconnected by auto

lemma removeConnectionInLoop_ok:
  assumes inv: "server_inv s" and i: "i < length (objects s)" and t: "t = s\<lparr>toRemove := ys\<rparr>"
    and ys: "\<And>j. j \<noteq> i \<Longrightarrow> j \<in> set ys \<longleftrightarrow> j \<in> set (toRemove s)" "distinct ys" "i \<notin> set ys"
    and c: "conn_inv c" "Closed \<in> set (history c)" "registered c" "ConnectDestroyed \<notin> set (functors c)"
    and p: "present s i" "i \<notin> set (toEstablish s)"
  shows "\<exists>s'. removeConnectionInLoop user i (set_conn i c t) = Some s' \<and> server_inv s'"
proof -
  let ?u = "set_conn i c t"
  obtain d where d: "conn_step user Destroy c = Some d" "conn_inv d" "d = queue_functor ConnectDestroyed c"
    using conn_step_ok [OF c(1), of Destroy user] c(2-4) by auto
  let ?s' = "set_conn i d (?u\<lparr>connections := (connections ?u)(obj_name (objects ?u ! i) := None)\<rparr>)"
  have it: "i < length (objects t)" using i t by simp
  have "connections ?u (obj_name (objects ?u ! i)) \<noteq> None" using p(1) t by (simp add: present_def)
  then have "removeConnectionInLoop user i ?u = Some ?s'"
    using d(1) it by (simp add: removeConnectionInLoop_def conn_of_set_conn)
  moreover have "server_inv ?s'"
  proof (rule update_inv [OF inv i, of _ d])
    show "objects ?s' = objects (set_conn i d s)" using t i by (simp add: set_conn_def)
    have conn: "conn_of ?s' i = d" using it by (simp add: conn_of_set_conn)
    have "cstate d = kDisconnected" using closed_disconnected [OF c(1,2)] d(3) by (simp add: queue_functor_def)
    then show "obj_inv ?s' i"
      using inv i d conn c(2) p(2) t ys(3)
      by (auto simp: obj_inv_def server_inv_def present_def queue_functor_def)
  qed (use t ys inv in \<open>auto simp: server_inv_def frame_inv_def\<close>)
  ultimately show ?thesis by blast
qed


lemma conn_op_ok:
  assumes inv: "server_inv s" and i: "i < length (objects s)" and op: "ordinary op" "enabled op (conn_of s i)"
  shows "\<exists>s'. conn_op_in user i op s = Some s' \<and> server_inv s'"
proof -
  let ?c = "conn_of s i"
  have o: "obj_inv s i" and c: "conn_inv ?c" using inv i by (simp_all add: server_inv_def obj_inv_def)
  show ?thesis
  proof (cases "cstate ?c = kConnecting")
    case True
    then show ?thesis using connecting_step [OF c op(2,1)] inv by (simp add: conn_op_in_def)
  next
    case False
    obtain d where d: "conn_step user op ?c = Some d" "conn_inv d"
      using conn_step_ok [OF c op(2)] by blast
    have mono: "set (history ?c) \<subseteq> set (history d)" and keep: "ConnectDestroyed \<notin> set (functors ?c) \<longrightarrow> kept ?c d"
      using conn_step_kept [OF c op(2,1) d(1)] by auto
    have est: "i \<notin> set (toEstablish s)" "cstate d \<noteq> kConnecting"
      using o False established_stays [OF c d(2) False mono] by (auto simp: obj_inv_def)
    have alive: "registered d" "ConnectDestroyed \<notin> set (functors d)" if "present s i"
      using that o est keep by (auto simp: obj_inv_def kept_def count_list_0_iff)
    have same: "server_inv (set_conn i d s)" if "Closed \<in> set (history d) \<longleftrightarrow> Closed \<in> set (history ?c)"
    proof (rule update_inv [OF inv i, of _ d])
      show "obj_inv (set_conn i d s) i"
        using o that d(2) est alive i by (auto simp: obj_inv_def conn_of_set_conn present_def)
    qed (use inv in \<open>auto simp: server_inv_def frame_inv_def\<close>)
    show ?thesis
    proof (cases "Closed \<in> set (history d) \<and> Closed \<notin> set (history ?c)")
      case False
      then show ?thesis using d(1) same mono by (auto simp: conn_op_in_def)
    next
      case True
      then have p: "present s i" "i \<notin> set (toRemove s)" using o by (auto simp: obj_inv_def)
      show ?thesis
      proof (cases "in_base_loop s i")
        case base: True
        show ?thesis
          using removeConnectionInLoop_ok [OF inv i, of s "toRemove s" d user] d True alive [OF p(1)] p est(1) base inv
          by (simp add: conn_op_in_def removeConnection_def server_inv_def frame_inv_def)
      next
        case False
        let ?s' = "(set_conn i d s)\<lparr>toRemove := toRemove s @ [i]\<rparr>"
        have "server_inv ?s'"
        proof (rule update_inv [OF inv i, of _ d])
          have "conn_of ?s' i = d" using conn_of_set_conn [OF i, of d i] by (simp add: conn_of_def)
          then show "obj_inv ?s' i"
            using o d(2) est alive p i True by (auto simp: obj_inv_def present_def)
        qed (use inv p in \<open>auto simp: server_inv_def frame_inv_def\<close>)
        then show ?thesis using d(1) True False by (simp add: conn_op_in_def removeConnection_def)
      qed
    qed
  qed
qed

lemma remove_run_ok:
  assumes "server_inv s"
  shows "\<exists>s'. server_step user RunRemove s = Some s' \<and> server_inv s'"
proof (cases "toRemove s")
  case (Cons i "is")
  have i: "i < length (objects s)" and d: "distinct (i # is)"
    using assms Cons by (auto simp: server_inv_def frame_inv_def)
  have o: "obj_inv s i" using assms i by (simp add: server_inv_def)
  then have 1: "Closed \<in> set (history (conn_of s i))" "present s i" "conn_inv (conn_of s i)"
    using Cons by (auto simp: obj_inv_def)
  have 2: "i \<notin> set (toEstablish s)" using closed_disconnected [OF 1(3,1)] o by (auto simp: obj_inv_def)
  have 3: "set_conn i (conn_of s i) (s\<lparr>toRemove := is\<rparr>) = s\<lparr>toRemove := is\<rparr>"
    using set_conn_same [of i "s\<lparr>toRemove := is\<rparr>"] by (simp add: conn_of_def)
  show ?thesis
    using removeConnectionInLoop_ok [OF assms i refl, of "is" "conn_of s i" user] 1 2 3 o Cons d
    by (auto simp: server_step_def obj_inv_def)
qed (use assms in \<open>simp add: server_step_def\<close>)

lemma establish_ok:
  assumes inv: "server_inv s" and i: "i \<in> set (toEstablish s)" and k: "kernel_ok k"
    and t: "t = s\<lparr>toEstablish := remove1 i (toEstablish s)\<rparr>"
  shows "\<exists>s'. conn_op_in user i (Establish k) t = Some s' \<and> server_inv s'"
proof -
  have len: "i < length (objects s)" and dist: "distinct (toEstablish s)"
    using inv i by (auto simp: server_inv_def frame_inv_def)
  have o: "obj_inv s i" using inv len by (simp add: server_inv_def)
  have conn: "conn_of t i = conn_of s i" using t by (simp add: conn_of_def)
  obtain d where d: "connectEstablished user k (conn_of s i) = Some d" "conn_inv d" "registered d"
      "ConnectDestroyed \<notin> set (functors d)" "cstate d \<in> {kConnected, kDisconnecting}"
    using connectEstablished_ok [of "conn_of s i" k user] o i k by (auto simp: obj_inv_def)
  have nc: "Closed \<notin> set (history d)" "Closed \<notin> set (history (conn_of s i))"
    using Closed_not_open [OF d(2)] d(5) Closed_not_open [of "conn_of s i"] o i by (auto simp: obj_inv_def)
  have "server_inv (set_conn i d t)"
  proof (rule update_inv [OF inv len, of _ d])
    show "objects (set_conn i d t) = objects (set_conn i d s)" using t by (simp add: set_conn_def)
    have "conn_of (set_conn i d t) i = d" using len t by (simp add: conn_of_set_conn)
    then show "obj_inv (set_conn i d t) i"
      using o d nc i dist t by (auto simp: obj_inv_def present_def)
  qed (use inv t dist in \<open>auto simp: server_inv_def frame_inv_def\<close>)
  then show ?thesis using d(1) nc by (simp add: conn_op_in_def conn)
qed


lemma getNextLoop_ok:
  assumes "loops p = [] \<or> 0 \<le> next_loop p \<and> next_loop p < int (length (loops p))"
  shows "\<exists>l p'. getNextLoop True p = Some (l, p') \<and> loops p' = loops p \<and> baseLoop p' = baseLoop p \<and>
     (loops p' = [] \<or> 0 \<le> next_loop p' \<and> next_loop p' < int (length (loops p')))"
  using assms by (auto simp: getNextLoop_def Let_def)

lemma accepted_inv:
  assumes inv: "server_inv s" and fits: "id_fits s"
    and p: "loops p = [] \<or> 0 \<le> next_loop p \<and> next_loop p < int (length (loops p))"
    and nm: "nm = connName (server_name s) (hostport s) (nextConnId s)"
    and s2: "s2 = s\<lparr>pool := p, nextConnId := nextConnId s + 1,
      objects := objects s @ [\<lparr>obj_conn = TcpConnection_new w, obj_name = nm, obj_loop = l\<rparr>],
      connections := (connections s)(nm \<mapsto> length (objects s)), toEstablish := toEstablish s @ [length (objects s)]\<rparr>"
  shows "server_inv s2"
proof -
  let ?n = "length (objects s)"
  have len: "length (objects s2) = Suc ?n" using s2 by simp
  have id: "nextConnId s = int ?n + 1" using inv by (simp add: server_inv_def frame_inv_def)
  have fresh: "?n \<notin> set (toEstablish s)" "?n \<notin> set (toRemove s)" using inv by (auto simp: server_inv_def frame_inv_def)
  have "frame_inv s2"
    using inv fits p id fresh unfolding s2 by (auto simp: server_inv_def frame_inv_def id_fits_def less_Suc_eq)
  moreover have "obj_inv s2 ?n"
    using fresh(2) nm id new_inv [of w] unfolding s2
    by (auto simp: obj_inv_def conn_of_def present_def TcpConnection_new_def)
  moreover have "obj_inv s2 j" if j: "j < ?n" for j
  proof -
    have o: "obj_inv s j" using inv j by (simp add: server_inv_def)
    have eq: "conn_of s2 j = conn_of s j" "objects s2 ! j = objects s ! j"
      using j by (simp_all add: s2 conn_of_def nth_append)
    have "int j + 1 \<noteq> nextConnId s" "length (hostport s) < 29" "int j + 1 < 10 ^ (29 - length (hostport s))"
        "nextConnId s < 10 ^ (29 - length (hostport s))" "0 \<le> nextConnId s"
      using j id inv fits by (auto simp: server_inv_def frame_inv_def id_fits_def)
    then have "obj_name (objects s ! j) \<noteq> nm"
      using connName_inject [of "hostport s" "int j + 1" "nextConnId s" "server_name s"] o nm by (auto simp: obj_inv_def)
    then have "present s2 j = present s j" using eq(2) by (auto simp: present_def s2)
    then show ?thesis using o eq j by (auto simp: obj_inv_def s2)
  qed
  ultimately show ?thesis using len by (auto simp: server_inv_def less_Suc_eq)
qed

lemma newConnection_ok:
  assumes inv: "server_inv s" and fits: "id_fits s" and k: "kernel_ok k"
  shows "\<exists>s'. newConnection user k s = Some s' \<and> server_inv s'"
proof -
  obtain l p where p: "getNextLoop True (pool s) = Some (l, p)"
      "loops p = [] \<or> 0 \<le> next_loop p \<and> next_loop p < int (length (loops p))"
    using getNextLoop_ok [of "pool s"] inv by (auto simp: server_inv_def frame_inv_def)
  define nm where "nm = connName (server_name s) (hostport s) (nextConnId s)"
  let ?n = "length (objects s)"
  define s1 where "s1 = s\<lparr>pool := p, nextConnId := nextConnId s + 1,
      objects := objects s @ [\<lparr>obj_conn = TcpConnection_new (write_complete s), obj_name = nm, obj_loop = l\<rparr>],
      connections := (connections s)(nm \<mapsto> ?n)\<rparr>"
  let ?s2 = "s1\<lparr>toEstablish := toEstablish s1 @ [?n]\<rparr>"
  have s2: "server_inv ?s2"
    by (rule accepted_inv [OF inv fits p(2) nm_def]) (simp add: s1_def)
  have fresh: "?n \<notin> set (toEstablish s1)" using inv by (auto simp: s1_def server_inv_def frame_inv_def)
  have "newConnection user k s = (if in_base_loop s1 ?n then conn_op_in user ?n (Establish k) s1 else Some ?s2)"
    using p(1) fits by (simp add: newConnection_def Let_def s1_def nm_def id_fits_def)
  moreover have "s1 = ?s2\<lparr>toEstablish := remove1 ?n (toEstablish ?s2)\<rparr>"
    using fresh by (simp add: remove1_append)
  ultimately show ?thesis
    using establish_ok [OF s2 _ k, of ?n s1 user] s2 by auto
qed

lemma server_step_ok:
  assumes "server_inv s" "server_enabled op s"
  shows "\<exists>s'. server_step user op s = Some s' \<and> server_inv s'"
proof (cases op)
  case (Accept k)
  then show ?thesis using newConnection_ok [OF assms(1), of k user] assms(2) by (simp add: server_step_def)
next
  case (RunEstablish k i)
  then show ?thesis using establish_ok [OF assms(1) _ _ refl, of i k user] assms(2) by (simp add: server_step_def)
next
  case (ConnOp i cop)
  then show ?thesis using conn_op_ok [OF assms(1), of i cop user] assms(2) by (simp add: server_step_def)
qed (use remove_run_ok [OF assms(1)] in simp)

lemma reachable_server_inv: "reachable_server user s \<Longrightarrow> server_inv s"
proof (induction rule: reachable_server.induct)
  case (started startLoop cb s0 n s hp nm base)
  then show ?case
    by (auto simp: TcpServer_start_def pool_start_def TcpServer_new_def EventLoopThreadPool_new_def
        pool_setThreadNum_def server_inv_def frame_inv_def Let_def split: bind_splits)
next
  case (step s op s')
  then show ?case using server_step_ok [of s op user] by auto
qed

lemma started_server:
  "\<exists>s. reachable_server user s \<and> hostport s = hp \<and> nextConnId s = 1"
proof -
  let ?s0 = "TcpServer_new hp ''srv'' 0"
  obtain s where s: "TcpServer_start Suc False (?s0\<lparr>pool := pool_setThreadNum (int 2) (pool ?s0)\<rparr>) = Some s"
      "hostport s = hp" "nextConnId s = 1"
    by (simp add: TcpServer_start_def pool_start_def TcpServer_new_def EventLoopThreadPool_new_def
        pool_setThreadNum_def Let_def)
  then show ?thesis using reachable_server.started [OF s(1) refl] by auto
qed

section \<open>Properties\<close>

text \<open>
  C3. A running server never fails an assertion: while the numbers of its connections fit the name
  buffer, it can accept at any time, and every operation of every connection, every queued
  \<^verbatim>\<open>connectEstablished\<close> and every queued \<^verbatim>\<open>removeConnectionInLoop\<close> succeeds, with one thread or with many.
\<close>

theorem server_never_fails:
  assumes "reachable_server user s" "server_enabled op s"
  shows "\<exists>s'. server_step user op s = Some s' \<and> reachable_server user s'"
  using server_step_ok [OF reachable_server_inv [OF assms(1)] assms(2), of user] reachable_server.step [OF assms] by blast

theorem server_never_fails_witness:
  "\<exists>s s'. reachable_server (\<lambda>_ _. []) s \<and> server_step (\<lambda>_ _. []) (Accept (\<lambda>c d. if writeShut c then WriteErr EPIPE else Wrote 0)) s = Some s'"
proof -
  obtain s where s: "reachable_server (\<lambda>_ _. []) s" "hostport s = ''0.0.0.0:80''" "nextConnId s = 1"
    using started_server by blast
  then have "server_enabled (Accept (\<lambda>c d. if writeShut c then WriteErr EPIPE else Wrote 0)) s"
    by (simp add: id_fits_def kernel_blocks)
  then show ?thesis using server_never_fails [OF s(1)] s(1) by blast
qed



text \<open>
  C38. The buffer of the connection names is too small for long addresses and large numbers: with an address
  of 21 characters the last digit of every number above \<open>10 ^ 8\<close> is cut off, so ten consecutive
  connections get the same name and replace each other in the connection map.
\<close>

theorem connection_names_collide:
  assumes "length hp = 21" "10 ^ 7 \<le> n" "d < 10" "d' < 10"
  shows "connName nm hp (int (10 * n + d)) = connName nm hp (int (10 * n + d'))"
proof -
  have n: "0 < n" using assms(2) by (simp add: less_le_trans [of 0 "10 ^ 7"])
  have len: "8 \<le> length (print_nat n)" using length_print_nat_ge [OF assms(2)] by simp
  have "connName nm hp (int (10 * n + x)) = nm @ CHR '':'' # hp @ CHR ''#'' # take 8 (print_nat n)" if "x < 10" for x
    using assms(1) len unfolding connName_def snprintf_def print_int_of_nat print_nat_snoc [OF n that] by simp
  then show ?thesis using assms(3,4) by simp
qed

theorem connection_names_collide_witness:
  "connName ''srv'' ''192.168.100.100:12345'' (int (10 * 10 ^ 7 + 0)) = connName ''srv'' ''192.168.100.100:12345'' (int (10 * 10 ^ 7 + 1))"
  by (rule connection_names_collide) simp_all

end
