(* ===== verification/Base_LogStream.thy ===== *)
theory Base_LogStream
  imports Base_Time
begin

text \<open>
  Log streams (\<^verbatim>\<open>muduo/base/LogStream.h\<close>, \<^verbatim>\<open>LogStream.cc\<close>): the fixed buffer, the integer conversions
  and the output operators. A buffer is its array and the position \<^verbatim>\<open>cur_\<close> in it; a write that leaves the
  array is \<open>None\<close>. What \<^verbatim>\<open>snprintf("%.12g")\<close> and \<^verbatim>\<open>Fmt\<close> print is an argument.
\<close>

section \<open>Integer conversions\<close>

definition digits :: string where
  "digits = ''9876543210123456789''"

definition zero_at :: "int \<Rightarrow> char" where
  "zero_at lsd = digits ! nat (9 + lsd)"

definition digitsHex :: string where
  "digitsHex = ''0123456789ABCDEF''"

lemma abs_cdiv: "\<bar>cdiv i b\<bar> = (if b = 0 then 0 else \<bar>i\<bar> div \<bar>b\<bar>)"
  by (auto simp: cdiv_def abs_mult abs_sgn_eq pos_imp_zdiv_nonneg_iff)

text \<open>The loop of \<^verbatim>\<open>convert\<close>: the digits from the last one on; the remainder of a negative number is negative.\<close>

function convert_loop :: "int \<Rightarrow> string" where
  "convert_loop i =
     (let lsd = cmod i 10; i1 = cdiv i 10 in zero_at lsd # (if i1 \<noteq> 0 then convert_loop i1 else []))"
  by auto
termination
proof (relation "measure (\<lambda>i. nat \<bar>i\<bar>)")
  fix lsd i1 i :: int
  assume "i1 = cdiv i 10" "i1 \<noteq> 0"
  then show "(i1, i) \<in> measure (\<lambda>i. nat \<bar>i\<bar>)"
    using abs_cdiv [of i 10] int_div_less_self [of "\<bar>i\<bar>" 10] by (cases "i = 0") (auto simp: cdiv_def)
qed simp

declare convert_loop.simps [simp del]

definition convert :: "int \<Rightarrow> string" where
  "convert value = rev (convert_loop value @ (if value < 0 then ''-'' else []))"

fun convertHex_loop :: "nat \<Rightarrow> string" where
  "convertHex_loop i = digitsHex ! (i mod 16) # (if i div 16 \<noteq> 0 then convertHex_loop (i div 16) else [])"

declare convertHex_loop.simps [simp del]

definition convertHex :: "nat \<Rightarrow> string" where
  "convertHex value = rev (convertHex_loop value)"

section \<open>Fixed buffers\<close>

definition kSmallBuffer :: nat where "kSmallBuffer = 4000"
definition kLargeBuffer :: nat where "kLargeBuffer = 4000 * 1000"

record fixed_buffer =
  fdata :: "char list"
  fcur :: nat

definition FixedBuffer_new :: "char list \<Rightarrow> fixed_buffer" where
  "FixedBuffer_new garbage = \<lparr>fdata = garbage, fcur = 0\<rparr>"

definition avail :: "fixed_buffer \<Rightarrow> nat" where
  "avail b = length (fdata b) - fcur b"

text \<open>A write into the array at a position, and moving the position.\<close>

definition poke :: "nat \<Rightarrow> char list \<Rightarrow> fixed_buffer \<Rightarrow> fixed_buffer option" where
  "poke i cs b = do { check (i + length cs \<le> length (fdata b)); Some (b\<lparr>fdata := splice_at i cs (fdata b)\<rparr>) }"

definition add_cur :: "nat \<Rightarrow> fixed_buffer \<Rightarrow> fixed_buffer" where
  "add_cur len b = b\<lparr>fcur := fcur b + len\<rparr>"

definition fixed_append :: "string \<Rightarrow> fixed_buffer \<Rightarrow> fixed_buffer option" where
  "fixed_append buf b =
     (if avail b > length buf
      then do { b1 \<leftarrow> poke (fcur b) buf b; Some (add_cur (length buf) b1) }
      else Some b)"

definition fixed_reset :: "fixed_buffer \<Rightarrow> fixed_buffer" where
  "fixed_reset b = b\<lparr>fcur := 0\<rparr>"

definition fixed_bzero :: "fixed_buffer \<Rightarrow> fixed_buffer" where
  "fixed_bzero b = b\<lparr>fdata := replicate (length (fdata b)) (CHR 0x00)\<rparr>"

definition debugString :: "fixed_buffer \<Rightarrow> fixed_buffer option" where
  "debugString b = poke (fcur b) [CHR 0x00] b"

definition asString :: "fixed_buffer \<Rightarrow> string" where
  "asString b = take (fcur b) (fdata b)"

section \<open>The output operators\<close>

definition kMaxNumericSize :: nat where "kMaxNumericSize = 32"

definition formatInteger :: "int \<Rightarrow> fixed_buffer \<Rightarrow> fixed_buffer option" where
  "formatInteger v b =
     (if avail b \<ge> kMaxNumericSize
      then do { b1 \<leftarrow> poke (fcur b) (convert v @ [CHR 0x00]) b; Some (add_cur (length (convert v)) b1) }
      else Some b)"

definition put_pointer :: "nat \<Rightarrow> fixed_buffer \<Rightarrow> fixed_buffer option" where
  "put_pointer v b =
     (if avail b \<ge> kMaxNumericSize
      then do {
        b1 \<leftarrow> poke (fcur b) ''0x'' b;
        b2 \<leftarrow> poke (fcur b + 2) (convertHex v @ [CHR 0x00]) b1;
        Some (add_cur (length (convertHex v) + 2) b2)
      }
      else Some b)"

text \<open>\<open>txt\<close> is the full output of \<^verbatim>\<open>"%.12g"\<close>, whose length \<^verbatim>\<open>snprintf\<close> returns.\<close>

definition put_double :: "string \<Rightarrow> fixed_buffer \<Rightarrow> fixed_buffer option" where
  "put_double txt b =
     (if avail b \<ge> kMaxNumericSize
      then do {
        b1 \<leftarrow> poke (fcur b) (snprintf kMaxNumericSize txt @ [CHR 0x00]) b;
        Some (add_cur (length txt) b1)
      }
      else Some b)"

text \<open>\<^verbatim>\<open>Fmt\<close>: \<open>txt\<close> is the full output of the format.\<close>

definition Fmt_new :: "string \<Rightarrow> string option" where
  "Fmt_new txt = do { check (length txt < 32); Some (snprintf 32 txt) }"

datatype log_item = PutBool bool | PutInt int | PutPointer nat | PutDouble string | PutChar char
  | PutString string | PutFmt string

fun stream_put :: "log_item \<Rightarrow> fixed_buffer \<Rightarrow> fixed_buffer option" where
  "stream_put (PutBool v) b = fixed_append (if v then ''1'' else ''0'') b"
| "stream_put (PutInt v) b = formatInteger v b"
| "stream_put (PutPointer v) b = put_pointer v b"
| "stream_put (PutDouble txt) b = put_double txt b"
| "stream_put (PutChar v) b = fixed_append [v] b"
| "stream_put (PutString v) b = fixed_append v b"
| "stream_put (PutFmt txt) b = do { f \<leftarrow> Fmt_new txt; fixed_append f b }"

section \<open>Correctness of the conversions\<close>

lemma zero_at_digit: "-10 < k \<Longrightarrow> k < 10 \<Longrightarrow> zero_at k = digit (nat \<bar>k\<bar>)"
proof -
  have "\<forall>k \<in> {-9..9 :: int}. zero_at k = digit (nat \<bar>k\<bar>)" by code_simp
  then show "-10 < k \<Longrightarrow> k < 10 \<Longrightarrow> zero_at k = digit (nat \<bar>k\<bar>)" by simp
qed

lemma convert_loop_nat: "convert_loop (int n) = rev (print_nat n)"
proof (induction n rule: print_nat.induct)
  case (1 n)
  have dm: "cdiv (int n) 10 = int (n div 10)" "cmod (int n) 10 = int (n mod 10)"
    by (simp_all add: cdiv_nonneg cmod_nonneg zdiv_int zmod_int)
  have z: "zero_at (int (n mod 10)) = digit (n mod 10)"
    using zero_at_digit [of "int (n mod 10)"] by simp
  show ?case
    using "1" dm z by (cases "n < 10") (simp_all add: convert_loop.simps [of "int n"] print_nat.simps [of n] Let_def)
qed

lemma convert_loop_neg: "convert_loop (- i) = convert_loop i"
proof (induction i rule: convert_loop.induct)
  case (1 i)
  have dm: "cdiv (- i) 10 = - cdiv i 10" "cmod (- i) 10 = - cmod i 10"
    by (simp_all add: cdiv_def cmod_def)
  have "\<bar>cmod i 10\<bar> < 10"
    using cmod_nonneg [of i 10] pos_mod_bound [of 10 i] pos_mod_sign [of 10 i]
    by (cases "i < 0") (simp add: cmod_def cdiv_def sgn_if, simp)
  then have "zero_at (- cmod i 10) = zero_at (cmod i 10)"
    using zero_at_digit [of "cmod i 10"] zero_at_digit [of "- cmod i 10"] by auto
  then show ?case
    using "1" [OF refl refl] by (simp add: convert_loop.simps [of "- i"] convert_loop.simps [of i] dm Let_def)
qed

lemma convert_print: "convert v = print_int v"
  using convert_loop_nat [of "nat \<bar>v\<bar>"] convert_loop_neg [of v]
  by (cases "v < 0") (simp_all add: convert_def print_int_def)


text \<open>Reading hexadecimal digits back.\<close>

definition hex_value :: "char \<Rightarrow> nat" where
  "hex_value c = (if is_digit c then digit_value c else of_char c - 55)"

definition read_hex :: "string \<Rightarrow> nat" where
  "read_hex s = foldl (\<lambda>acc c. 16 * acc + hex_value c) 0 s"

lemma hex_value_digitsHex: "d < 16 \<Longrightarrow> hex_value (digitsHex ! d) = d"
proof -
  have "\<forall>d < 16. hex_value (digitsHex ! d) = d" by code_simp
  then show "d < 16 \<Longrightarrow> hex_value (digitsHex ! d) = d" by blast
qed

lemma convertHex_loop_value: "read_hex (rev (convertHex_loop v)) = v"
proof (induction v rule: convertHex_loop.induct)
  case (1 i)
  then show ?case
    by (subst convertHex_loop.simps) (simp add: read_hex_def hex_value_digitsHex)
qed

lemma convertHex_value: "read_hex (convertHex v) = v"
  by (simp add: convertHex_def convertHex_loop_value)

lemma length_convertHex: "v < 16 ^ k \<Longrightarrow> 0 < k \<Longrightarrow> length (convertHex v) \<le> k"
proof (induction v arbitrary: k rule: convertHex_loop.induct)
  case (1 i)
  show ?case
  proof (cases "i div 16 = 0")
    case True
    then show ?thesis using "1.prems" by (simp add: convertHex_def convertHex_loop.simps [of i])
  next
    case False
    then obtain j where j: "k = Suc j" "0 < j" using "1.prems" by (cases k; cases "k = 1") auto
    then have "i div 16 < 16 ^ j" using "1.prems" by (simp add: less_mult_imp_div_less mult.commute)
    then show ?thesis
      using "1.IH" [OF False, of j] j False by (simp add: convertHex_def convertHex_loop.simps [of i])
  qed
qed

lemma length_print_int:
  assumes "- (2 ^ 63) \<le> v" "v < 2 ^ 64"
  shows "length (print_int v) \<le> 20"
proof (cases "v < 0")
  case True
  have "nat (- v) < 10 ^ 19" using assms(1) True by simp
  then show ?thesis using length_print_nat_le [of "nat (- v)" 19] True by (simp add: print_int_def)
next
  case False
  have "nat v < 10 ^ 20" using assms(2) False by simp
  then show ?thesis using length_print_nat_le [of "nat v" 20] False by (simp add: print_int_def)
qed

section \<open>The buffer\<close>

definition fixed_inv :: "fixed_buffer \<Rightarrow> bool" where
  "fixed_inv b \<longleftrightarrow> fcur b < length (fdata b)"

text \<open>The text of an item, and the items of the types the operators take.\<close>

fun item_text :: "log_item \<Rightarrow> string" where
  "item_text (PutBool v) = (if v then ''1'' else ''0'')"
| "item_text (PutInt v) = print_int v"
| "item_text (PutPointer v) = ''0x'' @ convertHex v"
| "item_text (PutDouble txt) = txt"
| "item_text (PutChar v) = [v]"
| "item_text (PutString v) = v"
| "item_text (PutFmt txt) = txt"

fun item_ok :: "log_item \<Rightarrow> bool" where
  "item_ok (PutInt v) \<longleftrightarrow> - (2 ^ 63) \<le> v \<and> v < 2 ^ 64"
| "item_ok (PutPointer v) \<longleftrightarrow> v < 2 ^ 64"
| "item_ok (PutDouble txt) \<longleftrightarrow> length txt < 32"
| "item_ok (PutFmt txt) \<longleftrightarrow> length txt < 32"
| "item_ok _ \<longleftrightarrow> True"

text \<open>What must be free for an item to be taken.\<close>

definition item_room :: "log_item \<Rightarrow> nat" where
  "item_room it = (case it of PutInt v \<Rightarrow> 32 | PutPointer v \<Rightarrow> 32 | PutDouble t \<Rightarrow> 32
     | _ \<Rightarrow> Suc (length (item_text it)))"

text \<open>Writing text and a terminating zero at the current position.\<close>

lemma poke_text:
  assumes "fixed_inv b" "fcur b + length txt + length rest \<le> length (fdata b)" "fcur b + length txt < length (fdata b)"
  shows "\<exists>b'. poke (fcur b) (txt @ rest) b = Some b' \<and> fixed_inv (add_cur (length txt) b') \<and>
    asString (add_cur (length txt) b') = asString b @ txt \<and> length (fdata b') = length (fdata b)"
  using assms by (simp add: poke_def fixed_inv_def add_cur_def asString_def splice_at_def)

definition appended :: "fixed_buffer \<Rightarrow> string \<Rightarrow> fixed_buffer \<Rightarrow> bool" where
  "appended b txt b' \<longleftrightarrow> fixed_inv b' \<and> asString b' = asString b @ txt \<and> length (fdata b') = length (fdata b)"

lemma fixed_append_ok:
  assumes "fixed_inv b"
  shows "\<exists>b'. fixed_append txt b = Some b' \<and> (if avail b > length txt then appended b txt b' else b' = b)"
proof (cases "avail b > length txt")
  case True
  then obtain b' where "poke (fcur b) (txt @ []) b = Some b'" "fixed_inv (add_cur (length txt) b')"
      "asString (add_cur (length txt) b') = asString b @ txt" "length (fdata b') = length (fdata b)"
    using poke_text [OF assms, of "txt" "[]"] True by (auto simp: avail_def less_diff_conv add.commute)
  then show ?thesis using True by (simp add: fixed_append_def appended_def) (simp add: add_cur_def)
qed (use assms in \<open>simp add: fixed_append_def\<close>)


lemma put_number_ok:
  assumes "fixed_inv b" "avail b \<ge> 32" "length s < 32"
  shows "\<exists>b'. poke (fcur b) (s @ [CHR 0x00]) b = Some b' \<and> appended b s (add_cur (length s) b')"
  using poke_text [OF assms(1), of s "[CHR 0x00]"] assms by (auto simp: avail_def appended_def add_cur_def)

lemma put_pointer_poke:
  assumes "fixed_inv b" "avail b \<ge> 32" "length s \<le> 16"
  shows "do { b1 \<leftarrow> poke (fcur b) ''0x'' b; poke (fcur b + 2) (s @ [CHR 0x00]) b1 } =
    poke (fcur b) ((''0x'' @ s) @ [CHR 0x00]) b"
proof -
  have "splice_at (fcur b + 2) (s @ [CHR 0x00]) (splice_at (fcur b) ''0x'' (fdata b)) =
      splice_at (fcur b) ((''0x'' @ s) @ [CHR 0x00]) (fdata b)"
    using assms by (simp add: splice_at_def avail_def fixed_inv_def numeral_3_eq_3 add.commute)
  then show ?thesis using assms by (simp add: poke_def avail_def)
qed

text \<open>Every operator appends the text of its item when there is room for it and else leaves the buffer alone.\<close>

lemma stream_put_ok:
  assumes "fixed_inv b" "item_ok it"
  shows "\<exists>b'. stream_put it b = Some b' \<and> (if avail b \<ge> item_room it then appended b (item_text it) b' else b' = b)"
proof (cases it)
  case (PutInt v)
  then have "length (convert v) < 32" using assms(2) length_print_int [of v] by (simp add: convert_print)
  then show ?thesis
    using put_number_ok [OF assms(1), of "convert v"] PutInt
    by (auto simp: formatInteger_def kMaxNumericSize_def item_room_def convert_print)
next
  case (PutPointer v)
  then have len: "length (convertHex v) \<le> 16" using assms(2) length_convertHex [of v 16] by simp
  show ?thesis
  proof (cases "avail b \<ge> 32")
    case True
    then show ?thesis
      using put_number_ok [OF assms(1) True, of "''0x'' @ convertHex v"] put_pointer_poke [OF assms(1) True len] len PutPointer
      by (auto simp: put_pointer_def kMaxNumericSize_def item_room_def bind_assoc [symmetric] simp del: append.simps)
  qed (use PutPointer assms in \<open>simp add: put_pointer_def kMaxNumericSize_def item_room_def\<close>)
next
  case (PutDouble t)
  then show ?thesis
    using put_number_ok [OF assms(1), of t] assms(2)
    by (auto simp: put_double_def kMaxNumericSize_def item_room_def snprintf_def)
next
  case (PutFmt t)
  then show ?thesis
    using fixed_append_ok [OF assms(1), of t] assms(2) by (auto simp: Fmt_new_def snprintf_def item_room_def Suc_le_eq)
qed (use fixed_append_ok [OF assms(1), of "item_text it"] in \<open>auto simp: item_room_def Suc_le_eq split: if_splits\<close>)

section \<open>Properties\<close>

text \<open>
  C28. The fast conversion of integers, which keeps the sign of the remainders and indexes a symmetric digit
  table with them, prints every integer as \<^verbatim>\<open>%d\<close> does, the most negative ones included; the hexadecimal
  conversion prints a number that reads back as the same value.
\<close>

theorem convert_correct: "convert v = print_int v \<and> read_hex (convertHex n) = n"
  by (simp add: convert_print convertHex_value)

text \<open>
  C29. No output operator writes outside the buffer: for any value of any type, an operator appends exactly
  the item's text if the room it asks for is free, and otherwise drops the item and changes nothing; one byte of
  the array always stays free.
\<close>

theorem stream_put_in_bounds:
  assumes "fcur b < length (fdata b)" "item_ok it"
  shows "\<exists>b'. stream_put it b = Some b' \<and> fcur b' < length (fdata b') \<and> length (fdata b') = length (fdata b) \<and>
    asString b' = (if avail b \<ge> item_room it then asString b @ item_text it else asString b)"
  using stream_put_ok [of b it] assms by (auto simp: fixed_inv_def appended_def split: if_splits)

theorem stream_put_in_bounds_witness:
  "\<exists>b'. stream_put (PutInt (- 42)) (FixedBuffer_new (replicate 40 (CHR ''x''))) = Some b' \<and> asString b' = ''-42''"
proof -
  have "print_int (- 42) = ''-42''" by code_simp
  then show ?thesis
    using stream_put_in_bounds [of "FixedBuffer_new (replicate 40 (CHR ''x''))" "PutInt (- 42)"]
    by (auto simp: FixedBuffer_new_def asString_def avail_def item_room_def)
qed

end
