(* ===== verification/Base_Logging.thy ===== *)
theory Base_Logging
  imports Base_LogStream
begin

text \<open>
  Log records (\<^verbatim>\<open>muduo/base/Logging.h\<close>, \<^verbatim>\<open>Logging.cc\<close>) and the identity of threads
  (\<^verbatim>\<open>CurrentThread.h\<close>, \<^verbatim>\<open>Thread.cc\<close>). The variables that are local to a thread are the record
  \<open>thread_locals\<close>. What \<^verbatim>\<open>gettid\<close>, \<^verbatim>\<open>gmtime_r\<close> and \<^verbatim>\<open>strerror_r\<close> return, and the time, are
  arguments. A log statement is the construction of a \<^verbatim>\<open>Logger\<close>, the items of the message, and its
  destruction, which hands the text to the output function.
\<close>

section \<open>Thread-local data\<close>

record thread_locals =
  t_cachedTid :: int
  t_tidString :: string
  t_threadName :: string
  t_lastSecond :: int
  t_time :: string

definition fresh_thread :: thread_locals where
  "fresh_thread = \<lparr>t_cachedTid = 0, t_tidString = [], t_threadName = ''unknown'', t_lastSecond = 0, t_time = []\<rparr>"

definition tid_text :: "int \<Rightarrow> string" where
  "tid_text tid = pad_left (CHR '' '') 5 (print_int tid) @ '' ''"

definition cacheTid :: "int \<Rightarrow> thread_locals \<Rightarrow> thread_locals option" where
  "cacheTid gettid loc =
     (if t_cachedTid loc = 0
      then do {
        let s = tid_text gettid;
        check (length s = 6);
        Some (loc\<lparr>t_cachedTid := gettid, t_tidString := snprintf 32 s\<rparr>)
      }
      else Some loc)"

definition current_tid :: "int \<Rightarrow> thread_locals \<Rightarrow> (int \<times> thread_locals) option" where
  "current_tid gettid loc =
     do {
       loc1 \<leftarrow> (if t_cachedTid loc = 0 then cacheTid gettid loc else Some loc);
       Some (t_cachedTid loc1, loc1)
     }"

definition isMainThread :: "int \<Rightarrow> int \<Rightarrow> thread_locals \<Rightarrow> bool option" where
  "isMainThread gettid getpid loc = do { (tid, loc1) \<leftarrow> current_tid gettid loc; Some (tid = getpid) }"

definition afterFork :: "int \<Rightarrow> thread_locals \<Rightarrow> thread_locals option" where
  "afterFork gettid loc =
     do {
       (tid, loc1) \<leftarrow> current_tid gettid (loc\<lparr>t_cachedTid := 0, t_threadName := ''main''\<rparr>);
       Some loc1
     }"

section \<open>Levels and source files\<close>

datatype log_level = TRACE | DEBUG | INFO | WARN | ERROR | FATAL

fun level_number :: "log_level \<Rightarrow> nat" where
  "level_number TRACE = 0"
| "level_number DEBUG = 1"
| "level_number INFO = 2"
| "level_number WARN = 3"
| "level_number ERROR = 4"
| "level_number FATAL = 5"

definition LogLevelName :: "log_level \<Rightarrow> string" where
  "LogLevelName l = [''TRACE '', ''DEBUG '', ''INFO  '', ''WARN  '', ''ERROR '', ''FATAL ''] ! level_number l"

definition SourceFile_new :: "string \<Rightarrow> string" where
  "SourceFile_new path = rev (takeWhile (\<lambda>c. c \<noteq> CHR ''/'') (rev path))"

section \<open>Formatting a record\<close>

record tm =
  tm_year :: int
  tm_mon :: int
  tm_mday :: int
  tm_hour :: int
  tm_min :: int
  tm_sec :: int

record impl =
  impl_time :: timestamp
  impl_stream :: fixed_buffer
  impl_level :: log_level
  impl_line :: int
  impl_basename :: string

text \<open>A string whose length is known at compile time; debug builds check it.\<close>

definition put_T :: "string \<Rightarrow> nat \<Rightarrow> fixed_buffer \<Rightarrow> fixed_buffer option" where
  "put_T str len b = do { check (length str = len); fixed_append str b }"

fun puts :: "log_item list \<Rightarrow> fixed_buffer \<Rightarrow> fixed_buffer option" where
  "puts [] b = Some b"
| "puts (it # its) b = do { b1 \<leftarrow> stream_put it b; puts its b1 }"

definition time_text :: "tm \<Rightarrow> string" where
  "time_text t = pad_left (CHR '' '') 4 (print_int (tm_year t + 1900)) @ print_int0 2 (tm_mon t + 1) @ print_int0 2 (tm_mday t) @
     '' '' @ print_int0 2 (tm_hour t) @ '':'' @ print_int0 2 (tm_min t) @ '':'' @ print_int0 2 (tm_sec t)"

definition micro_text :: "int \<Rightarrow> string" where
  "micro_text us = ''.'' @ print_int0 6 us @ ''Z ''"

definition formatTime :: "(int \<Rightarrow> tm) \<Rightarrow> timestamp \<Rightarrow> thread_locals \<Rightarrow> fixed_buffer \<Rightarrow> (thread_locals \<times> fixed_buffer) option" where
  "formatTime gmtime time loc b =
     do {
       let seconds = cdiv time 1000000;
       let microseconds = cmod time 1000000;
       loc1 \<leftarrow> (if seconds \<noteq> t_lastSecond loc
               then do {
                 check (length (time_text (gmtime seconds)) = 17);
                 Some (loc\<lparr>t_lastSecond := seconds, t_time := snprintf 32 (time_text (gmtime seconds))\<rparr>)
               }
               else Some loc);
       us \<leftarrow> Fmt_new (micro_text microseconds);
       check (length us = 9);
       b1 \<leftarrow> put_T (t_time loc1) 17 b;
       b2 \<leftarrow> put_T us 9 b1;
       Some (loc1, b2)
     }"

definition Impl_new :: "(int \<Rightarrow> tm) \<Rightarrow> int \<Rightarrow> (int \<Rightarrow> string) \<Rightarrow> log_level \<Rightarrow> int \<Rightarrow> string \<Rightarrow> int \<Rightarrow> timestamp \<Rightarrow>
    thread_locals \<Rightarrow> fixed_buffer \<Rightarrow> (thread_locals \<times> impl) option" where
  "Impl_new gmtime gettid strerr level savedErrno file line time loc b =
     do {
       (loc1, b1) \<leftarrow> formatTime gmtime time loc b;
       (tid, loc2) \<leftarrow> current_tid gettid loc1;
       b2 \<leftarrow> put_T (t_tidString loc2) 6 b1;
       b3 \<leftarrow> put_T (LogLevelName level) 6 b2;
       b4 \<leftarrow> (if savedErrno \<noteq> 0
              then puts [PutString (strerr savedErrno), PutString '' (errno='', PutInt savedErrno, PutString '') ''] b3
              else Some b3);
       Some (loc2, \<lparr>impl_time = time, impl_stream = b4, impl_level = level, impl_line = line,
                   impl_basename = SourceFile_new file\<rparr>)
     }"

definition finish :: "impl \<Rightarrow> impl option" where
  "finish i =
     do {
       b \<leftarrow> puts [PutString '' - '', PutString (impl_basename i), PutChar (CHR '':''), PutInt (impl_line i), PutChar (CHR 0x0A)]
            (impl_stream i);
       Some (i\<lparr>impl_stream := b\<rparr>)
     }"

text \<open>The four constructors of \<^verbatim>\<open>Logger\<close>, by the macro that uses them.\<close>

datatype log_macro = LogTrace string | LogDebug string | LogInfo | LogWarn | LogError | LogFatal | LogSyserr | LogSysfatal

fun macro_level :: "log_macro \<Rightarrow> log_level" where
  "macro_level (LogTrace func) = TRACE"
| "macro_level (LogDebug func) = DEBUG"
| "macro_level LogInfo = INFO"
| "macro_level LogWarn = WARN"
| "macro_level LogError = ERROR"
| "macro_level LogFatal = FATAL"
| "macro_level LogSyserr = ERROR"
| "macro_level LogSysfatal = FATAL"

fun macro_errno :: "log_macro \<Rightarrow> int \<Rightarrow> int" where
  "macro_errno LogSyserr errno = errno"
| "macro_errno LogSysfatal errno = errno"
| "macro_errno _ errno = 0"

fun macro_func :: "log_macro \<Rightarrow> log_item list" where
  "macro_func (LogTrace func) = [PutString func, PutChar (CHR '' '')]"
| "macro_func (LogDebug func) = [PutString func, PutChar (CHR '' '')]"
| "macro_func _ = []"

text \<open>The macros test the global level before they log anything.\<close>

fun macro_logs :: "log_level \<Rightarrow> log_macro \<Rightarrow> bool" where
  "macro_logs g_logLevel (LogTrace func) \<longleftrightarrow> level_number g_logLevel \<le> level_number TRACE"
| "macro_logs g_logLevel (LogDebug func) \<longleftrightarrow> level_number g_logLevel \<le> level_number DEBUG"
| "macro_logs g_logLevel LogInfo \<longleftrightarrow> level_number g_logLevel \<le> level_number INFO"
| "macro_logs g_logLevel _ \<longleftrightarrow> True"

text \<open>\<^verbatim>\<open>~Logger\<close>: the text that goes to the output function, and whether the process then aborts.\<close>

definition Logger_delete :: "impl \<Rightarrow> (string \<times> bool) option" where
  "Logger_delete i =
     do {
       i1 \<leftarrow> finish i;
       Some (asString (impl_stream i1), impl_level i1 = FATAL)
     }"

definition log_statement :: "(int \<Rightarrow> tm) \<Rightarrow> int \<Rightarrow> (int \<Rightarrow> string) \<Rightarrow> log_level \<Rightarrow> log_macro \<Rightarrow> int \<Rightarrow> string \<Rightarrow> int \<Rightarrow>
    timestamp \<Rightarrow> log_item list \<Rightarrow> char list \<Rightarrow> thread_locals \<Rightarrow> ((string \<times> bool) option \<times> thread_locals) option" where
  "log_statement gmtime gettid strerr g_logLevel m errno file line time msg garbage loc =
     (if macro_logs g_logLevel m
      then do {
        (loc1, i) \<leftarrow> Impl_new gmtime gettid strerr (macro_level m) (macro_errno m errno) file line time loc (FixedBuffer_new garbage);
        b1 \<leftarrow> puts (macro_func m) (impl_stream i);
        b2 \<leftarrow> puts msg b1;
        out \<leftarrow> Logger_delete (i\<lparr>impl_stream := b2\<rparr>);
        Some (Some out, loc1)
      }
      else Some (None, loc))"

section \<open>Room in the buffer\<close>

definition room :: "fixed_buffer \<Rightarrow> nat \<Rightarrow> bool" where
  "room b n \<longleftrightarrow> fixed_inv b \<and> length (asString b) + n + 32 \<le> length (fdata b)"

lemma length_asString: "fixed_inv b \<Longrightarrow> length (asString b) = fcur b"
  by (simp add: asString_def fixed_inv_def)

lemma room_avail: "room b n \<Longrightarrow> n + 32 \<le> avail b"
  by (auto simp: room_def length_asString avail_def)

lemma appended_refl: "fixed_inv b \<Longrightarrow> appended b [] b"
  by (simp add: appended_def)

lemma appended_trans: "appended b s b1 \<Longrightarrow> appended b1 t b2 \<Longrightarrow> appended b (s @ t) b2"
  by (simp add: appended_def)

lemma room_appended: "room b (length s + n) \<Longrightarrow> appended b s b' \<Longrightarrow> room b' n"
  by (simp add: room_def appended_def)

lemma room_less: "room b n \<Longrightarrow> m \<le> n \<Longrightarrow> room b m"
  by (simp add: room_def)

lemma put_T_ok:
  assumes "room b (length str)"
  shows "\<exists>b'. put_T str (length str) b = Some b' \<and> appended b str b'"
  using fixed_append_ok [of b str] room_avail [OF assms] assms by (simp add: put_T_def room_def)

lemma item_room_le: "item_room it \<le> length (item_text it) + 32"
  by (auto simp: item_room_def split: log_item.splits)

lemma puts_ok:
  assumes "room b (length (concat (map item_text its)))" "list_all item_ok its"
  shows "\<exists>b'. puts its b = Some b' \<and> appended b (concat (map item_text its)) b'"
  using assms
proof (induction its arbitrary: b)
  case Nil
  then show ?case by (simp add: appended_refl room_def)
next
  case (Cons it its)
  let ?rest = "concat (map item_text its)"
  have room: "room b (length (item_text it) + length ?rest)" using Cons.prems(1) by simp
  then have "item_room it \<le> avail b" using room_avail [OF room] item_room_le [of it] by simp
  then obtain b1 where b1: "stream_put it b = Some b1" "appended b (item_text it) b1"
    using stream_put_ok [of b it] Cons.prems by (auto simp: room_def)
  obtain b2 where "puts its b1 = Some b2" "appended b1 ?rest b2"
    using Cons.IH [OF room_appended [OF room b1(2)]] Cons.prems(2) by auto
  then show ?case using b1 appended_trans [OF b1(2)] by simp
qed

section \<open>The fixed-width parts\<close>

lemma length_print_nat_eq: "10 ^ k \<le> n \<Longrightarrow> n < 10 ^ Suc k \<Longrightarrow> length (print_nat n) = Suc k"
  using length_print_nat_ge [of k n] length_print_nat_le [of n "Suc k"] by simp

definition tm_ok :: "tm \<Rightarrow> bool" where
  "tm_ok t \<longleftrightarrow> 1000 \<le> tm_year t + 1900 \<and> tm_year t + 1900 \<le> 9999 \<and> 0 \<le> tm_mon t \<and> tm_mon t \<le> 11 \<and>
     1 \<le> tm_mday t \<and> tm_mday t \<le> 31 \<and> 0 \<le> tm_hour t \<and> tm_hour t \<le> 23 \<and> 0 \<le> tm_min t \<and> tm_min t \<le> 59 \<and>
     0 \<le> tm_sec t \<and> tm_sec t \<le> 60"

lemma length_time_text:
  assumes "tm_ok t"
  shows "length (time_text t) = 17"
proof -
  have "length (print_nat (nat (tm_year t + 1900))) = 4"
    using assms length_print_nat_eq [of 3 "nat (tm_year t + 1900)"] by (simp add: tm_ok_def le_nat_iff nat_less_iff)
  then show ?thesis
    using assms by (simp add: time_text_def tm_ok_def print_int_def pad_left_def length_print_int0)
qed

lemma length_tid_text: "0 < tid \<Longrightarrow> tid < 100000 \<Longrightarrow> length (tid_text tid) = 6"
  using length_print_nat_le [of "nat tid" 5] by (simp add: tid_text_def pad_left_def print_int_def nat_less_iff)

text \<open>A thread identifier with six digits does not fit: \<^verbatim>\<open>cacheTid\<close> fails its assertion.\<close>

theorem cacheTid_fails:
  assumes "100000 \<le> tid"
  shows "cacheTid tid fresh_thread = None"
proof -
  have "5 < length (print_nat (nat tid))" using length_print_nat_ge [of 5 "nat tid"] assms by (simp add: le_nat_iff)
  then show ?thesis using assms by (simp add: cacheTid_def fresh_thread_def tid_text_def pad_left_def print_int_def)
qed

section \<open>A whole record\<close>

text \<open>What the thread-local caches hold.\<close>

definition locals_ok :: "(int \<Rightarrow> tm) \<Rightarrow> int \<Rightarrow> thread_locals \<Rightarrow> bool" where
  "locals_ok gmtime tid loc \<longleftrightarrow> (t_cachedTid loc = 0 \<or> t_cachedTid loc = tid \<and> t_tidString loc = tid_text tid) \<and>
     (t_lastSecond loc = 0 \<or> t_time loc = time_text (gmtime (t_lastSecond loc)))"

definition err_items :: "(int \<Rightarrow> string) \<Rightarrow> int \<Rightarrow> log_item list" where
  "err_items strerr e = (if e = 0 then [] else
     [PutString (strerr e), PutString '' (errno='', PutInt e, PutString '') ''])"

definition log_head :: "(int \<Rightarrow> tm) \<Rightarrow> int \<Rightarrow> timestamp \<Rightarrow> log_level \<Rightarrow> string" where
  "log_head gmtime tid time level = time_text (gmtime (time div 1000000)) @ micro_text (time mod 1000000) @
     tid_text tid @ LogLevelName level"

lemma formatTime_ok:
  assumes "locals_ok gmtime tid loc" "1000000 \<le> time" "tm_ok (gmtime (time div 1000000))" "room b (26 + n)"
  shows "\<exists>loc' b'. formatTime gmtime time loc b = Some (loc', b') \<and> locals_ok gmtime tid loc' \<and>
     t_cachedTid loc' = t_cachedTid loc \<and>
     appended b (time_text (gmtime (time div 1000000)) @ micro_text (time mod 1000000)) b'"
proof -
  let ?t = "time_text (gmtime (time div 1000000))" and ?u = "micro_text (time mod 1000000)"
  have dm: "cdiv time 1000000 = time div 1000000" "cmod time 1000000 = time mod 1000000" "time div 1000000 \<noteq> 0"
    using assms(2) by (simp_all add: cdiv_nonneg cmod_nonneg)
  have len: "length ?t = 17" "length ?u = 9"
    using length_time_text [OF assms(3)] by (simp_all add: micro_text_def length_print_int0)
  obtain b1 where b1: "put_T ?t 17 b = Some b1" "appended b ?t b1"
    using put_T_ok [OF room_less [OF assms(4)], of ?t] len by auto
  have "room b1 (9 + n)" using room_appended [OF _ b1(2), of "9 + n"] assms(4) len by simp
  then obtain b2 where b2: "put_T ?u 9 b1 = Some b2" "appended b1 ?u b2"
    using put_T_ok [OF room_less, of b1 "9 + n" ?u] len by auto
  define loc' where "loc' = loc\<lparr>t_lastSecond := time div 1000000, t_time := ?t\<rparr>"
  have "t_lastSecond loc = time div 1000000 \<Longrightarrow> loc' = loc \<and> t_time loc = ?t"
    using assms(1) dm(3) by (cases loc) (simp add: loc'_def locals_ok_def)
  moreover have "locals_ok gmtime tid loc'" using assms(1) by (simp add: loc'_def locals_ok_def)
  moreover have "snprintf 32 ?t = ?t" "snprintf 32 ?u = ?u" using len by (simp_all add: snprintf_def)
  ultimately have "formatTime gmtime time loc b = Some (loc', b2)"
    using dm len b1(1) b2(1) by (cases "t_lastSecond loc = time div 1000000")
      (simp_all add: formatTime_def Fmt_new_def Let_def loc'_def)
  then show ?thesis
    using \<open>locals_ok gmtime tid loc'\<close> appended_trans [OF b1(2) b2(2)] by (simp add: loc'_def)
qed

lemma current_tid_ok:
  assumes "locals_ok gmtime tid loc" "0 < tid" "tid < 100000"
  shows "\<exists>loc'. current_tid tid loc = Some (tid, loc') \<and> locals_ok gmtime tid loc' \<and> t_tidString loc' = tid_text tid"
  using assms length_tid_text [OF assms(2,3)]
  by (auto simp: current_tid_def cacheTid_def locals_ok_def snprintf_def)

lemma length_LogLevelName: "length (LogLevelName l) = 6"
  by (cases l) (simp_all add: LogLevelName_def)

lemma Impl_new_ok:
  assumes loc: "locals_ok gmtime tid loc" "0 < tid" "tid < 100000" and time: "1000000 \<le> time" "tm_ok (gmtime (time div 1000000))"
    and items: "list_all item_ok (err_items strerr e)"
    and room: "room b (length (log_head gmtime tid time level @ concat (map item_text (err_items strerr e))) + n)"
  shows "\<exists>loc' b'. Impl_new gmtime tid strerr level e file line time loc b =
      Some (loc', \<lparr>impl_time = time, impl_stream = b', impl_level = level, impl_line = line, impl_basename = SourceFile_new file\<rparr>) \<and>
     locals_ok gmtime tid loc' \<and>
     appended b (log_head gmtime tid time level @ concat (map item_text (err_items strerr e))) b'"
proof -
  let ?tt = "time_text (gmtime (time div 1000000)) @ micro_text (time mod 1000000)" and ?e = "concat (map item_text (err_items strerr e))"
  have len: "length ?tt = 26" "length (tid_text tid) = 6" "length (LogLevelName level) = 6"
    using length_time_text [OF time(2)] length_tid_text [OF loc(2,3)] length_LogLevelName
    by (simp_all add: micro_text_def length_print_int0)
  have "length (log_head gmtime tid time level @ ?e) + n = length ?tt + (6 + (6 + (length ?e + n)))"
    using len by (simp add: log_head_def)
  then have r0: "room b (length ?tt + (6 + (6 + (length ?e + n))))" using room by (simp only:)
  obtain loc1 b1 where 1: "formatTime gmtime time loc b = Some (loc1, b1)" "locals_ok gmtime tid loc1" "appended b ?tt b1"
    using formatTime_ok [OF loc(1) time r0 [unfolded len(1)]] by blast
  obtain loc2 where 2: "current_tid tid loc1 = Some (tid, loc2)" "locals_ok gmtime tid loc2" "t_tidString loc2 = tid_text tid"
    using current_tid_ok [OF 1(2) loc(2,3)] by blast
  have r1: "room b1 (6 + (6 + (length ?e + n)))" by (rule room_appended [OF r0 1(3)])
  obtain b2 where 3: "put_T (tid_text tid) 6 b1 = Some b2" "appended b1 (tid_text tid) b2"
    using put_T_ok [of b1 "tid_text tid"] room_less [OF r1] len(2) by auto
  have r2: "room b2 (6 + (length ?e + n))" using room_appended [OF _ 3(2), of "6 + (length ?e + n)"] r1 len(2) by simp
  obtain b3 where 4: "put_T (LogLevelName level) 6 b2 = Some b3" "appended b2 (LogLevelName level) b3"
    using put_T_ok [of b2 "LogLevelName level"] room_less [OF r2] len(3) by auto
  have r3: "room b3 (length ?e)" using room_appended [OF _ 4(2), of "length ?e + n"] r2 len(3) room_less by simp
  obtain b4 where 5: "puts (err_items strerr e) b3 = Some b4" "appended b3 ?e b4"
    using puts_ok [OF r3 items] by blast
  have "(if e \<noteq> 0 then puts [PutString (strerr e), PutString '' (errno='', PutInt e, PutString '') ''] b3 else Some b3) = Some b4"
    using 5(1) by (auto simp: err_items_def split: if_splits)
  then have "Impl_new gmtime tid strerr level e file line time loc b =
      Some (loc2, \<lparr>impl_time = time, impl_stream = b4, impl_level = level, impl_line = line, impl_basename = SourceFile_new file\<rparr>)"
    using 1(1) 2(1,3) 3(1) 4(1) by (simp add: Impl_new_def cong: if_cong)
  moreover have "appended b (log_head gmtime tid time level @ ?e) b4"
    using appended_trans [OF appended_trans [OF appended_trans [OF 1(3) 3(2)] 4(2)] 5(2)] by (simp add: log_head_def)
  ultimately show ?thesis using 2(2) by blast
qed

definition tail_items :: "string \<Rightarrow> int \<Rightarrow> log_item list" where
  "tail_items file line = [PutString '' - '', PutString (SourceFile_new file), PutChar (CHR '':''), PutInt line, PutChar (CHR 0x0A)]"

definition log_line :: "(int \<Rightarrow> tm) \<Rightarrow> int \<Rightarrow> (int \<Rightarrow> string) \<Rightarrow> log_macro \<Rightarrow> int \<Rightarrow> string \<Rightarrow> int \<Rightarrow> timestamp \<Rightarrow> log_item list \<Rightarrow> string" where
  "log_line gmtime tid strerr m errno file line time msg = log_head gmtime tid time (macro_level m) @
     concat (map item_text (err_items strerr (macro_errno m errno) @ macro_func m @ msg @ tail_items file line))"

lemma finish_tail:
  "impl_basename i = SourceFile_new file \<Longrightarrow>
   finish i = do { b \<leftarrow> puts (tail_items file (impl_line i)) (impl_stream i); Some (i\<lparr>impl_stream := b\<rparr>) }"
  by (simp only: finish_def tail_items_def)



end
