(* ===== verification/Base_LogFile.thy ===== *)
theory Base_LogFile
  imports Base_Logging
begin

text \<open>
  Log files (\<^verbatim>\<open>muduo/base/LogFile.h\<close>, \<^verbatim>\<open>LogFile.cc\<close>) and the reading of small files
  (\<^verbatim>\<open>FileUtil.cc\<close>). How many bytes \<^verbatim>\<open>fwrite\<close> takes is a parameter \<open>fw\<close>, a function of the file and the data; so are the results of
  \<^verbatim>\<open>read\<close>. The times that \<^verbatim>\<open>time(NULL)\<close> returns are arguments. The files that a log has closed are kept as history.
\<close>

section \<open>One file\<close>

record disk_file =
  file_name :: string
  content :: string
  writtenBytes :: nat

type_synonym fwrite = "disk_file \<Rightarrow> string \<Rightarrow> nat"

definition File_new :: "string \<Rightarrow> disk_file" where
  "File_new name = \<lparr>file_name = name, content = [], writtenBytes = 0\<rparr>"

definition file_write :: "fwrite \<Rightarrow> string \<Rightarrow> disk_file \<Rightarrow> nat \<times> disk_file" where
  "file_write fw logline f =
     (let n = min (fw f logline) (length logline) in (n, f\<lparr>content := content f @ take n logline\<rparr>))"

text \<open>The loop that writes the rest of a line; it gives up when nothing was written.\<close>

function append_rest :: "fwrite \<Rightarrow> string \<Rightarrow> disk_file \<Rightarrow> disk_file" where
  "append_rest fw rest f =
     (if rest = [] then f
      else let (x, f1) = file_write fw rest f in
           if x = 0 then f1 else append_rest fw (drop x rest) f1)"
  by auto
termination
proof (relation "measure (\<lambda>(fw, rest, f). length rest)")
  fix fw rest f p x f1
  assume "rest \<noteq> []" "p = file_write fw rest f" "(x, f1) = p" "x \<noteq> 0"
  then show "((fw, drop x rest, f1), fw, rest, f) \<in> measure (\<lambda>(fw, rest, f). length rest)"
    by simp
qed simp

declare append_rest.simps [simp del]

definition File_append :: "fwrite \<Rightarrow> string \<Rightarrow> disk_file \<Rightarrow> disk_file" where
  "File_append fw logline f =
     (let (n, f1) = file_write fw logline f;
          f2 = append_rest fw (drop n logline) f1
      in f2\<lparr>writtenBytes := writtenBytes f2 + length logline\<rparr>)"

section \<open>Rolling\<close>

definition kCheckTimeRoll :: int where "kCheckTimeRoll = 1024"
definition kRollPerSeconds :: int where "kRollPerSeconds = 60 * 60 * 24"

record log_file =
  basename :: string
  rollSize :: nat
  flushInterval :: int
  roll_count :: int
  startOfPeriod :: int
  lastRoll :: int
  lastFlush :: int
  current :: "disk_file option"
  closed :: "disk_file list"

definition getLogFileName :: "(int \<Rightarrow> tm) \<Rightarrow> string \<Rightarrow> int \<Rightarrow> string \<Rightarrow> int \<Rightarrow> string" where
  "getLogFileName gmtime hostname pid name now =
     (let t = gmtime now in
      name @ ''.'' @ print_int0 4 (tm_year t + 1900) @ print_int0 2 (tm_mon t + 1) @ print_int0 2 (tm_mday t) @ ''-'' @
      print_int0 2 (tm_hour t) @ print_int0 2 (tm_min t) @ print_int0 2 (tm_sec t) @ ''.'' @
      hostname @ snprintf 32 (''.'' @ print_int pid) @ ''.log'')"

text \<open>\<^verbatim>\<open>rollFile\<close>, with the name that goes with the time: a new file at most once a second.\<close>

definition rollFile :: "(int \<Rightarrow> string) \<Rightarrow> int \<Rightarrow> log_file \<Rightarrow> log_file" where
  "rollFile filename now l =
     (let start = cdiv now kRollPerSeconds * kRollPerSeconds in
      if now > lastRoll l
      then l\<lparr>lastRoll := now, lastFlush := now, startOfPeriod := start,
             closed := closed l @ (case current l of None \<Rightarrow> [] | Some f \<Rightarrow> [f]), current := Some (File_new (filename now))\<rparr>
      else l)"

definition LogFile_new :: "(int \<Rightarrow> string) \<Rightarrow> string \<Rightarrow> nat \<Rightarrow> int \<Rightarrow> int \<Rightarrow> log_file option" where
  "LogFile_new filename base rollsz interval now =
     do {
       check (CHR ''/'' \<notin> set base);
       Some (rollFile filename now \<lparr>basename = base, rollSize = rollsz, flushInterval = interval, roll_count = 0,
         startOfPeriod = 0, lastRoll = 0, lastFlush = 0, current = None, closed = []\<rparr>)
     }"

text \<open>
  \<^verbatim>\<open>append\<close>, with or without the mutex: \<open>now1\<close> is the time \<^verbatim>\<open>append_unlocked\<close> reads, \<open>now2\<close> the one \<^verbatim>\<open>rollFile\<close> reads.
\<close>

definition LogFile_append :: "fwrite \<Rightarrow> (int \<Rightarrow> string) \<Rightarrow> string \<Rightarrow> int \<Rightarrow> int \<Rightarrow> log_file \<Rightarrow> log_file option" where
  "LogFile_append fw filename logline now1 now2 l =
     do {
       f \<leftarrow> current l;
       let f1 = File_append fw logline f;
       let l1 = l\<lparr>current := Some f1\<rparr>;
       (if writtenBytes f1 > rollSize l1
        then Some (rollFile filename now2 l1)
        else if roll_count l1 > kCheckTimeRoll
        then (let l2 = l1\<lparr>roll_count := 0\<rparr>;
                  thisPeriod = cdiv now1 kRollPerSeconds * kRollPerSeconds
              in if thisPeriod \<noteq> startOfPeriod l2 then Some (rollFile filename now2 l2)
                 else if now1 - lastFlush l2 > flushInterval l2 then Some (l2\<lparr>lastFlush := now1\<rparr>)
                 else Some l2)
        else Some (l1\<lparr>roll_count := roll_count l1 + 1\<rparr>))
     }"

definition LogFile_flush :: "log_file \<Rightarrow> unit option" where
  "LogFile_flush l = do { f \<leftarrow> current l; Some () }"

section \<open>Reading small files\<close>

datatype read_result = ReadBytes nat | ReadErr int

record small_file =
  small_fd :: int
  small_err :: int

definition SmallFile_new :: "int + int \<Rightarrow> small_file" where
  "SmallFile_new res = (case res of Inr fdn \<Rightarrow> \<lparr>small_fd = fdn, small_err = 0\<rparr> | Inl errno \<Rightarrow> \<lparr>small_fd = -1, small_err = errno\<rparr>)"

definition kBufferSize :: nat where "kBufferSize = 64 * 1024"

text \<open>
  The loop of \<^verbatim>\<open>readToString\<close> over a file with the bytes \<open>bytes\<close>: \<open>rd pos n\<close> is the result of reading up to \<open>n\<close> bytes at \<open>pos\<close>.
\<close>

function read_loop :: "(nat \<Rightarrow> nat \<Rightarrow> read_result) \<Rightarrow> string \<Rightarrow> nat \<Rightarrow> string \<Rightarrow> int \<Rightarrow> string \<times> int" where
  "read_loop rd bytes maxSize cont err =
     (if length cont < maxSize
      then let toRead = min (maxSize - length cont) kBufferSize in
           case rd (length cont) toRead of
             ReadBytes n \<Rightarrow>
               (let chunk = take (min n toRead) (drop (length cont) bytes) in
                if chunk \<noteq> [] then read_loop rd bytes maxSize (cont @ chunk) err else (cont, err))
           | ReadErr e \<Rightarrow> (cont, e)
      else (cont, err))"
  by auto
termination
  by (relation "measure (\<lambda>(rd, bytes, maxSize, cont, err). maxSize - length cont)") auto

declare read_loop.simps [simp del]

datatype stat_result = StatErr int | StatFile int | StatDir | StatOther

definition EISDIR :: int where "EISDIR = 21"

definition readToString :: "(nat \<Rightarrow> nat \<Rightarrow> read_result) \<Rightarrow> stat_result option \<Rightarrow> string \<Rightarrow> nat \<Rightarrow> small_file \<Rightarrow> string \<times> int" where
  "readToString rd stat bytes maxSize sf =
     (if small_fd sf \<ge> 0
      then let err = (case stat of Some StatDir \<Rightarrow> EISDIR | Some (StatErr e) \<Rightarrow> e | _ \<Rightarrow> small_err sf)
           in read_loop rd bytes maxSize [] err
      else ([], small_err sf))"

definition readToBuffer :: "string + int \<Rightarrow> small_file \<Rightarrow> (string option \<times> int)" where
  "readToBuffer pread sf =
     (if small_fd sf \<ge> 0
      then (case pread of Inl bytes \<Rightarrow> (Some (take (kBufferSize - 1) bytes), small_err sf) | Inr errno \<Rightarrow> (None, errno))
      else (None, small_err sf))"

section \<open>Correctness\<close>

text \<open>An \<^verbatim>\<open>fwrite\<close> that always takes something.\<close>

definition fwrite_progress :: "fwrite \<Rightarrow> bool" where
  "fwrite_progress fw \<longleftrightarrow> (\<forall>f d. d \<noteq> [] \<longrightarrow> fw f d > 0)"

lemma append_rest_all:
  assumes "fwrite_progress fw"
  shows "append_rest fw rest f = f\<lparr>content := content f @ rest\<rparr>"
proof (induction "length rest" arbitrary: rest f rule: less_induct)
  case less
  show ?case
  proof (cases "rest = []")
    case True
    then show ?thesis by (simp add: append_rest.simps)
  next
    case False
    define x where "x = min (fw f rest) (length rest)"
    have x: "x \<noteq> 0" "file_write fw rest f = (x, f\<lparr>content := content f @ take x rest\<rparr>)"
      using False assms by (auto simp: x_def file_write_def fwrite_progress_def Let_def)
    have "append_rest fw (drop x rest) (f\<lparr>content := content f @ take x rest\<rparr>) = f\<lparr>content := content f @ rest\<rparr>"
      using less [of "drop x rest"] x(1) False by simp
    then show ?thesis using False x by (simp add: append_rest.simps [of fw rest])
  qed
qed

lemma File_append_all:
  assumes "fwrite_progress fw"
  shows "File_append fw line f = f\<lparr>content := content f @ line, writtenBytes := writtenBytes f + length line\<rparr>"
  by (simp add: File_append_def file_write_def append_rest_all [OF assms] Let_def)

text \<open>All that a log has written, oldest file first.\<close>

definition all_files :: "log_file \<Rightarrow> disk_file list" where
  "all_files l = closed l @ (case current l of None \<Rightarrow> [] | Some f \<Rightarrow> [f])"

definition all_text :: "log_file \<Rightarrow> string" where
  "all_text l = concat (map content (all_files l))"

lemma rollFile_text: "all_text (rollFile filename now l) = all_text l"
  by (simp add: rollFile_def all_text_def all_files_def File_new_def Let_def split: option.splits)

lemma LogFile_append_ok:
  assumes "fwrite_progress fw" "current l \<noteq> None"
  shows "\<exists>l'. LogFile_append fw filename line now1 now2 l = Some l' \<and> current l' \<noteq> None \<and> all_text l' = all_text l @ line"
proof -
  obtain f where f: "current l = Some f" using assms(2) by auto
  let ?f1 = "f\<lparr>content := content f @ line, writtenBytes := writtenBytes f + length line\<rparr>"
  have whole: "all_text (l\<lparr>current := Some ?f1\<rparr>) = all_text l @ line"
    using f by (simp add: all_text_def all_files_def)
  have roll: "all_text (rollFile filename now2 m) = all_text m" "current m = Some g \<Longrightarrow> \<exists>y. current (rollFile filename now2 m) = Some y" for m g
    by (simp add: rollFile_text) (simp add: rollFile_def Let_def)
  have upd: "all_text (m\<lparr>roll_count := c\<rparr>) = all_text m" "all_text (m\<lparr>lastFlush := t\<rparr>) = all_text m" for m c t
    by (simp_all add: all_text_def all_files_def)
  show ?thesis
    using f whole by (auto simp: LogFile_append_def File_append_all [OF assms(1)] Let_def roll(1) upd intro!: roll(2))
qed

text \<open>The names of the files are those of strictly increasing times.\<close>

definition names_inv :: "(int \<Rightarrow> string) \<Rightarrow> log_file \<Rightarrow> bool" where
  "names_inv filename l \<longleftrightarrow> (\<exists>ts. map file_name (all_files l) = map filename ts \<and> sorted_wrt (<) ts \<and> ts \<noteq> [] \<and> last ts = lastRoll l)"

lemma sorted_wrt_snoc_last: "sorted_wrt (<) ts \<Longrightarrow> ts \<noteq> [] \<Longrightarrow> last ts < (x :: int) \<Longrightarrow> sorted_wrt (<) (ts @ [x])"
proof (induction ts)
  case (Cons t ts)
  then show ?case by (cases "ts = []") (auto intro: less_trans)
qed simp

lemma rollFile_names:
  assumes "names_inv filename l"
  shows "names_inv filename (rollFile filename now l)"
proof (cases "now > lastRoll l")
  case True
  obtain ts where ts: "map file_name (all_files l) = map filename ts" "sorted_wrt (<) ts" "ts \<noteq> []" "last ts = lastRoll l"
    using assms by (auto simp: names_inv_def)
  have "map file_name (all_files (rollFile filename now l)) = map filename (ts @ [now])"
    using True ts(1) by (simp add: rollFile_def all_files_def File_new_def Let_def split: option.splits)
  then show ?thesis
    using sorted_wrt_snoc_last [OF ts(2,3), of now] ts(4) True
    by (auto simp: names_inv_def rollFile_def Let_def intro!: exI [of _ "ts @ [now]"])
qed (use assms in \<open>simp add: rollFile_def Let_def\<close>)

lemma LogFile_append_names:
  assumes "names_inv filename l" "LogFile_append fw filename line now1 now2 l = Some l'" "fwrite_progress fw"
  shows "names_inv filename l'"
proof -
  obtain f where f: "current l = Some f" using assms(2) by (cases "current l") (auto simp: LogFile_append_def)
  have upd: "names_inv filename (m\<lparr>roll_count := c\<rparr>) = names_inv filename m"
      "names_inv filename (m\<lparr>lastFlush := t\<rparr>) = names_inv filename m" for m c t
    by (simp_all add: names_inv_def all_files_def)
  have "names_inv filename (l\<lparr>current := Some (File_append fw line f)\<rparr>)"
    using assms(1) f by (simp add: names_inv_def all_files_def File_append_all [OF assms(3)])
  then show ?thesis
    using assms(2) f by (auto simp: LogFile_append_def Let_def upd rollFile_names split: if_splits)
qed

fun append_lines :: "fwrite \<Rightarrow> (int \<Rightarrow> string) \<Rightarrow> (string \<times> int \<times> int) list \<Rightarrow> log_file \<Rightarrow> log_file option" where
  "append_lines fw filename [] l = Some l"
| "append_lines fw filename ((line, now1, now2) # xs) l =
     do { l1 \<leftarrow> LogFile_append fw filename line now1 now2 l; append_lines fw filename xs l1 }"

lemma append_lines_ok:
  assumes "fwrite_progress fw" "current l \<noteq> None" "names_inv filename l"
  shows "\<exists>l'. append_lines fw filename xs l = Some l' \<and> all_text l' = all_text l @ concat (map fst xs) \<and>
    current l' \<noteq> None \<and> names_inv filename l'"
  using assms(2,3)
proof (induction xs arbitrary: l)
  case (Cons x xs)
  obtain line now1 now2 where x: "x = (line, now1, now2)" by (cases x)
  obtain l1 where l1: "LogFile_append fw filename line now1 now2 l = Some l1" "current l1 \<noteq> None" "all_text l1 = all_text l @ line"
    using LogFile_append_ok [OF assms(1) Cons.prems(1)] by blast
  show ?case
    using Cons.IH [OF l1(2) LogFile_append_names [OF Cons.prems(2) l1(1) assms(1)]] l1 x by auto
qed simp

lemma LogFile_new_ok:
  assumes "CHR ''/'' \<notin> set base" "now > 0"
  shows "\<exists>l. LogFile_new filename base rollsz interval now = Some l \<and> current l \<noteq> None \<and> all_text l = [] \<and> names_inv filename l"
  using assms by (auto simp: LogFile_new_def rollFile_def all_text_def all_files_def File_new_def names_inv_def Let_def
      intro!: exI [of _ "[now]"])

text \<open>Reading: with a \<^verbatim>\<open>read\<close> that returns something until the end of the file.\<close>

lemma read_loop_all:
  assumes "\<And>pos n. pos < length bytes \<Longrightarrow> 0 < n \<Longrightarrow> \<exists>k > 0. rd pos n = ReadBytes k"
    "\<And>n. rd (length bytes) n = ReadBytes 0" "take (length cont) bytes = cont" "length cont \<le> maxSize"
  shows "read_loop rd bytes maxSize cont err = (take maxSize bytes, err)"
  using assms(3,4)
proof (induction "maxSize - length cont" arbitrary: cont rule: less_induct)
  case less
  let ?n = "min (maxSize - length cont) kBufferSize"
  have le: "length cont \<le> length bytes" using arg_cong [OF less.prems(1), of length] by simp
  consider "length cont = maxSize" | "length cont = length bytes" "length cont < maxSize"
    | "length cont < length bytes" "length cont < maxSize" using le less.prems(2) by linarith
  then show ?case
  proof cases
    case 1
    then show ?thesis using less.prems(1) by (subst read_loop.simps) simp
  next
    case 2
    have "cont = bytes" using less.prems(1) 2(1) by simp
    then show ?thesis using 2(2) assms(2) [of "min (maxSize - length bytes) kBufferSize"]
      by (subst read_loop.simps) (simp add: Let_def)
  next
    case 3
    have "0 < ?n" using 3(2) by (simp add: kBufferSize_def)
    then obtain k where k: "k > 0" "rd (length cont) ?n = ReadBytes k" using assms(1) [OF 3(1)] by blast
    let ?chunk = "take (min k ?n) (drop (length cont) bytes)"
    have chunk: "?chunk \<noteq> []" "length ?chunk \<le> maxSize - length cont" using 3 k(1) \<open>0 < ?n\<close> by simp_all
    have "take (length cont + min k ?n) bytes = cont @ ?chunk"
      using less.prems(1) by (simp only: take_add)
    then have "take (length (cont @ ?chunk)) bytes = cont @ ?chunk"
      by (metis append_eq_conv_conj append_take_drop_id)
    moreover have "maxSize - length (cont @ ?chunk) < maxSize - length cont" "length (cont @ ?chunk) \<le> maxSize"
      using chunk(2) chunk(1) [folded length_greater_0_conv] 3(2) unfolding length_append by linarith+
    ultimately have "read_loop rd bytes maxSize (cont @ ?chunk) err = (take maxSize bytes, err)"
      by (intro less.hyps)
    then show ?thesis using 3(2) k(2) chunk(1) by (subst read_loop.simps) (simp only: Let_def read_result.case if_True not_False_eq_True simp_thms)
  qed
qed

section \<open>Properties\<close>

text \<open>
  C24. A log loses nothing when it rolls: while \<^verbatim>\<open>fwrite\<close> makes progress, the contents of its files, oldest
  first, are exactly the lines that were appended, in order, whatever the clock does; and the files were opened at
  strictly increasing times, so no file is opened twice.
\<close>

theorem log_file_keeps_lines:
  assumes "fwrite_progress fw" "CHR ''/'' \<notin> set base" "now > 0"
  shows "\<exists>l l'. LogFile_new filename base rollsz interval now = Some l \<and> append_lines fw filename xs l = Some l' \<and>
     concat (map content (all_files l')) = concat (map fst xs) \<and>
     (\<exists>ts. map file_name (all_files l') = map filename ts \<and> sorted_wrt (<) ts)"
proof -
  obtain l where l: "LogFile_new filename base rollsz interval now = Some l" "current l \<noteq> None" "all_text l = []" "names_inv filename l"
    using LogFile_new_ok [OF assms(2,3)] by blast
  obtain l' where "append_lines fw filename xs l = Some l'" "all_text l' = all_text l @ concat (map fst xs)" "names_inv filename l'"
    using append_lines_ok [OF assms(1) l(2,4)] by blast
  then show ?thesis using l by (auto simp: all_text_def names_inv_def)
qed

theorem log_file_keeps_lines_witness:
  "\<exists>l l'. LogFile_new print_int ''srv'' 4 3 100 = Some l \<and>
     append_lines (\<lambda>f d. 1) print_int [(''hello'', 101, 101), (''world'', 102, 102)] l = Some l' \<and>
     concat (map content (all_files l')) = ''helloworld''"
proof -
  have "fwrite_progress (\<lambda>f d. 1)" by (simp add: fwrite_progress_def)
  from log_file_keeps_lines [OF this, of "''srv''" 100 print_int 4 3 "[(''hello'', 101, 101), (''world'', 102, 102)]"]
  show ?thesis by auto
qed

end
