(* ===== verification/Base_Sync.thy ===== *)
theory Base_Sync
  imports Muduo_Prelude
begin

text \<open>
  Mutexes and conditions (\<^verbatim>\<open>muduo/base/Mutex.h\<close>, \<^verbatim>\<open>Condition.h\<close>, \<^verbatim>\<open>Condition.cc\<close>) and the
  structures built on them: \<^verbatim>\<open>CountDownLatch.cc\<close>, \<^verbatim>\<open>BlockingQueue.h\<close>, \<^verbatim>\<open>BoundedBlockingQueue.h\<close>.
  A mutex is the pthread mutex (its owner) and the member \<^verbatim>\<open>holder_\<close>. In the other structures a section
  under the mutex is one step; a thread is then outside, blocked in a wait, or woken and about to take the
  mutex again. Threads that wait for the same thing are only counted.
\<close>

section \<open>Mutexes and conditions\<close>

record mutex =
  owner :: "int option"
  holder :: int
  waiting :: "int list"

definition MutexLock_new :: mutex where
  "MutexLock_new = \<lparr>owner = None, holder = 0, waiting = []\<rparr>"

definition MutexLock_delete :: "mutex \<Rightarrow> unit option" where
  "MutexLock_delete m = check (holder m = 0)"

definition isLockedByThisThread :: "int \<Rightarrow> mutex \<Rightarrow> bool" where
  "isLockedByThisThread tid m \<longleftrightarrow> holder m = tid"

definition assertLocked :: "int \<Rightarrow> mutex \<Rightarrow> unit option" where
  "assertLocked tid m = check (isLockedByThisThread tid m)"

text \<open>Locking waits for the owner to leave; the operations of a thread are enabled by these tests.\<close>

definition can_lock :: "mutex \<Rightarrow> bool" where
  "can_lock m \<longleftrightarrow> owner m = None"

definition lock :: "int \<Rightarrow> mutex \<Rightarrow> mutex" where
  "lock tid m = m\<lparr>owner := Some tid, holder := tid\<rparr>"

definition unlock :: "mutex \<Rightarrow> mutex" where
  "unlock m = m\<lparr>holder := 0, owner := None\<rparr>"

text \<open>
  \<^verbatim>\<open>pthread_cond_wait\<close> releases the pthread mutex and takes it again when it returns; \<^verbatim>\<open>holder_\<close> is not
  touched. \<^verbatim>\<open>notify\<close> ends the wait of one thread and \<^verbatim>\<open>notifyAll\<close> of all.
\<close>

definition cond_wait_begin :: "int \<Rightarrow> mutex \<Rightarrow> mutex" where
  "cond_wait_begin tid m = m\<lparr>owner := None, waiting := waiting m @ [tid]\<rparr>"

definition cond_wait_end :: "int \<Rightarrow> mutex \<Rightarrow> mutex" where
  "cond_wait_end tid m = m\<lparr>owner := Some tid\<rparr>"

definition notify :: "mutex \<Rightarrow> mutex" where
  "notify m = m\<lparr>waiting := drop 1 (waiting m)\<rparr>"

definition notifyAll :: "mutex \<Rightarrow> mutex" where
  "notifyAll m = m\<lparr>waiting := []\<rparr>"

text \<open>\<^verbatim>\<open>waitForSeconds\<close>: the deadline, and whether the result of the timed wait is a timeout.\<close>

definition ETIMEDOUT :: int where "ETIMEDOUT = 110"

definition waitForSeconds :: "int \<Rightarrow> int \<Rightarrow> (int \<Rightarrow> int) \<Rightarrow> bool" where
  "waitForSeconds now seconds timedwait = (ETIMEDOUT = timedwait (now + seconds))"

text \<open>
  After a wait, the mutex does not know its owner: thread \<open>a\<close> waits, thread \<open>b\<close> locks, notifies and
  unlocks, and when \<open>a\<close> has the mutex again its \<^verbatim>\<open>assertLocked\<close> fails.
\<close>

theorem holder_lost_after_wait:
  assumes "a \<noteq> 0"
  shows "let m = cond_wait_end a (unlock (notify (lock b (cond_wait_begin a (lock a MutexLock_new)))))
    in owner m = Some a \<and> a \<notin> set (waiting m) \<and> assertLocked a m = None"
  using assms
  by (simp add: Let_def MutexLock_new_def lock_def unlock_def notify_def cond_wait_begin_def cond_wait_end_def
      assertLocked_def isLockedByThisThread_def)

section \<open>Latches\<close>

record latch =
  count :: int
  latch_waiting :: nat
  latch_woken :: nat

definition CountDownLatch_new :: "int \<Rightarrow> latch" where
  "CountDownLatch_new n = \<lparr>count = n, latch_waiting = 0, latch_woken = 0\<rparr>"

definition latch_wait :: "latch \<Rightarrow> latch" where
  "latch_wait l = (if count l > 0 then l\<lparr>latch_waiting := latch_waiting l + 1\<rparr> else l)"

definition latch_countDown :: "latch \<Rightarrow> latch" where
  "latch_countDown l =
     (let l1 = l\<lparr>count := count l - 1\<rparr> in
      if count l1 = 0 then l1\<lparr>latch_woken := latch_woken l1 + latch_waiting l1, latch_waiting := 0\<rparr> else l1)"

definition latch_getCount :: "latch \<Rightarrow> int" where
  "latch_getCount l = count l"

text \<open>The operations: a thread calls \<^verbatim>\<open>wait\<close>, is woken and tests again, or counts down; waits may end spuriously.\<close>

datatype latch_op = LatchWait | LatchResume | LatchCountDown | LatchSpurious

fun latch_enabled :: "latch_op \<Rightarrow> latch \<Rightarrow> bool" where
  "latch_enabled LatchResume l \<longleftrightarrow> latch_woken l > 0"
| "latch_enabled LatchSpurious l \<longleftrightarrow> latch_waiting l > 0"
| "latch_enabled _ l \<longleftrightarrow> True"

fun latch_step :: "latch_op \<Rightarrow> latch \<Rightarrow> latch" where
  "latch_step LatchWait l = latch_wait l"
| "latch_step LatchResume l = latch_wait (l\<lparr>latch_woken := latch_woken l - 1\<rparr>)"
| "latch_step LatchCountDown l = latch_countDown l"
| "latch_step LatchSpurious l = l\<lparr>latch_waiting := latch_waiting l - 1, latch_woken := latch_woken l + 1\<rparr>"

inductive latch_reachable :: "int \<Rightarrow> latch \<Rightarrow> bool" for n where
  new: "latch_reachable n (CountDownLatch_new n)"
| step: "latch_reachable n l \<Longrightarrow> latch_enabled op l \<Longrightarrow> latch_reachable n (latch_step op l)"

lemma latch_nobody_stuck: "latch_reachable n l \<Longrightarrow> count l \<le> 0 \<Longrightarrow> latch_waiting l = 0"
proof (induction rule: latch_reachable.induct)
  case (step l op)
  then show ?case by (cases op) (auto simp: latch_wait_def latch_countDown_def Let_def split: if_splits)
qed (simp add: CountDownLatch_new_def)

section \<open>Queues\<close>

text \<open>
  A bounded queue. \<open>putters\<close> are the items of the threads blocked in \<^verbatim>\<open>put\<close>, \<open>woken_putters\<close> of those woken;
  the threads blocked in and woken from \<^verbatim>\<open>take\<close> are counted. Two logs record what was put and taken.
\<close>

record 'a bqueue =
  items :: "'a list"
  capacity :: nat
  putters :: "'a list"
  woken_putters :: "'a list"
  takers :: nat
  woken_takers :: nat
  put_log :: "'a list"
  take_log :: "'a list"

definition BoundedBlockingQueue_new :: "nat \<Rightarrow> 'a bqueue" where
  "BoundedBlockingQueue_new maxSize = \<lparr>items = [], capacity = maxSize, putters = [], woken_putters = [], takers = 0,
     woken_takers = 0, put_log = [], take_log = []\<rparr>"

definition notify_not_empty :: "'a bqueue \<Rightarrow> 'a bqueue" where
  "notify_not_empty q = (if takers q > 0 then q\<lparr>takers := takers q - 1, woken_takers := woken_takers q + 1\<rparr> else q)"

text \<open>The thread that \<^verbatim>\<open>notify\<close> chooses is the \<open>i\<close>-th.\<close>

definition notify_not_full :: "nat \<Rightarrow> 'a bqueue \<Rightarrow> 'a bqueue" where
  "notify_not_full i q =
     (if putters q \<noteq> []
      then let j = i mod length (putters q) in
        q\<lparr>putters := take j (putters q) @ drop (Suc j) (putters q), woken_putters := woken_putters q @ [putters q ! j]\<rparr>
      else q)"

definition bounded_put :: "'a \<Rightarrow> 'a bqueue \<Rightarrow> 'a bqueue" where
  "bounded_put x q =
     (if length (items q) = capacity q
      then q\<lparr>putters := putters q @ [x]\<rparr>
      else notify_not_empty (q\<lparr>items := items q @ [x], put_log := put_log q @ [x]\<rparr>))"

definition bounded_take :: "nat \<Rightarrow> 'a bqueue \<Rightarrow> 'a bqueue" where
  "bounded_take i q =
     (case items q of
        [] \<Rightarrow> q\<lparr>takers := takers q + 1\<rparr>
      | front # rest \<Rightarrow> notify_not_full i (q\<lparr>items := rest, take_log := take_log q @ [front]\<rparr>))"

datatype 'a queue_op = Put 'a | ResumePut | Take nat | ResumeTake nat | SpuriousPut nat | SpuriousTake

fun bounded_enabled :: "'a queue_op \<Rightarrow> 'a bqueue \<Rightarrow> bool" where
  "bounded_enabled ResumePut q \<longleftrightarrow> woken_putters q \<noteq> []"
| "bounded_enabled (ResumeTake i) q \<longleftrightarrow> woken_takers q > 0"
| "bounded_enabled SpuriousTake q \<longleftrightarrow> takers q > 0"
| "bounded_enabled _ q \<longleftrightarrow> True"

fun bounded_step :: "'a queue_op \<Rightarrow> 'a bqueue \<Rightarrow> 'a bqueue" where
  "bounded_step (Put x) q = bounded_put x q"
| "bounded_step ResumePut q = bounded_put (hd (woken_putters q)) (q\<lparr>woken_putters := tl (woken_putters q)\<rparr>)"
| "bounded_step (Take i) q = bounded_take i q"
| "bounded_step (ResumeTake i) q = bounded_take i (q\<lparr>woken_takers := woken_takers q - 1\<rparr>)"
| "bounded_step (SpuriousPut i) q = notify_not_full i q"
| "bounded_step SpuriousTake q = notify_not_empty q"

text \<open>The unbounded queue has the same \<^verbatim>\<open>take\<close>, without the second condition, and a \<^verbatim>\<open>put\<close> that never waits.\<close>

definition BlockingQueue_new :: "'a bqueue" where
  "BlockingQueue_new = BoundedBlockingQueue_new 0"

definition blocking_put :: "'a \<Rightarrow> 'a bqueue \<Rightarrow> 'a bqueue" where
  "blocking_put x q = notify_not_empty (q\<lparr>items := items q @ [x], put_log := put_log q @ [x]\<rparr>)"

definition blocking_take :: "'a bqueue \<Rightarrow> 'a bqueue" where
  "blocking_take q =
     (case items q of
        [] \<Rightarrow> q\<lparr>takers := takers q + 1\<rparr>
      | front # rest \<Rightarrow> q\<lparr>items := rest, take_log := take_log q @ [front]\<rparr>)"

fun blocking_step :: "'a queue_op \<Rightarrow> 'a bqueue \<Rightarrow> 'a bqueue" where
  "blocking_step (Put x) q = blocking_put x q"
| "blocking_step ResumePut q = q"
| "blocking_step (Take i) q = blocking_take q"
| "blocking_step (ResumeTake i) q = blocking_take (q\<lparr>woken_takers := woken_takers q - 1\<rparr>)"
| "blocking_step (SpuriousPut i) q = q"
| "blocking_step SpuriousTake q = notify_not_empty q"

definition queue_size :: "'a bqueue \<Rightarrow> nat" where
  "queue_size q = length (items q)"

definition queue_empty :: "'a bqueue \<Rightarrow> bool" where
  "queue_empty q \<longleftrightarrow> items q = []"

definition queue_full :: "'a bqueue \<Rightarrow> bool" where
  "queue_full q \<longleftrightarrow> length (items q) = capacity q"

section \<open>The contract of a queue\<close>

text \<open>What was put is what was taken, followed by what is in the queue; a taker is blocked only if every item has a woken one.\<close>

definition queue_inv :: "'a bqueue \<Rightarrow> bool" where
  "queue_inv q \<longleftrightarrow> put_log q = take_log q @ items q \<and> (takers q > 0 \<longrightarrow> length (items q) \<le> woken_takers q)"

inductive queue_runs :: "('a queue_op \<Rightarrow> 'a bqueue \<Rightarrow> 'a bqueue) \<Rightarrow> 'a bqueue \<Rightarrow> 'a bqueue \<Rightarrow> bool" for step init where
  first: "queue_runs step init init"
| more: "queue_runs step init q \<Longrightarrow> bounded_enabled op q \<Longrightarrow> queue_runs step init (step op q)"

locale fifo_monitor =
  fixes step :: "'a queue_op \<Rightarrow> 'a bqueue \<Rightarrow> 'a bqueue" and init :: "'a bqueue"
  assumes init_inv: "queue_inv init"
    and step_inv: "bounded_enabled op q \<Longrightarrow> queue_inv q \<Longrightarrow> queue_inv (step op q)"
begin

lemma runs_inv: "queue_runs step init q \<Longrightarrow> queue_inv q"
  by (induction rule: queue_runs.induct) (auto intro: init_inv step_inv)

lemma first_in_first_out: "queue_runs step init q \<Longrightarrow> prefix (take_log q) (put_log q)"
  using runs_inv by (auto simp: queue_inv_def)

lemma waiter_is_woken: "queue_runs step init q \<Longrightarrow> takers q > 0 \<Longrightarrow> items q \<noteq> [] \<Longrightarrow> woken_takers q > 0"
  using runs_inv [of q] by (cases "items q") (auto simp: queue_inv_def)

end

lemma notify_not_full_simps [simp]:
  "items (notify_not_full i q) = items q" "takers (notify_not_full i q) = takers q"
  "woken_takers (notify_not_full i q) = woken_takers q" "put_log (notify_not_full i q) = put_log q"
  "take_log (notify_not_full i q) = take_log q" "capacity (notify_not_full i q) = capacity q"
  by (simp_all add: notify_not_full_def Let_def)

lemma bounded_step_inv: "bounded_enabled op q \<Longrightarrow> queue_inv q \<Longrightarrow> queue_inv (bounded_step op q)"
  by (cases op) (auto simp: queue_inv_def bounded_put_def bounded_take_def notify_not_empty_def split: list.splits)

lemma blocking_step_inv: "bounded_enabled op q \<Longrightarrow> queue_inv q \<Longrightarrow> queue_inv (blocking_step op q)"
  by (cases op) (auto simp: queue_inv_def blocking_put_def blocking_take_def notify_not_empty_def split: list.splits)

lemma new_queue_inv: "queue_inv (BoundedBlockingQueue_new n)" "queue_inv BlockingQueue_new"
  by (simp_all add: queue_inv_def BoundedBlockingQueue_new_def BlockingQueue_new_def)

interpretation bounded: fifo_monitor bounded_step "BoundedBlockingQueue_new n" for n
  by unfold_locales (rule new_queue_inv, rule bounded_step_inv)

interpretation blocking: fifo_monitor blocking_step BlockingQueue_new
  by unfold_locales (rule new_queue_inv, rule blocking_step_inv)

text \<open>The bounded queue never exceeds its capacity, and a putter is blocked only if every free place has a woken one.\<close>

definition bound_inv :: "'a bqueue \<Rightarrow> bool" where
  "bound_inv q \<longleftrightarrow> length (items q) \<le> capacity q \<and>
     (putters q \<noteq> [] \<longrightarrow> capacity q \<le> length (items q) + length (woken_putters q))"

lemma notify_not_empty_simps [simp]:
  "items (notify_not_empty q) = items q" "capacity (notify_not_empty q) = capacity q"
  "putters (notify_not_empty q) = putters q" "woken_putters (notify_not_empty q) = woken_putters q"
  by (simp_all add: notify_not_empty_def)

lemma bound_step: "bounded_enabled op q \<Longrightarrow> bound_inv q \<Longrightarrow> bound_inv (bounded_step op q)"
  by (cases op)
    (auto simp: bound_inv_def bounded_put_def bounded_take_def notify_not_full_def Let_def neq_Nil_conv split: list.splits)

lemma bounded_runs:
  "queue_runs bounded_step (BoundedBlockingQueue_new n) q \<Longrightarrow> bound_inv q \<and> capacity q = n"
proof (induction rule: queue_runs.induct)
  case first
  then show ?case by (simp add: bound_inv_def BoundedBlockingQueue_new_def)
next
  case (more q op)
  have "capacity (bounded_step op q) = capacity q"
    by (cases op) (auto simp: bounded_put_def bounded_take_def notify_not_empty_def split: list.splits)
  then show ?case using bound_step more by auto
qed

section \<open>Properties\<close>

text \<open>
  C21. The bounded queue is a bounded first-in-first-out queue without lost wakeups, for any number of
  producers and consumers in any interleaving and with spurious wakeups: it never holds more than its capacity, items leave
  in the order they entered, and while an item (or a free place) is there, the consumers (or producers) are not all asleep.
\<close>

theorem bounded_queue_correct:
  assumes "queue_runs bounded_step (BoundedBlockingQueue_new n) q"
  shows "length (items q) \<le> n \<and> put_log q = take_log q @ items q \<and>
    (takers q = 0 \<or> items q = [] \<or> woken_takers q > 0) \<and> (putters q = [] \<or> length (items q) = n \<or> woken_putters q \<noteq> [])"
proof -
  have "bound_inv q" "capacity q = n" using bounded_runs [OF assms] by auto
  moreover have "queue_inv q" by (rule bounded.runs_inv [OF assms])
  moreover have "takers q > 0 \<Longrightarrow> items q \<noteq> [] \<Longrightarrow> woken_takers q > 0" by (rule bounded.waiter_is_woken [OF assms])
  ultimately show ?thesis by (auto simp: bound_inv_def queue_inv_def)
qed

theorem bounded_queue_correct_witness:
  "length (items (bounded_step (Put (3 :: nat)) (BoundedBlockingQueue_new 1))) \<le> 1"
proof -
  have "queue_runs bounded_step (BoundedBlockingQueue_new 1) (bounded_step (Put (3 :: nat)) (BoundedBlockingQueue_new 1))"
    by (rule queue_runs.more [OF queue_runs.first]) simp
  then show ?thesis using bounded_queue_correct by blast
qed

end
