(* ===== verification/Base_Thread.thy ===== *)
theory Base_Thread
  imports Muduo_Prelude
begin

text \<open>
  Atomic integers (\<^verbatim>\<open>muduo/base/Atomic.h\<close>), threads (\<^verbatim>\<open>Thread.h\<close>, \<^verbatim>\<open>Thread.cc\<close>) and the thread
  pool (\<^verbatim>\<open>ThreadPool.h\<close>, \<^verbatim>\<open>ThreadPool.cc\<close>). The pool's workers are counted by where they are in
  \<^verbatim>\<open>runInThread\<close>; a section under the mutex is one step.
\<close>

section \<open>Atomic integers\<close>

text \<open>Each operation is one atomic instruction on the value; it returns a result and the new value.\<close>

definition atomic_new :: "'a::len word" where
  "atomic_new = 0"

definition atomic_get :: "'a::len word \<Rightarrow> 'a word \<times> 'a word" where
  "atomic_get v = (v, if v = 0 then 0 else v)"

definition getAndAdd :: "'a::len word \<Rightarrow> 'a word \<Rightarrow> 'a word \<times> 'a word" where
  "getAndAdd x v = (v, v + x)"

definition addAndGet :: "'a::len word \<Rightarrow> 'a word \<Rightarrow> 'a word \<times> 'a word" where
  "addAndGet x v = (let (old, v1) = getAndAdd x v in (old + x, v1))"

definition incrementAndGet :: "'a::len word \<Rightarrow> 'a word \<times> 'a word" where
  "incrementAndGet v = addAndGet 1 v"

definition decrementAndGet :: "'a::len word \<Rightarrow> 'a word \<times> 'a word" where
  "decrementAndGet v = addAndGet (- 1) v"

definition atomic_add :: "'a::len word \<Rightarrow> 'a word \<Rightarrow> 'a word" where
  "atomic_add x v = snd (getAndAdd x v)"

definition atomic_increment :: "'a::len word \<Rightarrow> 'a word" where
  "atomic_increment v = snd (incrementAndGet v)"

definition atomic_decrement :: "'a::len word \<Rightarrow> 'a word" where
  "atomic_decrement v = snd (decrementAndGet v)"

definition getAndSet :: "'a::len word \<Rightarrow> 'a word \<Rightarrow> 'a word \<times> 'a word" where
  "getAndSet newValue v = (v, newValue)"

text \<open>The value returned is the value stored, also when it wraps around.\<close>

lemma addAndGet_stored: "fst (addAndGet x v) = snd (addAndGet x v)"
  by (simp add: addAndGet_def getAndAdd_def)

lemma decrement_increment: "atomic_decrement (atomic_increment v) = v"
  by (simp add: atomic_decrement_def atomic_increment_def decrementAndGet_def incrementAndGet_def addAndGet_def getAndAdd_def)

section \<open>Threads\<close>

record thread_object =
  thread_started :: bool
  thread_tid :: int
  thread_name :: string

text \<open>The constructor also counts the threads ever created.\<close>

definition Thread_new :: "string \<Rightarrow> 32 word \<Rightarrow> thread_object \<times> 32 word" where
  "Thread_new n numCreated = (\<lparr>thread_started = False, thread_tid = 0, thread_name = n\<rparr>, atomic_increment numCreated)"

definition Thread_start :: "thread_object \<Rightarrow> thread_object option" where
  "Thread_start t = do { check (\<not> thread_started t); Some (t\<lparr>thread_started := True\<rparr>) }"

definition Thread_join :: "int \<Rightarrow> thread_object \<Rightarrow> int option" where
  "Thread_join pthread_join t = do { check (thread_started t); Some pthread_join }"

text \<open>How the thread's function ends, and what \<^verbatim>\<open>runInThread\<close> makes of it: the thread's name and the fate of the process.\<close>

datatype func_end = Normal | ThrowsException | ThrowsStd | ThrowsOther
datatype fate = Continues | Aborts | Rethrows

definition runInThread :: "int \<Rightarrow> func_end \<Rightarrow> thread_object \<Rightarrow> thread_object \<times> string \<times> fate" where
  "runInThread tid func t =
     (let t1 = t\<lparr>thread_tid := tid\<rparr> in
      case func of
        Normal \<Rightarrow> (t1, ''finished'', Continues)
      | ThrowsException \<Rightarrow> (t1, ''crashed'', Aborts)
      | ThrowsStd \<Rightarrow> (t1, ''crashed'', Aborts)
      | ThrowsOther \<Rightarrow> (t1, ''crashed'', Rethrows))"

section \<open>The thread pool\<close>

text \<open>
  The workers: about to test \<^verbatim>\<open>running_\<close>, about to lock the mutex in \<^verbatim>\<open>take\<close>, blocked in the wait, woken from
  it, running a task, or gone. \<open>submitted\<close> and \<open>begun\<close> record the tasks given to the pool and those begun.
\<close>

record 'a thread_pool =
  tasks :: "'a list"
  running :: bool
  threads :: nat
  testing :: nat
  entering :: nat
  pool_waiting :: nat
  pool_woken :: nat
  busy :: "'a list"
  gone :: nat
  submitted :: "'a list"
  begun :: "'a list"

definition ThreadPool_new :: "'a thread_pool" where
  "ThreadPool_new = \<lparr>tasks = [], running = False, threads = 0, testing = 0, entering = 0, pool_waiting = 0, pool_woken = 0,
     busy = [], gone = 0, submitted = [], begun = []\<rparr>"

definition ThreadPool_start :: "nat \<Rightarrow> 'a thread_pool \<Rightarrow> 'a thread_pool option" where
  "ThreadPool_start n p = do { check (threads p = 0); Some (p\<lparr>running := True, threads := n, testing := n\<rparr>) }"

text \<open>The first section of \<^verbatim>\<open>stop\<close>; the joins that follow wait for all workers to be gone.\<close>

definition ThreadPool_stop :: "'a thread_pool \<Rightarrow> 'a thread_pool" where
  "ThreadPool_stop p = p\<lparr>running := False, pool_woken := pool_woken p + pool_waiting p, pool_waiting := 0\<rparr>"

definition stop_returns :: "'a thread_pool \<Rightarrow> bool" where
  "stop_returns p \<longleftrightarrow> gone p = threads p"

definition ThreadPool_run :: "'a \<Rightarrow> 'a thread_pool \<Rightarrow> 'a thread_pool" where
  "ThreadPool_run t p =
     (if threads p = 0
      then p\<lparr>submitted := submitted p @ [t], begun := begun p @ [t]\<rparr>
      else let p1 = p\<lparr>tasks := tasks p @ [t], submitted := submitted p @ [t]\<rparr> in
           if pool_waiting p1 > 0 then p1\<lparr>pool_waiting := pool_waiting p1 - 1, pool_woken := pool_woken p1 + 1\<rparr> else p1)"

text \<open>The section of \<^verbatim>\<open>take\<close> under the mutex, and the use of its result in \<^verbatim>\<open>runInThread\<close>.\<close>

definition ThreadPool_take :: "'a thread_pool \<Rightarrow> 'a thread_pool" where
  "ThreadPool_take p =
     (if tasks p = [] \<and> running p
      then p\<lparr>pool_waiting := pool_waiting p + 1\<rparr>
      else case tasks p of
             [] \<Rightarrow> p\<lparr>testing := testing p + 1\<rparr>
           | t # ts \<Rightarrow> p\<lparr>tasks := ts, busy := busy p @ [t], begun := begun p @ [t]\<rparr>)"

datatype 'a pool_op = Run 'a | Stop | WorkerTest | WorkerTake | WorkerResume | WorkerDone nat | WorkerSpurious

fun pool_enabled :: "'a pool_op \<Rightarrow> 'a thread_pool \<Rightarrow> bool" where
  "pool_enabled (Run t) p \<longleftrightarrow> True"
| "pool_enabled Stop p \<longleftrightarrow> True"
| "pool_enabled WorkerTest p \<longleftrightarrow> testing p > 0"
| "pool_enabled WorkerTake p \<longleftrightarrow> entering p > 0"
| "pool_enabled WorkerResume p \<longleftrightarrow> pool_woken p > 0"
| "pool_enabled (WorkerDone i) p \<longleftrightarrow> i < length (busy p)"
| "pool_enabled WorkerSpurious p \<longleftrightarrow> pool_waiting p > 0"

fun pool_step :: "'a pool_op \<Rightarrow> 'a thread_pool \<Rightarrow> 'a thread_pool" where
  "pool_step (Run t) p = ThreadPool_run t p"
| "pool_step Stop p = ThreadPool_stop p"
| "pool_step WorkerTest p =
     (let p1 = p\<lparr>testing := testing p - 1\<rparr> in
      if running p then p1\<lparr>entering := entering p1 + 1\<rparr> else p1\<lparr>gone := gone p1 + 1\<rparr>)"
| "pool_step WorkerTake p = ThreadPool_take (p\<lparr>entering := entering p - 1\<rparr>)"
| "pool_step WorkerResume p = ThreadPool_take (p\<lparr>pool_woken := pool_woken p - 1\<rparr>)"
| "pool_step (WorkerDone i) p = p\<lparr>busy := take i (busy p) @ drop (Suc i) (busy p), testing := testing p + 1\<rparr>"
| "pool_step WorkerSpurious p = p\<lparr>pool_waiting := pool_waiting p - 1, pool_woken := pool_woken p + 1\<rparr>"

inductive pool_reachable :: "nat \<Rightarrow> 'a thread_pool \<Rightarrow> bool" for n where
  start: "ThreadPool_start n ThreadPool_new = Some p \<Longrightarrow> pool_reachable n p"
| step: "pool_reachable n p \<Longrightarrow> pool_enabled op p \<Longrightarrow> pool_reachable n (pool_step op p)"

definition pool_inv :: "nat \<Rightarrow> 'a thread_pool \<Rightarrow> bool" where
  "pool_inv n p \<longleftrightarrow> threads p = n \<and> submitted p = begun p @ tasks p \<and> (n = 0 \<longrightarrow> tasks p = []) \<and>
     testing p + entering p + pool_waiting p + pool_woken p + length (busy p) + gone p = n \<and>
     (pool_waiting p > 0 \<longrightarrow> running p \<and> length (tasks p) \<le> pool_woken p)"

lemma pool_inv_step: "pool_enabled op p \<Longrightarrow> pool_inv n p \<Longrightarrow> pool_inv n (pool_step op p)"
proof (cases op)
  case (WorkerDone i)
  then show "pool_enabled op p \<Longrightarrow> pool_inv n p \<Longrightarrow> pool_inv n (pool_step op p)" by (auto simp: pool_inv_def)
qed (auto simp: pool_inv_def ThreadPool_run_def ThreadPool_stop_def ThreadPool_take_def Let_def split: list.splits if_splits)

lemma pool_reachable_inv: "pool_reachable n p \<Longrightarrow> pool_inv n p"
proof (induction rule: pool_reachable.induct)
  case (start p)
  then show ?case by (auto simp: ThreadPool_start_def ThreadPool_new_def pool_inv_def)
qed (rule pool_inv_step)

text \<open>How far a stopped pool is from the end of its workers.\<close>

definition stop_rank :: "'a thread_pool \<Rightarrow> nat" where
  "stop_rank p = 4 * length (tasks p) + 3 * (entering p + pool_woken p + length (busy p)) + testing p"

fun worker_op :: "'a pool_op \<Rightarrow> bool" where
  "worker_op (Run t) = False"
| "worker_op Stop = False"
| "worker_op _ = True"

lemma stop_rank_step:
  "\<not> running p \<Longrightarrow> pool_waiting p = 0 \<Longrightarrow> worker_op op \<Longrightarrow> pool_enabled op p \<Longrightarrow> stop_rank (pool_step op p) < stop_rank p"
  by (cases op) (auto simp: stop_rank_def ThreadPool_take_def Let_def split: list.splits)

section \<open>Properties\<close>

text \<open>
  C22. The pool begins the tasks in the order they were submitted, each once; it wakes workers while
  there are tasks; and once it was stopped no worker is asleep: until all workers are gone, which is what
  \<^verbatim>\<open>stop\<close> waits for, some worker can take a step, and every such step brings the end nearer.
\<close>

theorem thread_pool_correct:
  assumes "pool_reachable n p"
  shows "submitted p = begun p @ tasks p \<and> (pool_waiting p = 0 \<or> tasks p = [] \<or> pool_woken p > 0) \<and>
    (running p \<or> stop_returns p \<or> pool_waiting p = 0 \<and>
      (pool_enabled WorkerTest p \<or> pool_enabled WorkerTake p \<or> pool_enabled WorkerResume p \<or> pool_enabled (WorkerDone 0) p) \<and>
      (\<forall>op. worker_op op \<and> pool_enabled op p \<longrightarrow> stop_rank (pool_step op p) < stop_rank p))"
proof -
  have "pool_inv n p" using assms by (rule pool_reachable_inv)
  then show ?thesis using stop_rank_step [of p] by (cases "tasks p") (auto simp: pool_inv_def stop_returns_def)
qed

theorem thread_pool_correct_witness:
  "\<exists>p :: nat thread_pool. pool_reachable 2 p \<and> submitted p = begun p @ tasks p \<and> tasks p = [5]"
proof -
  let ?p = "ThreadPool_new\<lparr>running := True, threads := 2, testing := 2\<rparr> :: nat thread_pool"
  have "pool_reachable 2 (pool_step (Run 5) ?p)"
    by (rule pool_reachable.step [OF pool_reachable.start]) (simp_all add: ThreadPool_start_def ThreadPool_new_def)
  moreover have "tasks (pool_step (Run 5) ?p) = [5]" by (simp add: ThreadPool_run_def ThreadPool_new_def Let_def)
  ultimately show ?thesis using thread_pool_correct by blast
qed

end
