(* ===== verification/Base_StringPiece.thy ===== *)
theory Base_StringPiece
  imports Muduo_Prelude
begin

text \<open>
  String pieces (\<^verbatim>\<open>muduo/base/StringPiece.h\<close>): a pointer and a length, here the characters they span. The
  comparison operators are built on \<^verbatim>\<open>memcmp\<close>, which compares bytes as unsigned numbers; they make pieces a
  linear order, the lexicographic one.
\<close>

datatype string_piece = Piece (chars: string)

definition StringPiece_empty :: string_piece where
  "StringPiece_empty = Piece []"

text \<open>From a C string: up to its terminating zero.\<close>

definition StringPiece_cstr :: "string \<Rightarrow> string_piece" where
  "StringPiece_cstr str = Piece (takeWhile (\<lambda>c. c \<noteq> CHR 0x00) str)"

definition StringPiece_len :: "string \<Rightarrow> nat \<Rightarrow> string_piece" where
  "StringPiece_len offset len = Piece (take len offset)"

definition piece_size :: "string_piece \<Rightarrow> nat" where
  "piece_size p = length (chars p)"

definition piece_empty :: "string_piece \<Rightarrow> bool" where
  "piece_empty p \<longleftrightarrow> piece_size p = 0"

definition piece_clear :: "string_piece \<Rightarrow> string_piece" where
  "piece_clear p = Piece []"

definition piece_at :: "string_piece \<Rightarrow> nat \<Rightarrow> char option" where
  "piece_at p i = (if i < piece_size p then Some (chars p ! i) else None)"

text \<open>Removing more than there is leaves a negative length.\<close>

definition remove_prefix :: "nat \<Rightarrow> string_piece \<Rightarrow> string_piece option" where
  "remove_prefix n p = (if n \<le> piece_size p then Some (Piece (drop n (chars p))) else None)"

definition remove_suffix :: "nat \<Rightarrow> string_piece \<Rightarrow> string_piece option" where
  "remove_suffix n p = (if n \<le> piece_size p then Some (Piece (take (piece_size p - n) (chars p))) else None)"

text \<open>\<^verbatim>\<open>memcmp\<close> of two blocks of the same length.\<close>

fun memcmp :: "string \<Rightarrow> string \<Rightarrow> int" where
  "memcmp (a # as) (b # bs) = (if a = b then memcmp as bs else of_char a - of_char b)"
| "memcmp _ _ = 0"

definition piece_cmp :: "string_piece \<Rightarrow> string_piece \<Rightarrow> int" where
  "piece_cmp p x = (let m = (if piece_size p < piece_size x then piece_size p else piece_size x)
     in memcmp (take m (chars p)) (take m (chars x)))"

definition piece_eq :: "string_piece \<Rightarrow> string_piece \<Rightarrow> bool" where
  "piece_eq p x \<longleftrightarrow> piece_size p = piece_size x \<and> memcmp (chars p) (chars x) = 0"

definition piece_less :: "string_piece \<Rightarrow> string_piece \<Rightarrow> bool" where
  "piece_less p x \<longleftrightarrow> piece_cmp p x < 0 \<or> piece_cmp p x = 0 \<and> piece_size p < piece_size x"

definition piece_le :: "string_piece \<Rightarrow> string_piece \<Rightarrow> bool" where
  "piece_le p x \<longleftrightarrow> piece_cmp p x < 0 \<or> piece_cmp p x = 0 \<and> piece_size p \<le> piece_size x"

definition piece_ge :: "string_piece \<Rightarrow> string_piece \<Rightarrow> bool" where
  "piece_ge p x \<longleftrightarrow> piece_cmp p x > 0 \<or> piece_cmp p x = 0 \<and> piece_size p \<ge> piece_size x"

definition piece_greater :: "string_piece \<Rightarrow> string_piece \<Rightarrow> bool" where
  "piece_greater p x \<longleftrightarrow> piece_cmp p x > 0 \<or> piece_cmp p x = 0 \<and> piece_size p > piece_size x"

definition piece_compare :: "string_piece \<Rightarrow> string_piece \<Rightarrow> int" where
  "piece_compare p x =
     (let r = piece_cmp p x in
      if r = 0 then if piece_size p < piece_size x then -1 else if piece_size p > piece_size x then 1 else r
      else r)"

definition as_string :: "string_piece \<Rightarrow> string" where
  "as_string p = take (piece_size p) (chars p)"

definition starts_with :: "string_piece \<Rightarrow> string_piece \<Rightarrow> bool" where
  "starts_with p x \<longleftrightarrow> piece_size p \<ge> piece_size x \<and> memcmp (take (piece_size x) (chars p)) (chars x) = 0"

section \<open>The lexicographic order\<close>

abbreviation byte_less :: "(char \<times> char) set" where
  "byte_less \<equiv> {(a, b). (of_char a :: int) < of_char b}"

lemma of_char_int_eq: "(of_char a :: int) = of_char b \<longleftrightarrow> a = b"
  by (rule of_char_eq_iff)

lemma memcmp_eq: "length s = length t \<Longrightarrow> memcmp s t = 0 \<longleftrightarrow> s = t"
  by (induction s t rule: memcmp.induct) (auto simp: of_char_int_eq)

lemma piece_cmp_Cons:
  "piece_cmp (Piece (a # s)) (Piece (b # t)) = (if a = b then piece_cmp (Piece s) (Piece t) else of_char a - of_char b)"
  by (simp add: piece_cmp_def piece_size_def Let_def)

lemma piece_less_lexord: "piece_less (Piece s) (Piece t) \<longleftrightarrow> (s, t) \<in> lexord byte_less"
proof (induction s arbitrary: t)
  case Nil
  show ?case by (cases t) (simp_all add: piece_less_def piece_cmp_def piece_size_def)
next
  case (Cons a s)
  show ?case
  proof (cases t)
    case Nil
    then show ?thesis by (simp add: piece_less_def piece_cmp_def piece_size_def)
  next
    case (Cons b u)
    then show ?thesis
      using Cons.IH [of u] of_char_int_eq [of a b]
      by (auto simp: piece_less_def piece_cmp_Cons piece_size_def)
  qed
qed

lemma piece_less_chars: "piece_less p x \<longleftrightarrow> (chars p, chars x) \<in> lexord byte_less"
  using piece_less_lexord [of "chars p" "chars x"] by simp

lemma byte_less_linear: "(a, b) \<in> byte_less \<or> a = b \<or> (b, a) \<in> byte_less"
  using of_char_int_eq [of a b] by auto

lemma piece_less_linear: "piece_less p x \<or> p = x \<or> piece_less x p"
  using lexord_linear [of byte_less "chars p" "chars x"] byte_less_linear
  by (auto simp: piece_less_chars string_piece.expand)

lemma piece_less_trans: "piece_less p q \<Longrightarrow> piece_less q x \<Longrightarrow> piece_less p x"
  unfolding piece_less_chars by (erule (1) lexord_trans) (auto simp: trans_def)

lemma piece_less_irrefl: "\<not> piece_less p p"
  unfolding piece_less_chars by (rule lexord_irreflexive) simp

lemma piece_cmp_swap: "piece_cmp x p = - piece_cmp p x"
proof -
  have swap: "memcmp t s = - memcmp s t" for s t
    by (induction s t rule: memcmp.induct) auto
  have "(if piece_size x < piece_size p then piece_size x else piece_size p) =
      (if piece_size p < piece_size x then piece_size p else piece_size x)" by simp
  then show ?thesis unfolding piece_cmp_def Let_def by (simp only:) (rule swap)
qed

lemma piece_le_iff: "piece_le p x \<longleftrightarrow> piece_less p x \<or> p = x"
proof -
  have "p = x" if "piece_cmp p x = 0" "piece_size p = piece_size x"
    using that by (cases p; cases x) (simp add: piece_cmp_def piece_size_def memcmp_eq)
  moreover have "piece_cmp p p = 0" by (simp add: piece_cmp_def Let_def memcmp_eq)
  ultimately show ?thesis by (auto simp: piece_le_def piece_less_def le_less)
qed

instantiation string_piece :: linorder
begin

definition less_eq_string_piece :: "string_piece \<Rightarrow> string_piece \<Rightarrow> bool" where
  "less_eq_string_piece = piece_le"

definition less_string_piece :: "string_piece \<Rightarrow> string_piece \<Rightarrow> bool" where
  "less_string_piece = piece_less"

instance
proof
  fix x y z :: string_piece
  show "x < y \<longleftrightarrow> x \<le> y \<and> \<not> y \<le> x"
    using piece_less_trans [of x y x] piece_less_irrefl [of x]
    by (auto simp: less_eq_string_piece_def less_string_piece_def piece_le_iff)
  show "x \<le> x" by (simp add: less_eq_string_piece_def piece_le_iff)
  show "x \<le> y \<Longrightarrow> y \<le> z \<Longrightarrow> x \<le> z"
    using piece_less_trans by (auto simp: less_eq_string_piece_def piece_le_iff)
  show "x \<le> y \<Longrightarrow> y \<le> x \<Longrightarrow> x = y"
    using piece_less_trans [of x y x] piece_less_irrefl [of x] by (auto simp: less_eq_string_piece_def piece_le_iff)
  show "x \<le> y \<or> y \<le> x"
    using piece_less_linear [of x y] by (auto simp: less_eq_string_piece_def piece_le_iff)
qed

end

text \<open>The other operators agree with the order, and \<^verbatim>\<open>compare\<close> with the operators.\<close>

lemma piece_ge_iff: "piece_ge p x \<longleftrightarrow> x \<le> p"
  by (simp add: piece_ge_def less_eq_string_piece_def piece_le_def piece_cmp_swap [of x p])

lemma piece_greater_iff: "piece_greater p x \<longleftrightarrow> x < p"
  by (simp add: piece_greater_def less_string_piece_def piece_less_def piece_cmp_swap [of x p])

lemma piece_eq_iff: "piece_eq p x \<longleftrightarrow> p = x"
  by (cases p; cases x) (auto simp: piece_eq_def piece_size_def memcmp_eq)

lemma starts_with_prefix: "starts_with p x \<longleftrightarrow> prefix (chars x) (chars p)"
proof -
  have "length (chars x) \<le> length (chars p) \<Longrightarrow> memcmp (take (length (chars x)) (chars p)) (chars x) = 0 \<longleftrightarrow>
      take (length (chars x)) (chars p) = chars x"
    by (rule memcmp_eq) simp
  moreover have "take (length (chars x)) (chars p) = chars x \<Longrightarrow> prefix (chars x) (chars p)"
    using take_is_prefix [of "length (chars x)" "chars p"] by simp
  ultimately show ?thesis by (auto simp: starts_with_def piece_size_def elim: prefixE)
qed

text \<open>
  The comparison operators of string pieces are one linear order, the lexicographic order of the bytes as unsigned
  numbers: all five operators and \<^verbatim>\<open>compare\<close> agree with it, and \<^verbatim>\<open>starts_with\<close> is the prefix relation.
\<close>

theorem StringPiece_order:
  "(piece_less p x \<longleftrightarrow> (chars p, chars x) \<in> lexord byte_less) \<and> (piece_le p x \<longleftrightarrow> \<not> piece_less x p) \<and>
   (piece_greater p x \<longleftrightarrow> piece_less x p) \<and> (piece_ge p x \<longleftrightarrow> piece_le x p) \<and> (piece_eq p x \<longleftrightarrow> p = x) \<and>
   (piece_compare p x < 0 \<longleftrightarrow> piece_less p x) \<and> (piece_compare p x = 0 \<longleftrightarrow> p = x) \<and>
   (starts_with p x \<longleftrightarrow> prefix (chars x) (chars p))"
proof -
  have "piece_le p x \<longleftrightarrow> \<not> piece_less x p"
    using linorder_not_less [of x p] by (simp add: less_eq_string_piece_def less_string_piece_def)
  moreover have "piece_compare p x = 0 \<longleftrightarrow> piece_le p x \<and> piece_le x p"
    by (auto simp: piece_compare_def piece_le_def piece_cmp_swap [of x p] Let_def)
  moreover have "piece_compare p x < 0 \<longleftrightarrow> piece_less p x"
    by (auto simp: piece_compare_def piece_less_def Let_def)
  moreover have "piece_le p x \<and> piece_le x p \<longleftrightarrow> p = x"
    using order_antisym [of p x] by (auto simp: less_eq_string_piece_def piece_le_iff)
  moreover have "piece_greater p x \<longleftrightarrow> piece_less x p" "piece_ge p x \<longleftrightarrow> piece_le x p"
    by (simp_all only: piece_greater_iff piece_ge_iff less_string_piece_def less_eq_string_piece_def)
  ultimately show ?thesis by (simp only: piece_less_chars piece_eq_iff starts_with_prefix simp_thms)
qed

end
