(* ===== verification/Net_Http.thy ===== *)
theory Net_Http
  imports Net_Buffer Base_Time "HOL-Library.List_Lexorder" "HOL-Library.Char_ord"
begin

text \<open>
  HTTP requests and their parser (\<^verbatim>\<open>muduo/net/http/HttpRequest.h\<close>, \<^verbatim>\<open>HttpContext.h\<close>, \<^verbatim>\<open>HttpContext.cc\<close> of the
  annotated library). Ranges of characters are strings, pointers into a range are offsets. A \<^verbatim>\<open>std::map\<close> of
  strings is its sequence of entries, sorted by the key. The parser's loop returns \<open>None\<close> when an assertion fails
  and when it never ends. The parser is shown to find a request in its text however the network cuts the text
  into pieces.
\<close>

section \<open>Maps and searches of the standard library\<close>

type_synonym string_map = "(string \<times> string) list"

fun map_set :: "string \<Rightarrow> string \<Rightarrow> string_map \<Rightarrow> string_map" where
  "map_set k v [] = [(k, v)]"
| "map_set k v ((k', v') # m) =
     (if k < k' then (k, v) # (k', v') # m
      else if k = k' then (k, v) # m
      else (k', v') # map_set k v m)"

fun std_find :: "char \<Rightarrow> string \<Rightarrow> nat" where
  "std_find x [] = 0"
| "std_find x (y # ys) = (if y = x then 0 else Suc (std_find x ys))"

definition isspace :: "char \<Rightarrow> bool" where
  "isspace ch \<longleftrightarrow> ch = CHR '' '' \<or> (9 \<le> (of_char ch :: nat) \<and> (of_char ch :: nat) \<le> 13)"

section \<open>Requests\<close>

datatype http_method = kInvalid | kGet | kPost | kHead | kPut | kDelete

datatype http_version = kUnknown | kHttp10 | kHttp11

record http_request =
  req_method :: http_method
  req_version :: http_version
  req_path :: string
  req_query :: string
  receiveTime :: timestamp
  req_headers :: string_map

definition HttpRequest_new :: http_request where
  "HttpRequest_new = \<lparr>req_method = kInvalid, req_version = kUnknown, req_path = [], req_query = [],
     receiveTime = Timestamp_invalid, req_headers = []\<rparr>"

definition method_of_text :: "string \<Rightarrow> http_method" where
  "method_of_text m =
     (if m = ''GET'' then kGet else if m = ''POST'' then kPost else if m = ''HEAD'' then kHead
      else if m = ''PUT'' then kPut else if m = ''DELETE'' then kDelete else kInvalid)"

definition setMethod :: "string \<Rightarrow> http_request \<Rightarrow> (bool \<times> http_request) option" where
  "setMethod m r =
     do {
       check (req_method r = kInvalid);
       let r1 = r\<lparr>req_method := method_of_text m\<rparr>;
       Some (req_method r1 \<noteq> kInvalid, r1)
     }"

fun methodString :: "http_method \<Rightarrow> string" where
  "methodString kGet = ''GET''"
| "methodString kPost = ''POST''"
| "methodString kHead = ''HEAD''"
| "methodString kPut = ''PUT''"
| "methodString kDelete = ''DELETE''"
| "methodString kInvalid = ''UNKNOWN''"

text \<open>The loop that shortens the value while its last character is a space.\<close>

function trim_end :: "string \<Rightarrow> string" where
  "trim_end v = (if v \<noteq> [] \<and> isspace (last v) then trim_end (butlast v) else v)"
  by auto
termination by (relation "measure length") simp_all

declare trim_end.simps [simp del]

text \<open>\<^verbatim>\<open>addHeader(start, colon, end)\<close>, where \<open>colon\<close> is the offset of the colon in the line.\<close>

definition addHeader :: "string \<Rightarrow> nat \<Rightarrow> http_request \<Rightarrow> http_request" where
  "addHeader line colon r =
     (let field = take colon line;
          val = trim_end (dropWhile isspace (drop (colon + 1) line))
      in r\<lparr>req_headers := map_set field val (req_headers r)\<rparr>)"

definition getHeader :: "http_request \<Rightarrow> string \<Rightarrow> string" where
  "getHeader r field = (case map_of (req_headers r) field of Some v \<Rightarrow> v | None \<Rightarrow> [])"

definition swap_request :: "http_request \<Rightarrow> http_request \<Rightarrow> http_request \<times> http_request" where
  "swap_request a b = (b, a)"

section \<open>The parser\<close>

datatype parse_state = kExpectRequestLine | kExpectHeaders | kExpectBody | kGotAll

record http_context =
  pstate :: parse_state
  request :: http_request

definition HttpContext_new :: http_context where
  "HttpContext_new = \<lparr>pstate = kExpectRequestLine, request = HttpRequest_new\<rparr>"

definition gotAll :: "http_context \<Rightarrow> bool" where
  "gotAll c \<longleftrightarrow> pstate c = kGotAll"

definition reset_context :: "http_context \<Rightarrow> http_context" where
  "reset_context c = c\<lparr>pstate := kExpectRequestLine, request := fst (swap_request (request c) HttpRequest_new)\<rparr>"

text \<open>The part of a request line after the method: path, query and version.\<close>

definition set_target :: "string \<Rightarrow> http_request \<Rightarrow> http_request" where
  "set_target target r =
     (let question = std_find (CHR ''?'') target
      in if question \<noteq> length target
         then r\<lparr>req_path := take question target, req_query := drop question target\<rparr>
         else r\<lparr>req_path := target\<rparr>)"

definition set_version :: "string \<Rightarrow> http_request \<Rightarrow> bool \<times> http_request" where
  "set_version v r =
     (if length v = 8 \<and> butlast v = ''HTTP/1.''
      then if last v = CHR ''1'' then (True, r\<lparr>req_version := kHttp11\<rparr>)
           else if last v = CHR ''0'' then (True, r\<lparr>req_version := kHttp10\<rparr>)
           else (False, r)
      else (False, r))"

definition processRequestLine :: "string \<Rightarrow> http_request \<Rightarrow> (bool \<times> http_request) option" where
  "processRequestLine line r =
     (let space = std_find (CHR '' '') line
      in if space = length line then Some (False, r)
         else do {
           (known, r1) \<leftarrow> setMethod (take space line) r;
           if known
           then let start = drop (space + 1) line;
                    space2 = std_find (CHR '' '') start
                in if space2 = length start then Some (False, r1)
                   else Some (set_version (drop (space2 + 1) start) (set_target (take space2 start) r1))
           else Some (False, r1)
         })"

partial_function (option) parseRequest ::
  "timestamp \<Rightarrow> http_context \<Rightarrow> buffer \<Rightarrow> (bool \<times> http_context \<times> buffer) option" where
  [code]: "parseRequest t c b =
     (if pstate c = kExpectRequestLine
      then (case findCRLF b of
              Some crlf \<Rightarrow>
                do {
                  (ok, r) \<leftarrow> processRequestLine (segment (peek b) crlf (buf b)) (request c);
                  if ok
                  then do {
                    b1 \<leftarrow> retrieveUntil b (crlf + 2);
                    parseRequest t (c\<lparr>request := r\<lparr>receiveTime := t\<rparr>, pstate := kExpectHeaders\<rparr>) b1
                  }
                  else Some (False, c\<lparr>request := r\<rparr>, b)
                }
            | None \<Rightarrow> Some (True, c, b))
      else if pstate c = kExpectHeaders
      then (case findCRLF b of
              Some crlf \<Rightarrow>
                do {
                  let line = segment (peek b) crlf (buf b);
                  let colon = std_find (CHR '':'') line;
                  b1 \<leftarrow> retrieveUntil b (crlf + 2);
                  if colon \<noteq> length line
                  then parseRequest t (c\<lparr>request := addHeader line colon (request c)\<rparr>) b1
                  else Some (True, c\<lparr>pstate := kGotAll\<rparr>, b1)
                }
            | None \<Rightarrow> Some (True, c, b))
      else parseRequest t c b)"

section \<open>Facts about maps and searches\<close>

lemma map_of_map_set [simp]: "map_of (map_set k v m) = (map_of m)(k \<mapsto> v)"
  by (induction m rule: map_set.induct [of _ k v]) (auto simp: fun_eq_iff)

lemma map_set_sorted: "sorted_wrt (<) (map fst m) \<Longrightarrow> sorted_wrt (<) (map fst (map_set k v m))"
proof (induction k v m rule: map_set.induct)
  case (2 k v k' v' m)
  have "fst ` set (map_set k v m) = insert k (fst ` set m)" for m
    by (induction m rule: map_set.induct [of _ k v]) auto
  with 2 show ?case by (force simp: not_less_iff_gr_or_eq)
qed simp

lemma std_find_le [simp]: "std_find x xs \<le> length xs"
  by (induction xs) auto

lemma std_find_absent: "std_find x xs = length xs \<longleftrightarrow> x \<notin> set xs"
  by (induction xs) auto

lemma std_find_append: "x \<notin> set xs \<Longrightarrow> std_find x (xs @ x # ys) = length xs"
  by (induction xs) auto

lemma trim_end_id: "v = [] \<or> \<not> isspace (last v) \<Longrightarrow> trim_end v = v"
  by (subst trim_end.simps) auto

section \<open>Lines\<close>

text \<open>The first line of a text and what follows its CR LF pair.\<close>

definition split_line :: "string \<Rightarrow> (string \<times> string) option" where
  "split_line s = (let k = std_search s kCRLF in if k = length s then None else Some (take k s, drop (k + 2) s))"

lemma kCRLF_ne [simp]: "kCRLF \<noteq> []" "length kCRLF = 2"
  by (simp_all add: kCRLF_def)

lemma split_line_shorter: "split_line s = Some (l, rest) \<Longrightarrow> length rest < length s"
  using std_search_found(2) [of kCRLF s] by (auto simp: split_line_def Let_def split: if_splits)

lemma std_search_append:
  assumes "pat \<noteq> []" "std_search xs pat \<noteq> length xs"
  shows "std_search (xs @ ys) pat = std_search xs pat"
  using assms
proof (induction xs)
  case (Cons x xs)
  have more: "prefix pat (x # xs) \<Longrightarrow> prefix pat (x # xs @ ys)"
    by (metis append_Cons prefix_prefix)
  show ?case
  proof (cases "prefix pat (x # xs)")
    case False
    with Cons have found: "std_search xs pat \<noteq> length xs" by simp
    have "length pat \<le> length (x # xs)"
      using std_search_found(2) [OF Cons.prems(1) found] by simp
    then have "\<not> prefix pat (x # xs @ ys)"
      using False prefix_length_prefix [of pat "x # xs @ ys" "x # xs"] by auto
    with False Cons found show ?thesis by simp
  qed (use more in simp)
qed simp

lemma split_line_append: "split_line s = Some (l, rest) \<Longrightarrow> split_line (s @ w) = Some (l, rest @ w)"
  using std_search_found(2) [of kCRLF s] std_search_append [of kCRLF s w]
  by (auto simp: split_line_def Let_def split: if_splits)

lemma split_line_whole:
  assumes "CHR 0x0D \<notin> set l"
  shows "split_line (l @ kCRLF @ rest) = Some (l, rest)"
proof -
  have "std_search (l @ kCRLF @ rest) kCRLF = length l"
    using assms by (induction l) (auto simp: kCRLF_def)
  then show ?thesis by (simp add: split_line_def)
qed

lemma findCRLF_split_line:
  assumes "buffer_inv b"
  shows "findCRLF b = None \<Longrightarrow> split_line (readable b) = None"
    "findCRLF b = Some i \<Longrightarrow> \<exists>rest b'. split_line (readable b) = Some (segment (peek b) i (buf b), rest) \<and>
       retrieveUntil b (i + 2) = Some b' \<and> buffer_inv b' \<and> readable b' = rest"
proof -
  let ?k = "std_search (readable b) kCRLF"
  show "findCRLF b = None \<Longrightarrow> split_line (readable b) = None"
    using assms by (simp add: findCRLF_eq split_line_def split: if_splits)
  assume "findCRLF b = Some i"
  then have ne: "?k \<noteq> length (readable b)" and i: "i = peek b + ?k"
    using assms by (simp_all add: findCRLF_eq split: if_splits)
  note le = std_search_found(2) [OF kCRLF_ne(1) ne]
  then obtain b' where b': "retrieve b (?k + 2) = Some b'" "buffer_inv b'" "readable b' = drop (?k + 2) (readable b)"
    using retrieve_ok [OF assms, of "?k + 2"] by auto
  have "peek b \<le> beginWrite b" "length (readable b) = beginWrite b - peek b"
    using assms by (simp_all add: buffer_inv_def buffer_index_defs readable_def)
  moreover have "segment (peek b) i (buf b) = take ?k (readable b)"
    using le i calculation by (simp add: segment_def readable_def min_def)
  ultimately show "\<exists>rest b'. split_line (readable b) = Some (segment (peek b) i (buf b), rest) \<and>
       retrieveUntil b (i + 2) = Some b' \<and> buffer_inv b' \<and> readable b' = rest"
    using b' ne le i by (simp add: split_line_def retrieveUntil_def Let_def)
qed

section \<open>The parser on texts\<close>

text \<open>
  The specification of the parser works on the unread text and leaves the receive time alone: lines are taken off
  the text until a line is missing, a line is bad, or the empty line is reached.
\<close>

function parse_text :: "http_context \<Rightarrow> string \<Rightarrow> (bool \<times> http_context \<times> string) option" where
  "parse_text c s =
     (if pstate c = kExpectRequestLine
      then (case split_line s of
              Some (line, rest) \<Rightarrow>
                do {
                  (ok, r) \<leftarrow> processRequestLine line (request c);
                  if ok then parse_text (c\<lparr>pstate := kExpectHeaders, request := r\<rparr>) rest
                  else Some (False, c\<lparr>request := r\<rparr>, s)
                }
            | None \<Rightarrow> Some (True, c, s))
      else if pstate c = kExpectHeaders
      then (case split_line s of
              Some (line, rest) \<Rightarrow>
                let colon = std_find (CHR '':'') line
                in if colon \<noteq> length line
                   then parse_text (c\<lparr>request := addHeader line colon (request c)\<rparr>) rest
                   else Some (True, c\<lparr>pstate := kGotAll\<rparr>, rest)
            | None \<Rightarrow> Some (True, c, s))
      else None)"
  by auto
termination by (relation "measure (\<lambda>(c, s). length s)") (auto dest: split_line_shorter)

declare parse_text.simps [simp del]

definition untimed :: "http_context \<Rightarrow> http_context" where
  "untimed c = c\<lparr>request := (request c)\<lparr>receiveTime := 0\<rparr>\<rparr>"

lemma untimed_simps [simp]:
  "pstate (untimed c) = pstate c" "request (untimed c) = (request c)\<lparr>receiveTime := 0\<rparr>"
  "gotAll (untimed c) = gotAll c" "untimed (untimed c) = untimed c"
  by (simp_all add: untimed_def gotAll_def)

lemma processRequestLine_untimed:
  "processRequestLine l (r\<lparr>receiveTime := t\<rparr>) =
     map_option (\<lambda>(ok, r). (ok, r\<lparr>receiveTime := t\<rparr>)) (processRequestLine l r)"
  by (simp add: processRequestLine_def setMethod_def set_target_def set_version_def Let_def check_def)

lemma addHeader_untimed: "addHeader l k (r\<lparr>receiveTime := t\<rparr>) = (addHeader l k r)\<lparr>receiveTime := t\<rparr>"
  by (simp add: addHeader_def Let_def)

definition parsed_alike :: "bool \<times> http_context \<times> buffer \<Rightarrow> bool \<times> http_context \<times> string \<Rightarrow> bool" where
  "parsed_alike = (\<lambda>(ok, c, b) (ok', c', s). ok = ok' \<and> untimed c = c' \<and> buffer_inv b \<and> readable b = s)"

text \<open>The loop over the buffer is the specification, as long as there is something to expect.\<close>

lemma parseRequest_refines:
  assumes "buffer_inv b" "pstate c = kExpectRequestLine \<or> pstate c = kExpectHeaders"
  shows "rel_option parsed_alike (parseRequest t c b) (parse_text (untimed c) (readable b))"
  using assms
proof (induction "length (readable b)" arbitrary: b c rule: less_induct)
  case less
  show ?case
  proof (cases "findCRLF b")
    case None
    with less.prems show ?thesis
      using findCRLF_split_line(1) [OF less.prems(1)]
      by (subst parseRequest.simps, subst parse_text.simps) (auto simp: parsed_alike_def)
  next
    case (Some i)
    then obtain rest b' where line: "split_line (readable b) = Some (segment (peek b) i (buf b), rest)"
        and b': "retrieveUntil b (i + 2) = Some b'" "buffer_inv b'" "readable b' = rest"
      using findCRLF_split_line(2) [OF less.prems(1)] by blast
    have IH: "pstate c' = kExpectHeaders \<Longrightarrow> rel_option parsed_alike (parseRequest t c' b') (parse_text (untimed c') rest)" for c'
      using less.hyps [of b' c'] b' split_line_shorter [OF line] by auto
    let ?line = "segment (peek b) i (buf b)"
    show ?thesis
    proof (cases "pstate c = kExpectRequestLine")
      case True
      show ?thesis
      proof (cases "processRequestLine ?line (request c)")
        case None
        with True Some line show ?thesis
          by (subst parseRequest.simps, subst parse_text.simps) (simp add: processRequestLine_untimed)
      next
        case (Some res)
        obtain ok r where res: "res = (ok, r)" by (cases res)
        show ?thesis
          using True Some res line \<open>findCRLF b = Some i\<close> b' less.prems
            IH [of "c\<lparr>request := r\<lparr>receiveTime := t\<rparr>, pstate := kExpectHeaders\<rparr>"]
          by (subst parseRequest.simps, subst parse_text.simps)
            (auto simp: processRequestLine_untimed parsed_alike_def untimed_def)
      qed
    next
      case False
      with less.prems have "pstate c = kExpectHeaders" by simp
      with Some line b' show ?thesis
        using IH [of "c\<lparr>request := addHeader ?line (std_find (CHR '':'') ?line) (request c)\<rparr>"]
        by (subst parseRequest.simps, subst parse_text.simps)
          (auto simp: parsed_alike_def addHeader_untimed untimed_def Let_def)
    qed
  qed
qed

text \<open>Reading more of the text continues where the parser stopped.\<close>

lemma parse_text_append:
  "parse_text c (s @ w) =
     (case parse_text c s of
        None \<Rightarrow> None
      | Some (ok, c1, s1) \<Rightarrow> if ok \<and> \<not> gotAll c1 then parse_text c1 (s1 @ w) else Some (ok, c1, s1 @ w))"
proof (induction c s rule: parse_text.induct)
  case (1 c s)
  show ?case
  proof (cases "split_line s")
    case None
    then have "parse_text c s = (if pstate c = kExpectRequestLine \<or> pstate c = kExpectHeaders then Some (True, c, s) else None)"
      by (subst parse_text.simps) auto
    then show ?thesis by (auto simp: gotAll_def) (simp add: parse_text.simps)
  next
    case (Some lr)
    obtain line rest where lr: "lr = (line, rest)" by (cases lr)
    note sp = Some [unfolded lr] split_line_append [OF Some [unfolded lr], of w]
    show ?thesis
    proof (cases "pstate c = kExpectRequestLine")
      case True
      show ?thesis
      proof (cases "processRequestLine line (request c)")
        case (Some res)
        obtain ok r where res: "res = (ok, r)" by (cases res)
        show ?thesis
          using 1(1) [OF True sp(1) refl Some res [symmetric]] Some res True sp
          by (cases ok) (simp_all add: parse_text.simps [of c])
      qed (use True sp in \<open>simp add: parse_text.simps [of c]\<close>)
    next
      case False
      show ?thesis
        using 1(2) [OF False _ sp(1) refl refl] False sp
        by (cases "pstate c = kExpectHeaders") (simp_all add: parse_text.simps [of c] gotAll_def Let_def)
    qed
  qed
qed

lemma split_line_parts: "split_line s = Some (l, rest) \<Longrightarrow> s = l @ kCRLF @ rest"
proof -
  assume l: "split_line s = Some (l, rest)"
  let ?k = "std_search s kCRLF"
  have k: "?k \<noteq> length s" "l = take ?k s" "rest = drop (?k + 2) s"
    using l by (auto simp: split_line_def Let_def split: if_splits)
  obtain zs where "drop ?k s = kCRLF @ zs"
    using std_search_found(1) [OF kCRLF_ne(1) k(1)] by (auto simp: prefix_def)
  moreover from this have "zs = drop 2 (drop ?k s)" by simp
  ultimately show ?thesis using k by (metis add.commute append_take_drop_id drop_drop)
qed

text \<open>What the parser leaves is the end of the text.\<close>

lemma parse_text_suffix: "parse_text c s = Some (ok, c1, s1) \<Longrightarrow> \<exists>p. s = p @ s1"
proof (induction c s rule: parse_text.induct)
  case (1 c s)
  show ?case
  proof (cases "split_line s")
    case None
    with 1(3) show ?thesis by (subst (asm) parse_text.simps) (auto split: if_splits)
  next
    case (Some lr)
    obtain l rest where lr: "lr = (l, rest)" by (cases lr)
    have s: "s = (l @ kCRLF) @ rest" using Some lr split_line_parts by simp
    have "s1 = s \<or> s1 = rest \<or> (\<exists>p. rest = p @ s1)"
      using 1 Some lr by (subst (asm) (3) parse_text.simps)
        (auto simp: Let_def bind_eq_Some_conv split: if_splits, blast)
    with s show ?thesis by (metis append.assoc append_Nil)
  qed
qed

section \<open>Requests in pieces\<close>

fun versionString :: "http_version \<Rightarrow> string" where
  "versionString kHttp10 = ''HTTP/1.0''"
| "versionString kHttp11 = ''HTTP/1.1''"
| "versionString kUnknown = []"

definition print_headers :: "(string \<times> string) list \<Rightarrow> string" where
  "print_headers hs = concat (map (\<lambda>(f, x). f @ '': '' @ x @ kCRLF) hs) @ kCRLF"

text \<open>The text of a request, and the conditions on its parts under which the text is unambiguous.\<close>

definition print_request :: "http_method \<Rightarrow> string \<Rightarrow> string \<Rightarrow> http_version \<Rightarrow> (string \<times> string) list \<Rightarrow> string" where
  "print_request m p q v hs =
     (methodString m @ '' '' @ p @ q @ '' '' @ versionString v) @ kCRLF @ print_headers hs"

definition sendable_target :: "string \<Rightarrow> string \<Rightarrow> bool" where
  "sendable_target p q \<longleftrightarrow> CHR '' '' \<notin> set p \<union> set q \<and> CHR 0x0D \<notin> set p \<union> set q \<and> CHR ''?'' \<notin> set p \<and>
     (q = [] \<or> hd q = CHR ''?'')"

definition sendable_header :: "string \<times> string \<Rightarrow> bool" where
  "sendable_header = (\<lambda>(f, x). CHR '':'' \<notin> set f \<and> CHR 0x0D \<notin> set f \<union> set x \<and>
     (x = [] \<or> \<not> isspace (hd x) \<and> \<not> isspace (last x)))"

definition set_headers :: "(string \<times> string) list \<Rightarrow> http_request \<Rightarrow> http_request" where
  "set_headers hs r = r\<lparr>req_headers := foldl (\<lambda>m (f, x). map_set f x m) (req_headers r) hs\<rparr>"

lemma map_of_set_headers: "map_of (req_headers (set_headers hs r)) = map_of (rev hs @ req_headers r)"
proof -
  have "map_of (foldl (\<lambda>m (f, x). map_set f x m) m hs) = map_of (rev hs @ m)" for m
    by (induction hs arbitrary: m) (auto simp: map_add_def fun_eq_iff split: option.splits)
  then show ?thesis by (simp add: set_headers_def)
qed

lemma print_headers_simps:
  "print_headers [] = kCRLF" "print_headers ((f, x) # hs) = (f @ '': '' @ x) @ kCRLF @ print_headers hs"
  by (simp_all add: print_headers_def)

lemma addHeader_line:
  assumes "sendable_header (f, x)"
  shows "std_find (CHR '':'') (f @ '': '' @ x) = length f"
    "addHeader (f @ '': '' @ x) (length f) r = r\<lparr>req_headers := map_set f x (req_headers r)\<rparr>"
proof -
  have "dropWhile isspace ('' '' @ x) = x"
    using assms by (cases x) (auto simp: sendable_header_def isspace_def)
  moreover have "trim_end x = x"
    using assms by (intro trim_end_id) (auto simp: sendable_header_def)
  ultimately show "addHeader (f @ '': '' @ x) (length f) r = r\<lparr>req_headers := map_set f x (req_headers r)\<rparr>"
    by (simp add: addHeader_def)
  show "std_find (CHR '':'') (f @ '': '' @ x) = length f"
    using assms std_find_append [of "CHR '':''" f "'' '' @ x"] by (simp add: sendable_header_def)
qed

lemma parse_text_headers:
  assumes "\<forall>h \<in> set hs. sendable_header h" "pstate c = kExpectHeaders"
  shows "parse_text c (print_headers hs) = Some (True, c\<lparr>pstate := kGotAll, request := set_headers hs (request c)\<rparr>, [])"
  using assms
proof (induction hs arbitrary: c)
  case Nil
  then show ?case
    using split_line_whole [of "[]" "[]"] by (subst parse_text.simps) (simp add: print_headers_simps set_headers_def)
next
  case (Cons h hs)
  obtain f x where h: "h = (f, x)" by (cases h)
  with Cons.prems have "CHR 0x0D \<notin> set (f @ '': '' @ x)" "sendable_header (f, x)"
    by (auto simp: sendable_header_def)
  with Cons h show ?case
    using split_line_whole [of "f @ '': '' @ x" "print_headers hs"] addHeader_line [of f x]
    by (subst parse_text.simps) (simp add: print_headers_simps set_headers_def)
qed

lemma processRequestLine_print:
  assumes "m \<noteq> kInvalid" "v \<noteq> kUnknown" "sendable_target p q" "req_method r = kInvalid" "req_query r = []"
  shows "processRequestLine (methodString m @ '' '' @ p @ q @ '' '' @ versionString v) r =
    Some (True, r\<lparr>req_method := m, req_version := v, req_path := p, req_query := q\<rparr>)"
proof -
  let ?t = "p @ q @ '' '' @ versionString v"
  have m: "CHR '' '' \<notin> set (methodString m)" "method_of_text (methodString m) = m"
    using assms(1) by (cases m; simp add: method_of_text_def)+
  have "std_find (CHR '' '') ((p @ q) @ CHR '' '' # versionString v) = length (p @ q)"
    using assms(3) by (intro std_find_append) (auto simp: sendable_target_def)
  then have sp: "std_find (CHR '' '') ?t = length p + length q" by simp
  have q: "set_target (p @ q) r = r\<lparr>req_path := p, req_query := q\<rparr>" if "req_query r = []" for r
    using assms(3) that std_find_append [of "CHR ''?''" p "tl q"] std_find_absent [of "CHR ''?''" p]
    by (cases q) (auto simp: set_target_def sendable_target_def)
  have v: "set_version (versionString v) r = (True, r\<lparr>req_version := v\<rparr>)" for r
    using assms(2) by (cases v) (auto simp: set_version_def)
  show ?thesis
    using m sp q v assms(1,4,5) std_find_append [OF m(1), of ?t]
    by (simp add: processRequestLine_def setMethod_def)
qed

text \<open>
  The pieces of the text arrive with their times: each is appended to the input buffer and the parser is called,
  until it reports an error or has the whole request. The pieces that were not looked at are part of the result.
\<close>

fun feed :: "http_context \<Rightarrow> buffer \<Rightarrow> (timestamp \<times> string) list \<Rightarrow>
    (bool \<times> http_context \<times> buffer \<times> (timestamp \<times> string) list) option" where
  "feed c b [] = Some (True, c, b, [])"
| "feed c b ((t, w) # ws) =
     do {
       b1 \<leftarrow> append_buffer b w;
       (ok, c1, b2) \<leftarrow> parseRequest t c b1;
       if ok \<and> \<not> gotAll c1 then feed c1 b2 ws else Some (ok, c1, b2, ws)
     }"

lemma parse_text_expects:
  "parse_text c s = Some x \<Longrightarrow> pstate c = kExpectRequestLine \<or> pstate c = kExpectHeaders"
  by (subst (asm) parse_text.simps) (auto split: if_splits)

lemma feed_piece:
  assumes "buffer_inv b" "parse_text (untimed c) (readable b @ w) = Some (ok, d, s)"
  shows "\<exists>c' b'. feed c b ((t, w) # ws) = (if ok \<and> \<not> gotAll d then feed c' b' ws else Some (ok, c', b', ws)) \<and>
    untimed c' = d \<and> buffer_inv b' \<and> readable b' = s"
proof -
  obtain b1 where b1: "append_buffer b w = Some b1" "buffer_inv b1" "readable b1 = readable b @ w"
    using net_buffer.push_ok [OF assms(1), of w] by auto
  have "rel_option parsed_alike (parseRequest t c b1) (Some (ok, d, s))"
    using parseRequest_refines [OF b1(2), of c t] parse_text_expects [OF assms(2)] assms(2) b1(3) by auto
  then obtain c' b' where "parseRequest t c b1 = Some (ok, c', b')" "untimed c' = d" "buffer_inv b'" "readable b' = s"
    by (auto simp: option_rel_Some2 parsed_alike_def)
  moreover from this(2) have "gotAll c' = gotAll d" by (metis untimed_simps(3))
  ultimately show ?thesis
    using b1(1) by (intro exI [of _ c'] exI [of _ b']) simp
qed

text \<open>The first of the pieces that make a complete text either is the last one or leaves the parser in between.\<close>

lemma first_piece:
  assumes "\<forall>(t, w) \<in> set ((t, w) # ws). w \<noteq> []" "gotAll d"
    "parse_text c (s @ concat (map snd ((t, w) # ws))) = Some (True, d, [])"
  shows "ws = [] \<and> parse_text c (s @ w) = Some (True, d, []) \<or>
    ws \<noteq> [] \<and> (\<exists>c1 s1. parse_text c (s @ w) = Some (True, c1, s1) \<and> \<not> gotAll c1 \<and>
      parse_text c1 (s1 @ concat (map snd ws)) = Some (True, d, []))"
proof -
  let ?rest = "concat (map snd ws)"
  have none: "?rest = [] \<Longrightarrow> ws = []"
    using assms(1) by (cases ws) auto
  have whole: "parse_text c ((s @ w) @ ?rest) = Some (True, d, [])"
    using assms(3) by simp
  then obtain ok c1 s1 where first: "parse_text c (s @ w) = Some (ok, c1, s1)"
    by (subst (asm) parse_text_append) (auto split: option.splits)
  note app = parse_text_append [of c "s @ w", unfolded first option.case prod.case]
  show ?thesis
  proof (cases "ok \<and> \<not> gotAll c1")
    case True
    then have more: "parse_text c1 (s1 @ ?rest) = Some (True, d, [])"
      using whole app [of ?rest] by simp
    have "parse_text c1 s1 = Some (ok, c1, s1)"
      using app [of "[]"] first True by simp
    then have "ws \<noteq> []"
      using more True assms(2) by auto
    then show ?thesis
      using True first more by auto
  next
    case False
    then have "Some (ok, c1, s1 @ ?rest) = Some (True, d, [])"
      using whole app [of ?rest] by auto
    then show ?thesis
      using first none by simp
  qed
qed

lemma feed_whole:
  assumes "ws \<noteq> []" "\<forall>(t, w) \<in> set ws. w \<noteq> []" "buffer_inv b"
    "parse_text (untimed c) (readable b @ concat (map snd ws)) = Some (True, d, [])" "gotAll d"
  shows "\<exists>c' b'. feed c b ws = Some (True, c', b', []) \<and> untimed c' = d \<and> buffer_inv b' \<and> readable b' = []"
  using assms
proof (induction ws arbitrary: c b)
  case (Cons tw ws)
  obtain t w where tw: "tw = (t, w)" by (cases tw)
  show ?case
    using first_piece [OF Cons.prems(2) [unfolded tw] Cons.prems(5) Cons.prems(4) [unfolded tw]]
  proof (elim disjE conjE exE)
    assume "ws = []" "parse_text (untimed c) (readable b @ w) = Some (True, d, [])"
    then show ?thesis
      using feed_piece [OF Cons.prems(3), of c w True d "[]" t ws] Cons.prems(5) tw by auto
  next
    fix c1 s1
    assume ne: "ws \<noteq> []" and first: "parse_text (untimed c) (readable b @ w) = Some (True, c1, s1)" "\<not> gotAll c1"
      and more: "parse_text c1 (s1 @ concat (map snd ws)) = Some (True, d, [])"
    from feed_piece [OF Cons.prems(3) first(1), of t ws] obtain c' b' where
      "feed c b ((t, w) # ws) = feed c' b' ws" "untimed c' = c1" "buffer_inv b'" "readable b' = s1"
      using first(2) by auto
    then show ?thesis
      using Cons.IH [of b' c'] Cons.prems(2,5) ne more tw by auto
  qed
qed simp

text \<open>What a request says, the time of its arrival apart: of each header field the last value counts.\<close>

definition carries :: "http_request \<Rightarrow> http_method \<Rightarrow> string \<Rightarrow> string \<Rightarrow> http_version \<Rightarrow> (string \<times> string) list \<Rightarrow> bool" where
  "carries r m p q v hs \<longleftrightarrow> req_method r = m \<and> req_path r = p \<and> req_query r = q \<and> req_version r = v \<and>
     map_of (req_headers r) = map_of (rev hs)"

lemma carries_untimed [simp]: "carries (r\<lparr>receiveTime := t\<rparr>) m p q v hs = carries r m p q v hs"
  by (simp add: carries_def)

lemma carries_request: "untimed c = d \<Longrightarrow> carries (request c) m p q v hs = carries (request d) m p q v hs"
  by (auto simp: untimed_def)

lemma untimed_HttpContext_new [simp]: "untimed HttpContext_new = HttpContext_new"
  by (simp add: untimed_def HttpContext_new_def HttpRequest_new_def Timestamp_invalid_def)

lemma parse_text_print_request:
  assumes "m \<noteq> kInvalid" "v \<noteq> kUnknown" "sendable_target p q" "\<forall>h \<in> set hs. sendable_header h"
  shows "\<exists>d. parse_text HttpContext_new (print_request m p q v hs) = Some (True, d, []) \<and> gotAll d \<and>
    carries (request d) m p q v hs"
proof -
  let ?r = "HttpRequest_new\<lparr>req_method := m, req_version := v, req_path := p, req_query := q\<rparr>"
  have "CHR 0x0D \<notin> set (methodString m @ '' '' @ p @ q @ '' '' @ versionString v)"
    using assms(3) by (cases m; cases v) (auto simp: sendable_target_def)
  from split_line_whole [OF this, of "print_headers hs"]
  have "parse_text HttpContext_new (print_request m p q v hs) =
      Some (True, \<lparr>pstate = kGotAll, request = set_headers hs ?r\<rparr>, [])"
    using processRequestLine_print [OF assms(1,2,3), of HttpRequest_new] parse_text_headers [OF assms(4)]
    by (subst parse_text.simps) (simp add: print_request_def HttpContext_new_def HttpRequest_new_def)
  moreover have "carries (set_headers hs ?r) m p q v hs"
    using map_of_set_headers [of hs ?r] by (simp add: carries_def) (simp add: set_headers_def HttpRequest_new_def)
  ultimately show ?thesis by (simp add: gotAll_def)
qed

text \<open>The parser and the network. The bytes of a request may arrive in any non-empty pieces. The parser then
  passes its assertions and ends on every piece, does not finish before the last one, reads every byte, and has
  the method, path, query and version of the request and of each header field the last value that was sent for it.\<close>

theorem http_request_parsed:
  assumes "m \<noteq> kInvalid" "v \<noteq> kUnknown" "sendable_target p q" "\<forall>h \<in> set hs. sendable_header h"
    and "concat (map snd ws) = print_request m p q v hs" "\<forall>(t, w) \<in> set ws. w \<noteq> []"
  shows "\<exists>c b. feed HttpContext_new Buffer_new ws = Some (True, c, b, []) \<and> gotAll c \<and> readable b = [] \<and>
    carries (request c) m p q v hs"
proof -
  obtain d where d: "parse_text HttpContext_new (print_request m p q v hs) = Some (True, d, [])" "gotAll d"
      "carries (request d) m p q v hs"
    using parse_text_print_request [OF assms(1-4)] by blast
  have "ws \<noteq> []"
    using assms(5) by (auto simp: print_request_def kCRLF_def)
  then obtain c b where "feed HttpContext_new Buffer_new ws = Some (True, c, b, [])" "untimed c = d" "readable b = []"
    using feed_whole [of ws Buffer_new HttpContext_new d] assms(5,6) d by auto
  then show ?thesis
    using d carries_request [of c d] untimed_simps(3) [of c] by auto
qed

theorem http_request_parsed_witness:
  "let ws = [(1, ''GET /a?b HT''), (2, ''TP/1.1'' @ [CHR 0x0D]), (3, [CHR 0x0A] @ ''Host: x'' @ kCRLF), (4, kCRLF)]
   in \<exists>c b. feed HttpContext_new Buffer_new ws = Some (True, c, b, []) \<and> gotAll c \<and>
     carries (request c) kGet ''/a'' ''?b'' kHttp11 [(''Host'', ''x'')]"
proof -
  let ?ws = "[(1, ''GET /a?b HT''), (2, ''TP/1.1'' @ [CHR 0x0D]), (3, [CHR 0x0A] @ ''Host: x'' @ kCRLF), (4, kCRLF)]"
  have "concat (map snd ?ws) = print_request kGet ''/a'' ''?b'' kHttp11 [(''Host'', ''x'')]"
    by (simp add: print_request_def print_headers_def kCRLF_def)
  moreover have "sendable_target ''/a'' ''?b''" "\<forall>h \<in> set [(''Host'', ''x'')]. sendable_header h"
    by (simp_all add: sendable_target_def sendable_header_def isspace_def)
  moreover have "\<forall>(t, w) \<in> set ?ws. w \<noteq> []" by (simp add: kCRLF_def)
  ultimately show ?thesis
    using http_request_parsed [of kGet kHttp11 "''/a''" "''?b''" "[(''Host'', ''x'')]" ?ws] by auto
qed

end
