(* ===== verification/Net_HttpServer.thy ===== *)
theory Net_HttpServer
  imports Net_Http Net_TcpConnProps
begin

text \<open>
  HTTP responses and the server (\<^verbatim>\<open>muduo/net/http/HttpResponse.h\<close>, \<^verbatim>\<open>HttpResponse.cc\<close>, \<^verbatim>\<open>HttpServer.cc\<close> of the
  annotated library) on top of the parser of \<open>Net_Http\<close> and the connection of \<open>Net_TcpConnection\<close>. A session is a
  connection with the context that the server binds to it; the user's \<^verbatim>\<open>httpCallback_\<close> is a parameter \<open>cb\<close>, a
  function of the request that fills in the response.
\<close>

section \<open>Responses\<close>

datatype http_status = kUnknownStatus | k200Ok | k301MovedPermanently | k400BadRequest | k404NotFound

fun status_number :: "http_status \<Rightarrow> nat" where
  "status_number kUnknownStatus = 0"
| "status_number k200Ok = 200"
| "status_number k301MovedPermanently = 301"
| "status_number k400BadRequest = 400"
| "status_number k404NotFound = 404"

record http_response =
  resp_headers :: string_map
  statusCode :: http_status
  statusMessage :: string
  closeConnection :: bool
  resp_body :: string

definition HttpResponse_new :: "bool \<Rightarrow> http_response" where
  "HttpResponse_new close = \<lparr>resp_headers = [], statusCode = kUnknownStatus, statusMessage = [],
     closeConnection = close, resp_body = []\<rparr>"

definition setStatusCode :: "http_status \<Rightarrow> http_response \<Rightarrow> http_response" where
  "setStatusCode code r = r\<lparr>statusCode := code\<rparr>"

definition setStatusMessage :: "string \<Rightarrow> http_response \<Rightarrow> http_response" where
  "setStatusMessage m r = r\<lparr>statusMessage := m\<rparr>"

definition setCloseConnection :: "bool \<Rightarrow> http_response \<Rightarrow> http_response" where
  "setCloseConnection on r = r\<lparr>closeConnection := on\<rparr>"

definition response_addHeader :: "string \<Rightarrow> string \<Rightarrow> http_response \<Rightarrow> http_response" where
  "response_addHeader key val r = r\<lparr>resp_headers := map_set key val (resp_headers r)\<rparr>"

definition setContentType :: "string \<Rightarrow> http_response \<Rightarrow> http_response" where
  "setContentType ct r = response_addHeader ''Content-Type'' ct r"

definition setBody :: "string \<Rightarrow> http_response \<Rightarrow> http_response" where
  "setBody body r = r\<lparr>resp_body := body\<rparr>"

fun append_headers :: "string_map \<Rightarrow> buffer \<Rightarrow> buffer option" where
  "append_headers [] b = Some b"
| "append_headers ((key, val) # m) b =
     do {
       b1 \<leftarrow> append_buffer b key;
       b2 \<leftarrow> append_buffer b1 '': '';
       b3 \<leftarrow> append_buffer b2 val;
       b4 \<leftarrow> append_buffer b3 kCRLF;
       append_headers m b4
     }"

definition appendToBuffer :: "http_response \<Rightarrow> buffer \<Rightarrow> buffer option" where
  "appendToBuffer r output =
     do {
       b1 \<leftarrow> append_buffer output (snprintf 32 (''HTTP/1.1 '' @ print_nat (status_number (statusCode r)) @ '' ''));
       b2 \<leftarrow> append_buffer b1 (statusMessage r);
       b3 \<leftarrow> append_buffer b2 kCRLF;
       b4 \<leftarrow> (if closeConnection r then append_buffer b3 (''Connection: close'' @ kCRLF)
              else do {
                b \<leftarrow> append_buffer b3 (snprintf 32 (''Content-Length: '' @ print_nat (length (resp_body r)) @ kCRLF));
                append_buffer b (''Connection: Keep-Alive'' @ kCRLF)
              });
       b5 \<leftarrow> append_headers (resp_headers r) b4;
       b6 \<leftarrow> append_buffer b5 kCRLF;
       append_buffer b6 (resp_body r)
     }"

section \<open>The server\<close>

record http_session =
  hcontext :: "http_context option"
  hconn :: conn

type_synonym http_callback = "http_request \<Rightarrow> http_response \<Rightarrow> http_response"

definition defaultHttpCallback :: http_callback where
  "defaultHttpCallback req resp =
     setCloseConnection True (setStatusMessage ''Not Found'' (setStatusCode k404NotFound resp))"

definition http_onConnection :: "http_session \<Rightarrow> http_session" where
  "http_onConnection s = (if connected (hconn s) then s\<lparr>hcontext := Some HttpContext_new\<rparr> else s)"

definition wants_close :: "http_request \<Rightarrow> bool" where
  "wants_close req \<longleftrightarrow> getHeader req ''Connection'' = ''close'' \<or>
     (req_version req = kHttp10 \<and> getHeader req ''Connection'' \<noteq> ''Keep-Alive'')"

definition onRequest :: "http_callback \<Rightarrow> kernel_write \<Rightarrow> http_request \<Rightarrow> conn \<Rightarrow> conn option" where
  "onRequest cb k req c =
     do {
       let response = cb req (HttpResponse_new (wants_close req));
       b \<leftarrow> appendToBuffer response Buffer_new;
       (c1, _) \<leftarrow> send_buffer k True b c;
       Some (if closeConnection response then shutdown True c1 else c1)
     }"

text \<open>What the parser took out of the input buffer is recorded as consumed.\<close>

definition set_input :: "buffer \<Rightarrow> conn \<Rightarrow> conn" where
  "set_input b c =
     c\<lparr>inputBuffer := b, consumed := consumed c @
        take (length (readable (inputBuffer c)) - length (readable b)) (readable (inputBuffer c))\<rparr>"

definition bad_request :: string where
  "bad_request = ''HTTP/1.1 400 Bad Request'' @ kCRLF @ kCRLF"

definition http_onMessage :: "http_callback \<Rightarrow> kernel_write \<Rightarrow> timestamp \<Rightarrow> http_session \<Rightarrow> http_session option" where
  "http_onMessage cb k t s =
     do {
       ctx \<leftarrow> hcontext s;
       (ok, ctx1, b) \<leftarrow> parseRequest t ctx (inputBuffer (hconn s));
       let c = set_input b (hconn s);
       c1 \<leftarrow> (if \<not> ok then do { c' \<leftarrow> send k True bad_request c; Some (shutdown True c') } else Some c);
       if gotAll ctx1
       then do {
         c2 \<leftarrow> onRequest cb k (request ctx1) c1;
         Some (s\<lparr>hcontext := Some (reset_context ctx1), hconn := c2\<rparr>)
       }
       else Some (s\<lparr>hcontext := Some ctx1, hconn := c1\<rparr>)
     }"

text \<open>Bytes arrive: \<^verbatim>\<open>TcpConnection::handleRead\<close> puts them into the input buffer and calls the message callback.\<close>

definition http_receive :: "http_callback \<Rightarrow> kernel_write \<Rightarrow> timestamp \<Rightarrow> string \<Rightarrow> http_session \<Rightarrow> http_session option" where
  "http_receive cb k t w s =
     do {
       (b, n, _) \<leftarrow> readFd (inputBuffer (hconn s)) (ReadvData w);
       let c = hconn s;
       let c1 = c\<lparr>inputBuffer := b, received := received c @ w, history := history c @ [Message]\<rparr>;
       http_onMessage cb k t (s\<lparr>hconn := c1\<rparr>)
     }"

fun http_receives :: "http_callback \<Rightarrow> kernel_write \<Rightarrow> (timestamp \<times> string) list \<Rightarrow> http_session \<Rightarrow> http_session option" where
  "http_receives cb k [] s = Some s"
| "http_receives cb k ((t, w) # ws) s = do { s1 \<leftarrow> http_receive cb k t w s; http_receives cb k ws s1 }"

section \<open>The text of a response\<close>

definition response_text :: "http_response \<Rightarrow> string" where
  "response_text r =
     ''HTTP/1.1 '' @ print_nat (status_number (statusCode r)) @ '' '' @ statusMessage r @ kCRLF @
     (if closeConnection r then ''Connection: close'' @ kCRLF
      else ''Content-Length: '' @ print_nat (length (resp_body r)) @ kCRLF @ ''Connection: Keep-Alive'' @ kCRLF) @
     print_headers (resp_headers r) @ resp_body r"

fun append_all :: "string list \<Rightarrow> buffer \<Rightarrow> buffer option" where
  "append_all [] b = Some b"
| "append_all (x # xs) b = do { b1 \<leftarrow> append_buffer b x; append_all xs b1 }"

lemma append_all_ok:
  "buffer_inv b \<Longrightarrow> \<exists>b'. append_all xs b = Some b' \<and> buffer_inv b' \<and> readable b' = readable b @ concat xs"
proof (induction xs arbitrary: b)
  case (Cons x xs)
  obtain b1 where "append_buffer b x = Some b1" "buffer_inv b1" "readable b1 = readable b @ x"
    using net_buffer.push_ok [OF Cons.prems, of x] by auto
  then show ?case using Cons.IH [of b1] by auto
qed simp

lemma append_all_fun: "append_all [] = Some" "append_all (x # xs) = (\<lambda>b. append_buffer b x \<bind> append_all xs)"
  by (simp_all add: fun_eq_iff)

lemma append_headers_fun:
  "append_headers [] = Some"
  "append_headers ((k, v) # m) = (\<lambda>b. append_all [k, '': '', v, kCRLF] b \<bind> append_headers m)"
  by (simp_all add: fun_eq_iff append_all_fun)

lemma append_all_append: "append_all (xs @ ys) = (\<lambda>b. append_all xs b \<bind> append_all ys)"
  by (induction xs) (simp_all add: append_all_fun)

lemma append_headers_all: "append_headers m = append_all (concat (map (\<lambda>(k, v). [k, '': '', v, kCRLF]) m))"
  by (induction m) (auto simp: append_headers_fun append_all_append append_all_fun)

lemma concat_headers: "concat (concat (map (\<lambda>(k, v). [k, '': '', v, kCRLF]) m)) @ kCRLF = print_headers m"
  by (induction m) (auto simp: print_headers_simps)

text \<open>The two texts that go through a fixed array are not cut for any body that fits into memory.\<close>

lemma snprintf_whole: "length s < n \<Longrightarrow> snprintf n s = s"
  by (simp add: snprintf_def)

lemma response_lines_fit:
  "length (''HTTP/1.1 '' @ print_nat (status_number st) @ '' '') < 32"
  "n < 10 ^ 13 \<Longrightarrow> length (''Content-Length: '' @ print_nat n @ kCRLF) < 32"
proof -
  have "status_number st < 10 ^ 3" by (cases st) simp_all
  then show "length (''HTTP/1.1 '' @ print_nat (status_number st) @ '' '') < 32"
    using length_print_nat_le [of "status_number st" 3] by simp
  show "n < 10 ^ 13 \<Longrightarrow> length (''Content-Length: '' @ print_nat n @ kCRLF) < 32"
    using length_print_nat_le [of n 13] by simp
qed

lemma appendToBuffer_ok:
  assumes "buffer_inv b" "length (resp_body r) < 10 ^ 13"
  shows "\<exists>b'. appendToBuffer r b = Some b' \<and> buffer_inv b' \<and> readable b' = readable b @ response_text r"
proof -
  let ?xs = "[''HTTP/1.1 '' @ print_nat (status_number (statusCode r)) @ '' '', statusMessage r, kCRLF] @
    (if closeConnection r then [''Connection: close'' @ kCRLF]
     else [''Content-Length: '' @ print_nat (length (resp_body r)) @ kCRLF, ''Connection: Keep-Alive'' @ kCRLF]) @
    concat (map (\<lambda>(k, v). [k, '': '', v, kCRLF]) (resp_headers r)) @ [kCRLF, resp_body r]"
  have "appendToBuffer r b = append_all ?xs b"
    unfolding appendToBuffer_def snprintf_whole [OF response_lines_fit(1)]
      snprintf_whole [OF response_lines_fit(2) [OF assms(2)]]
    by (simp add: append_all_append append_headers_all append_all_fun)
  moreover have "concat ?xs = response_text r"
    using concat_headers [of "resp_headers r"] by (auto simp: response_text_def)
  ultimately show ?thesis using append_all_ok [OF assms(1), of ?xs] by simp
qed

section \<open>Sending on a live connection\<close>

text \<open>The peer does not go away while the server still writes.\<close>

definition peer_stays :: "kernel_write \<Rightarrow> bool" where
  "peer_stays k \<longleftrightarrow> (\<forall>c d. \<not> writeShut c \<longrightarrow> k c d \<noteq> WriteErr EPIPE)"

definition live :: "conn \<Rightarrow> bool" where
  "live c \<longleftrightarrow> conn_inv c \<and> cstate c = kConnected"

lemma sendInLoop_input: "sendInLoop k data c = Some c' \<Longrightarrow> inputBuffer c' = inputBuffer c"
  by (auto simp: sendInLoop_def write_directly_def append_remaining_def on_channel_def queue_functor_def Let_def
      bind_eq_Some_conv split: if_splits write_result.splits)

lemma live_send:
  assumes "live c" "kernel_ok k" "peer_stays k"
  shows "\<exists>c'. sendInLoop k data c = Some c' \<and> live c' \<and> accepted c' = accepted c @ data \<and> inputBuffer c' = inputBuffer c"
proof -
  have c: "conn_inv c" "open_state c" "cstate c = kConnected" "\<not> writeShut c"
    using assms(1) by (auto simp: live_def open_state_def conn_inv_def chan_inv_def)
  have "direct k data c \<noteq> None"
    using assms(3) c(4) by (auto simp: direct_def peer_stays_def split: write_result.splits)
  then obtain n where n: "direct k data c = Some n" by blast
  obtain c' where c': "sendInLoop k data c = Some c'" "sent c' = sent c @ take n data" "cstate c' = cstate c"
      "readable (outputBuffer c') = readable (outputBuffer c) @ drop n data"
    using sendInLoop_effect [OF c(1,2) assms(2), of data] n by auto
  have inv: "conn_inv c'"
    using sendInLoop_ok [OF c(1) _ assms(2), of data] c(3) c'(1) by auto
  have "readable (outputBuffer c) = [] \<or> n = 0"
    using n by (auto simp: direct_def split: if_splits)
  then have "sent c' @ readable (outputBuffer c') = (sent c @ readable (outputBuffer c)) @ data"
    using c'(2,4) by auto
  moreover have "accepted d = sent d @ readable (outputBuffer d)" if "conn_inv d" for d
    using that by (simp add: conn_inv_def data_inv_def)
  ultimately show ?thesis
    using c' inv c(1,3) sendInLoop_input [OF c'(1)] by (simp add: live_def)
qed

lemma shutdown_frame [simp]:
  "accepted (shutdown b c) = accepted c" "inputBuffer (shutdown b c) = inputBuffer c"
  "cstate c = kConnected \<Longrightarrow> cstate (shutdown b c) = kDisconnecting"
  by (auto simp: shutdown_def shutdownInLoop_def setState_def queue_functor_def Let_def)

definition answer :: "http_callback \<Rightarrow> http_request \<Rightarrow> http_response" where
  "answer cb req = cb req (HttpResponse_new (wants_close req))"

text \<open>The connection after a response has been handed to it.\<close>

definition answered :: "http_response \<Rightarrow> conn \<Rightarrow> conn \<Rightarrow> bool" where
  "answered r c c' \<longleftrightarrow> conn_inv c' \<and> accepted c' = accepted c @ response_text r \<and>
     cstate c' = (if closeConnection r then kDisconnecting else kConnected)"

lemma onRequest_ok:
  assumes "live c" "kernel_ok k" "peer_stays k" "length (resp_body (answer cb req)) < 10 ^ 13"
  shows "\<exists>c'. onRequest cb k req c = Some c' \<and> answered (answer cb req) c c' \<and> inputBuffer c' = inputBuffer c"
proof -
  obtain b where b: "appendToBuffer (answer cb req) Buffer_new = Some b" "readable b = response_text (answer cb req)"
    using appendToBuffer_ok [OF Buffer_new_inv assms(4)] by auto
  obtain c' where c': "sendInLoop k (readable b) c = Some c'" "live c'" "accepted c' = accepted c @ readable b"
      "inputBuffer c' = inputBuffer c"
    using live_send [OF assms(1-3)] by blast
  then show ?thesis
    using b assms(1) shutdown_ok [of c' True]
    by (auto simp: onRequest_def send_buffer_def answer_def answered_def live_def)
qed

section \<open>Messages\<close>

lemma set_input_live:
  assumes "live c" "buffer_inv b" "readable (inputBuffer c) = p @ readable b"
  shows "live (set_input b c)" "accepted (set_input b c) = accepted c" "inputBuffer (set_input b c) = b"
  using assms by (auto simp: live_def set_input_def conn_invs open_inv_def)

text \<open>One arrival of bytes, in terms of the specification of the parser.\<close>

lemma http_receive_parsed:
  assumes c: "live c" and parse: "parse_text (untimed ctx) (readable (inputBuffer c) @ w) = Some (ok, d, s)"
  shows "\<exists>ctx1 c1. untimed ctx1 = d \<and> live c1 \<and> accepted c1 = accepted c \<and> readable (inputBuffer c1) = s \<and>
    http_receive cb k t w \<lparr>hcontext = Some ctx, hconn = c\<rparr> =
      do {
        c2 \<leftarrow> (if \<not> ok then do { c' \<leftarrow> send k True bad_request c1; Some (shutdown True c') } else Some c1);
        if gotAll d then do {
          c3 \<leftarrow> onRequest cb k (request ctx1) c2;
          Some \<lparr>hcontext = Some HttpContext_new, hconn = c3\<rparr>
        }
        else Some \<lparr>hcontext = Some ctx1, hconn = c2\<rparr>
      }"
proof -
  have buf: "buffer_inv (inputBuffer c)" using c by (simp add: live_def conn_inv_def data_inv_def)
  obtain b where b: "readFd (inputBuffer c) (ReadvData w) = Some (b, int (length w), None)" "buffer_inv b"
      "readable b = readable (inputBuffer c) @ w"
    using readFd_ok [OF buf] by blast
  define c0 where "c0 = c\<lparr>inputBuffer := b, received := received c @ w, history := history c @ [Message]\<rparr>"
  have c0: "live c0" "accepted c0 = accepted c" "inputBuffer c0 = b"
    using c b by (auto simp: c0_def live_def conn_invs open_inv_def life_def)
  have "rel_option parsed_alike (parseRequest t ctx b) (Some (ok, d, s))"
    using parseRequest_refines [OF b(2), of ctx t] parse_text_expects [OF parse] parse b(3) by simp
  then obtain ctx1 b1 where p: "parseRequest t ctx b = Some (ok, ctx1, b1)" "untimed ctx1 = d" "buffer_inv b1" "readable b1 = s"
    by (auto simp: option_rel_Some2 parsed_alike_def)
  obtain q where "readable (inputBuffer c0) = q @ readable b1"
    using parse_text_suffix [OF parse] b(3) c0(3) p(4) by auto
  note c1 = set_input_live [OF c0(1) p(3) this]
  have "gotAll ctx1 = gotAll d" using p(2) by (metis untimed_simps(3))
  moreover have "reset_context ctx1 = HttpContext_new"
    by (cases ctx1) (simp add: reset_context_def HttpContext_new_def swap_request_def)
  ultimately have "http_receive cb k t w \<lparr>hcontext = Some ctx, hconn = c\<rparr> =
      do {
        c2 \<leftarrow> (if \<not> ok then do { c' \<leftarrow> send k True bad_request (set_input b1 c0); Some (shutdown True c') }
               else Some (set_input b1 c0));
        if gotAll d then do {
          c3 \<leftarrow> onRequest cb k (request ctx1) c2;
          Some \<lparr>hcontext = Some HttpContext_new, hconn = c3\<rparr>
        }
        else Some \<lparr>hcontext = Some ctx1, hconn = c2\<rparr>
      }"
    using b(1) p(1) c0(3) by (simp add: http_receive_def http_onMessage_def c0_def Let_def)
  then show ?thesis
    using p c1 c0(2) by (intro exI [of _ ctx1] exI [of _ "set_input b1 c0"]) simp
qed

text \<open>The last piece of a request makes the server answer; bytes behind the request stay in the buffer.\<close>

lemma http_receive_last:
  assumes "live c" "kernel_ok k" "peer_stays k" "\<forall>req. length (resp_body (answer cb req)) < 10 ^ 13"
    and "parse_text (untimed ctx) (readable (inputBuffer c) @ w) = Some (True, d, s)" "gotAll d"
  shows "\<exists>c' ctx1. http_receive cb k t w \<lparr>hcontext = Some ctx, hconn = c\<rparr> = Some \<lparr>hcontext = Some HttpContext_new, hconn = c'\<rparr> \<and>
    untimed ctx1 = d \<and> answered (answer cb (request ctx1)) c c' \<and> readable (inputBuffer c') = s"
proof -
  obtain ctx1 c1 where c1: "untimed ctx1 = d" "live c1" "accepted c1 = accepted c" "readable (inputBuffer c1) = s"
    and rec: "http_receive cb k t w \<lparr>hcontext = Some ctx, hconn = c\<rparr> =
      do { c3 \<leftarrow> onRequest cb k (request ctx1) c1; Some \<lparr>hcontext = Some HttpContext_new, hconn = c3\<rparr> }"
    using http_receive_parsed [OF assms(1,5), of cb k t] assms(6) by auto
  obtain c' where "onRequest cb k (request ctx1) c1 = Some c'" "answered (answer cb (request ctx1)) c1 c'"
      "inputBuffer c' = inputBuffer c1"
    using onRequest_ok [OF c1(2) assms(2,3), of cb "request ctx1"] assms(4) by auto
  then show ?thesis using rec c1 by (auto simp: answered_def)
qed

lemma http_receives_whole:
  assumes "ws \<noteq> []" "\<forall>(t, w) \<in> set ws. w \<noteq> []" "live c" "kernel_ok k" "peer_stays k"
    and "\<forall>req. length (resp_body (answer cb req)) < 10 ^ 13"
    and "parse_text (untimed ctx) (readable (inputBuffer c) @ concat (map snd ws)) = Some (True, d, [])" "gotAll d"
  shows "\<exists>c' ctx1. http_receives cb k ws \<lparr>hcontext = Some ctx, hconn = c\<rparr> = Some \<lparr>hcontext = Some HttpContext_new, hconn = c'\<rparr> \<and>
    untimed ctx1 = d \<and> answered (answer cb (request ctx1)) c c' \<and> readable (inputBuffer c') = []"
  using assms(1-3,7)
proof (induction ws arbitrary: c ctx)
  case (Cons tw ws)
  obtain t w where tw: "tw = (t, w)" by (cases tw)
  show ?case
    using first_piece [OF Cons.prems(2) [unfolded tw] assms(8) Cons.prems(4) [unfolded tw]]
  proof (elim disjE conjE exE)
    assume "ws = []" "parse_text (untimed ctx) (readable (inputBuffer c) @ w) = Some (True, d, [])"
    then show ?thesis
      using http_receive_last [OF Cons.prems(3) assms(4-6) _ assms(8), of ctx w "[]" t] tw by auto
  next
    fix d1 s1
    assume ne: "ws \<noteq> []" and first: "parse_text (untimed ctx) (readable (inputBuffer c) @ w) = Some (True, d1, s1)" "\<not> gotAll d1"
      and more: "parse_text d1 (s1 @ concat (map snd ws)) = Some (True, d, [])"
    obtain ctx1 c1 where c1: "untimed ctx1 = d1" "live c1" "accepted c1 = accepted c" "readable (inputBuffer c1) = s1"
        "http_receive cb k t w \<lparr>hcontext = Some ctx, hconn = c\<rparr> = Some \<lparr>hcontext = Some ctx1, hconn = c1\<rparr>"
      using http_receive_parsed [OF Cons.prems(3) first(1), of cb k t] first(2) by auto
    then show ?thesis
      using Cons.IH [of c1 ctx1] Cons.prems(2) ne more tw by (auto simp: answered_def)
  qed
qed simp

text \<open>
  C6. The server answers. A request that arrives on a connected connection in any non-empty pieces, while the peer
  stays, makes the server hand to the connection exactly the text of the response that the callback gives for the
  request; it then closes its side if the response says so, and otherwise stands as before the request, with an
  empty input buffer and a new context, ready for the next one.
\<close>

theorem http_server_answers:
  assumes "live c" "readable (inputBuffer c) = []" "kernel_ok k" "peer_stays k"
    and "\<forall>req. length (resp_body (answer cb req)) < 10 ^ 13"
    and "m \<noteq> kInvalid" "v \<noteq> kUnknown" "sendable_target p q" "\<forall>h \<in> set hs. sendable_header h"
    and "concat (map snd ws) = print_request m p q v hs" "\<forall>(t, w) \<in> set ws. w \<noteq> []"
  shows "\<exists>c' req. http_receives cb k ws \<lparr>hcontext = Some HttpContext_new, hconn = c\<rparr> =
      Some \<lparr>hcontext = Some HttpContext_new, hconn = c'\<rparr> \<and>
    carries req m p q v hs \<and> answered (answer cb req) c c' \<and> readable (inputBuffer c') = []"
proof -
  obtain d where d: "parse_text HttpContext_new (print_request m p q v hs) = Some (True, d, [])" "gotAll d"
      "carries (request d) m p q v hs"
    using parse_text_print_request [OF assms(6-9)] by blast
  have "ws \<noteq> []"
    using assms(10) by (auto simp: print_request_def kCRLF_def)
  then obtain c' ctx1 where "http_receives cb k ws \<lparr>hcontext = Some HttpContext_new, hconn = c\<rparr> =
      Some \<lparr>hcontext = Some HttpContext_new, hconn = c'\<rparr>" "untimed ctx1 = d" "answered (answer cb (request ctx1)) c c'"
      "readable (inputBuffer c') = []"
    using http_receives_whole [OF _ assms(11,1,3-5), of HttpContext_new d] assms(2,10) d(1,2) by auto
  then show ?thesis
    using d(3) carries_request [of ctx1 d] by (intro exI [of _ c'] exI [of _ "request ctx1"]) simp
qed

lemma idle_live: "\<exists>c. live c \<and> readable (inputBuffer c) = [] \<and> accepted c = []"
  using idle_connected reachable_conn_inv unfolding live_def by blast

lemma full_socket_stays: "peer_stays full_socket"
  by (simp add: peer_stays_def full_socket_def EPIPE_def EWOULDBLOCK_def)

theorem http_server_answers_witness:
  "\<exists>c c'. http_receives defaultHttpCallback full_socket [(1, ''GET / HTT''), (2, ''P/1.1'' @ kCRLF @ kCRLF)]
      \<lparr>hcontext = Some HttpContext_new, hconn = c\<rparr> = Some \<lparr>hcontext = Some HttpContext_new, hconn = c'\<rparr> \<and>
    accepted c' = ''HTTP/1.1 404 Not Found'' @ kCRLF @ ''Connection: close'' @ kCRLF @ kCRLF \<and> cstate c' = kDisconnecting"
proof -
  obtain c where c: "live c" "readable (inputBuffer c) = []" "accepted c = []" using idle_live by blast
  have body: "\<forall>req. length (resp_body (answer defaultHttpCallback req)) < 10 ^ 13"
    by (simp add: answer_def defaultHttpCallback_def HttpResponse_new_def setCloseConnection_def setStatusMessage_def setStatusCode_def)
  have resp: "response_text (answer defaultHttpCallback req) = ''HTTP/1.1 404 Not Found'' @ kCRLF @ ''Connection: close'' @ kCRLF @ kCRLF"
    "closeConnection (answer defaultHttpCallback req)" for req
    by (simp_all add: answer_def defaultHttpCallback_def HttpResponse_new_def setCloseConnection_def setStatusMessage_def
        setStatusCode_def response_text_def print_headers_simps print_nat.simps digit_chars)
  have "concat (map snd [(1, ''GET / HTT''), (2, ''P/1.1'' @ kCRLF @ kCRLF)]) = print_request kGet ''/'' [] kHttp11 []"
    by (simp add: print_request_def print_headers_def)
  moreover have "sendable_target ''/'' []" by (simp add: sendable_target_def)
  moreover have "\<forall>(t, w) \<in> set [(1, ''GET / HTT''), (2, ''P/1.1'' @ kCRLF @ kCRLF)]. w \<noteq> []" by simp
  ultimately show ?thesis
    using http_server_answers [OF c(1,2) sockets_ok(1) full_socket_stays body, of kGet kHttp11 "''/''" "[]" "[]"
        "[(1, ''GET / HTT''), (2, ''P/1.1'' @ kCRLF @ kCRLF)]"] resp c(3)
    by (auto simp: answered_def)
qed

text \<open>A line with a known method and an unsupported version: the parser fails, keeps the line and has set the method.\<close>

lemma bad_version_parse:
  assumes "m \<noteq> kInvalid" "CHR '' '' \<notin> set p" "CHR 0x0D \<notin> set p \<union> set v" "v \<notin> {''HTTP/1.0'', ''HTTP/1.1''}"
  shows "\<exists>d. parse_text HttpContext_new (methodString m @ '' '' @ p @ '' '' @ v @ kCRLF) =
      Some (False, d, methodString m @ '' '' @ p @ '' '' @ v @ kCRLF) \<and> pstate d = kExpectRequestLine \<and>
    (\<forall>w. parse_text d ((methodString m @ '' '' @ p @ '' '' @ v @ kCRLF) @ w) = None)"
proof -
  let ?l = "methodString m @ '' '' @ p @ '' '' @ v"
  have m: "CHR '' '' \<notin> set (methodString m)" "method_of_text (methodString m) = m" "CHR 0x0D \<notin> set (methodString m)"
    using assms(1) by (cases m; simp add: method_of_text_def)+
  have sp: "std_find (CHR '' '') ?l = length (methodString m)" "std_find (CHR '' '') (p @ '' '' @ v) = length p"
    using std_find_append [OF m(1), of "p @ '' '' @ v"] std_find_append [OF assms(2), of v] by simp_all
  have "butlast v @ [last v] = v" if "length v = 8" using that by (intro append_butlast_last_id) auto
  then have v: "set_version v r = (False, r)" for r
    using assms(4) by (auto simp: set_version_def)
  define d where "d = HttpContext_new\<lparr>request := set_target p (HttpRequest_new\<lparr>req_method := m\<rparr>)\<rparr>"
  have d: "pstate d = kExpectRequestLine" "req_method (request d) = m"
    by (simp_all add: d_def HttpContext_new_def set_target_def Let_def)
  have line: "split_line ((?l @ kCRLF) @ w) = Some (?l, w)" for w
    using split_line_whole [of ?l w] assms(3) m(3) by auto
  have "processRequestLine ?l HttpRequest_new = Some (False, set_target p (HttpRequest_new\<lparr>req_method := m\<rparr>))"
    using sp v m assms(1) by (simp add: processRequestLine_def setMethod_def HttpRequest_new_def)
  then have "parse_text HttpContext_new (?l @ kCRLF) = Some (False, d, ?l @ kCRLF)"
    using line [of "[]"] by (subst parse_text.simps) (simp add: HttpContext_new_def d_def)
  moreover have "processRequestLine ?l (request d) = None"
    using sp assms(1) d(2) by (simp add: processRequestLine_def setMethod_def)
  then have "parse_text d ((?l @ kCRLF) @ w) = None" for w
    using line [of w] d(1) by (subst parse_text.simps) simp
  ultimately show ?thesis
    using d(1) by (intro exI [of _ d]) simp
qed

text \<open>
  C39. An unsupported version can end the server. After a request line with a known method and a version other than
  1.0 and 1.1 the server sends the error and shuts down its side, but it keeps reading, with the line still in the
  buffer and the method still set: whatever bytes come next, the assertion in \<^verbatim>\<open>setMethod\<close> fails.
\<close>

theorem bad_version_aborts:
  assumes "live c" "readable (inputBuffer c) = []" "kernel_ok k" "peer_stays k"
    and "m \<noteq> kInvalid" "CHR '' '' \<notin> set p" "CHR 0x0D \<notin> set p \<union> set v" "v \<notin> {''HTTP/1.0'', ''HTTP/1.1''}"
  shows "\<exists>s. http_receive cb k t (methodString m @ '' '' @ p @ '' '' @ v @ kCRLF) \<lparr>hcontext = Some HttpContext_new, hconn = c\<rparr> = Some s \<and>
      accepted (hconn s) = accepted c @ bad_request \<and> cstate (hconn s) = kDisconnecting \<and>
      (\<forall>t w. http_receive cb k t w s = None)"
proof -
  let ?l = "methodString m @ '' '' @ p @ '' '' @ v @ kCRLF"
  obtain d where d: "parse_text HttpContext_new ?l = Some (False, d, ?l)" "pstate d = kExpectRequestLine"
      "\<forall>w. parse_text d (?l @ w) = None"
    using bad_version_parse [OF assms(5-8)] by blast
  obtain ctx1 c1 where c1: "untimed ctx1 = d" "live c1" "accepted c1 = accepted c" "readable (inputBuffer c1) = ?l"
    and rec: "http_receive cb k t ?l \<lparr>hcontext = Some HttpContext_new, hconn = c\<rparr> =
      do { c' \<leftarrow> send k True bad_request c1; Some \<lparr>hcontext = Some ctx1, hconn = shutdown True c'\<rparr> }"
    using http_receive_parsed [OF assms(1), of HttpContext_new ?l False d ?l cb k t] assms(2) d(1,2)
    by (auto simp: gotAll_def)
  obtain c2 where c2: "sendInLoop k bad_request c1 = Some c2" "live c2" "accepted c2 = accepted c1 @ bad_request"
      "inputBuffer c2 = inputBuffer c1"
    using live_send [OF c1(2) assms(3,4)] by blast
  have inv: "buffer_inv (inputBuffer c1)" using c1(2) by (simp add: live_def conn_inv_def data_inv_def)
  have "http_receive cb k t w \<lparr>hcontext = Some ctx1, hconn = shutdown True c2\<rparr> = None" for t w
  proof -
    obtain b where b: "readFd (inputBuffer c1) (ReadvData w) = Some (b, int (length w), None)" "buffer_inv b" "readable b = ?l @ w"
      using readFd_ok [OF inv, of w] c1(4) by auto
    have "pstate ctx1 = kExpectRequestLine"
      using c1(1) d(2) by (metis untimed_simps(1))
    then have "parseRequest t ctx1 b = None"
      using parseRequest_refines [OF b(2), of ctx1 t] c1(1) d(3) b(3) by (simp add: option_rel_Some2)
    then show ?thesis
      using b(1) c2(4) by (simp add: http_receive_def http_onMessage_def Let_def)
  qed
  then show ?thesis
    using rec c1 c2 by (auto simp: send_def live_def)
qed

theorem bad_version_aborts_witness:
  "\<exists>c s. http_receive defaultHttpCallback full_socket 1 (''GET / HTTP/2.0'' @ kCRLF) \<lparr>hcontext = Some HttpContext_new, hconn = c\<rparr> = Some s \<and>
     accepted (hconn s) = bad_request \<and> http_receive defaultHttpCallback full_socket 2 ''x'' s = None"
proof -
  obtain c where c: "live c" "readable (inputBuffer c) = []" "accepted c = []" using idle_live by blast
  show ?thesis
    using bad_version_aborts [OF c(1,2) sockets_ok(1) full_socket_stays, of kGet "''/''" "''HTTP/2.0''" defaultHttpCallback 1] c(3)
    by auto
qed

text \<open>
  Requests that arrive together are not all answered. When the bytes of one piece hold a request and more, the
  server answers the request and stops; the rest, be it another complete request, stays in the input buffer and is
  not looked at before other bytes arrive.
\<close>

theorem pipelined_request_waits:
  assumes "live c" "readable (inputBuffer c) = []" "kernel_ok k" "peer_stays k"
    and "\<forall>req. length (resp_body (answer cb req)) < 10 ^ 13"
    and "m \<noteq> kInvalid" "v \<noteq> kUnknown" "sendable_target p q" "\<forall>h \<in> set hs. sendable_header h"
  shows "\<exists>c' req. http_receive cb k t (print_request m p q v hs @ rest) \<lparr>hcontext = Some HttpContext_new, hconn = c\<rparr> =
      Some \<lparr>hcontext = Some HttpContext_new, hconn = c'\<rparr> \<and>
      carries req m p q v hs \<and> answered (answer cb req) c c' \<and> readable (inputBuffer c') = rest"
proof -
  obtain d where d: "parse_text HttpContext_new (print_request m p q v hs) = Some (True, d, [])" "gotAll d"
      "carries (request d) m p q v hs"
    using parse_text_print_request [OF assms(6-9)] by blast
  then have "parse_text HttpContext_new (print_request m p q v hs @ rest) = Some (True, d, rest)"
    by (simp add: parse_text_append)
  then obtain c' ctx1 where "http_receive cb k t (print_request m p q v hs @ rest) \<lparr>hcontext = Some HttpContext_new, hconn = c\<rparr> =
      Some \<lparr>hcontext = Some HttpContext_new, hconn = c'\<rparr>" "untimed ctx1 = d" "answered (answer cb (request ctx1)) c c'"
      "readable (inputBuffer c') = rest"
    using http_receive_last [OF assms(1,3-5), of HttpContext_new "print_request m p q v hs @ rest" d rest t] assms(2) d(2)
    by auto
  then show ?thesis
    using d(3) carries_request [of ctx1 d] by (intro exI [of _ c'] exI [of _ "request ctx1"]) simp
qed

theorem pipelined_request_waits_witness:
  "let r = ''GET / HTTP/1.1'' @ kCRLF @ kCRLF
   in \<exists>c c'. http_receive defaultHttpCallback full_socket 1 (r @ r) \<lparr>hcontext = Some HttpContext_new, hconn = c\<rparr> =
      Some \<lparr>hcontext = Some HttpContext_new, hconn = c'\<rparr> \<and> readable (inputBuffer c') = r"
proof -
  obtain c where c: "live c" "readable (inputBuffer c) = []" "accepted c = []" using idle_live by blast
  have body: "\<forall>req. length (resp_body (answer defaultHttpCallback req)) < 10 ^ 13"
    by (simp add: answer_def defaultHttpCallback_def HttpResponse_new_def setCloseConnection_def setStatusMessage_def setStatusCode_def)
  have "print_request kGet ''/'' [] kHttp11 [] = ''GET / HTTP/1.1'' @ kCRLF @ kCRLF"
    by (simp add: print_request_def print_headers_def)
  moreover have "sendable_target ''/'' []" by (simp add: sendable_target_def)
  ultimately show ?thesis
    using pipelined_request_waits [OF c(1,2) sockets_ok(1) full_socket_stays body, of kGet kHttp11 "''/''" "[]" "[]" 1
        "''GET / HTTP/1.1'' @ kCRLF @ kCRLF"]
    by (auto simp: Let_def)
qed

end
