(* ===== verification/Net_Connector.thy ===== *)
theory Net_Connector
  imports Net_Poller Net_Socket "HOL-Library.Multiset"
begin

unbundle bit_operations_syntax

text \<open>
  The connector (\<^verbatim>\<open>muduo/net/Connector.h\<close>, \<^verbatim>\<open>Connector.cc\<close> of the annotated library): it makes connections on behalf of
  a client and tries again with growing delays. Its channel is the abstract channel of the poller contract, with
  its descriptor. The loop is the queue of the functors and the list of the retry timers that the connector has in
  it. The results of \<^verbatim>\<open>socket\<close> and \<^verbatim>\<open>connect\<close> are an argument \<open>net\<close>, the descriptor and \<open>errno\<close> (0 for success); so are
  \<^verbatim>\<open>SO_ERROR\<close> and the two addresses of the socket. Four fields are history: the descriptors created, closed and
  handed to the callback, and the delays since the last restart.
\<close>

definition EINPROGRESS :: int where "EINPROGRESS = 115"
definition EISCONN :: int where "EISCONN = 106"
definition EADDRINUSE :: int where "EADDRINUSE = 98"
definition EADDRNOTAVAIL :: int where "EADDRNOTAVAIL = 99"
definition ECONNREFUSED :: int where "ECONNREFUSED = 111"
definition ENETUNREACH :: int where "ENETUNREACH = 101"

datatype connector_state = CDisconnected | CConnecting | CConnected

datatype connector_functor = StartInLoop | StopInLoop | ResetChannel

definition kMaxRetryDelayMs :: nat where "kMaxRetryDelayMs = 30 * 1000"
definition kInitRetryDelayMs :: nat where "kInitRetryDelayMs = 500"

record connector =
  wantConnect :: bool
  cn_state :: connector_state
  cn_channel :: "(int \<times> 32 word \<times> bool) option"
  retryDelayMs :: nat
  cn_functors :: "connector_functor list"
  cn_timers :: "nat list"
  created :: "int list"
  closed :: "int list"
  handed :: "int list"
  delays :: "nat list"

type_synonym net_result = "int \<times> int"

definition Connector_new :: connector where
  "Connector_new = \<lparr>wantConnect = False, cn_state = CDisconnected, cn_channel = None, retryDelayMs = kInitRetryDelayMs,
     cn_functors = [], cn_timers = [], created = [], closed = [], handed = [], delays = []\<rparr>"

text \<open>The destructor asserts that there is no channel.\<close>

definition Connector_delete :: "connector \<Rightarrow> unit option" where
  "Connector_delete c = check (cn_channel c = None)"

definition queue_in_loop :: "connector_functor \<Rightarrow> connector \<Rightarrow> connector" where
  "queue_in_loop f c = c\<lparr>cn_functors := cn_functors c @ [f]\<rparr>"

definition on_cn_channel :: "(nat \<Rightarrow> chan_op) \<Rightarrow> int \<times> 32 word \<times> bool \<Rightarrow> (int \<times> 32 word \<times> bool) option" where
  "on_cn_channel op = (\<lambda>(sockfd, m, r).
     do {
       a \<leftarrow> spec_step (op 0) [0 \<mapsto> (m, r)];
       mr \<leftarrow> a 0;
       Some (sockfd, mr)
     })"

definition retry :: "int \<Rightarrow> connector \<Rightarrow> connector" where
  "retry sockfd c =
     (let c1 = c\<lparr>closed := closed c @ [sockfd], cn_state := CDisconnected\<rparr>
      in if wantConnect c1
         then c1\<lparr>cn_timers := cn_timers c1 @ [retryDelayMs c1], delays := delays c1 @ [retryDelayMs c1],
                retryDelayMs := min (retryDelayMs c1 * 2) kMaxRetryDelayMs\<rparr>
         else c1)"

definition connecting :: "int \<Rightarrow> connector \<Rightarrow> connector option" where
  "connecting sockfd c =
     do {
       let c1 = c\<lparr>cn_state := CConnecting\<rparr>;
       check (cn_channel c1 = None);
       ch \<leftarrow> on_cn_channel (Change EnableWriting) (sockfd, kNoneEvent, False);
       Some (c1\<lparr>cn_channel := Some ch\<rparr>)
     }"

text \<open>Errors for which \<^verbatim>\<open>connect\<close> gives up, those listed and all others, only close the socket.\<close>

definition connect :: "net_result \<Rightarrow> connector \<Rightarrow> connector option" where
  "connect net c =
     do {
       sockfd \<leftarrow> createNonblockingOrDie (fst net);
       let c1 = c\<lparr>created := created c @ [sockfd]\<rparr>;
       let savedErrno = snd net;
       if savedErrno \<in> {0, EINPROGRESS, EINTR, EISCONN} then connecting sockfd c1
       else if savedErrno \<in> {EAGAIN, EADDRINUSE, EADDRNOTAVAIL, ECONNREFUSED, ENETUNREACH}
       then Some (retry sockfd c1)
       else Some (c1\<lparr>closed := closed c1 @ [sockfd]\<rparr>)
     }"

definition startInLoop :: "net_result \<Rightarrow> connector \<Rightarrow> connector option" where
  "startInLoop net c =
     do {
       check (cn_state c = CDisconnected);
       if wantConnect c then connect net c else Some c
     }"

definition Connector_start :: "bool \<Rightarrow> net_result \<Rightarrow> connector \<Rightarrow> connector option" where
  "Connector_start inLoop net c =
     (let c1 = c\<lparr>wantConnect := True\<rparr>
      in if inLoop then startInLoop net c1 else Some (queue_in_loop StartInLoop c1))"

definition removeAndResetChannel :: "connector \<Rightarrow> (int \<times> connector) option" where
  "removeAndResetChannel c =
     do {
       ch \<leftarrow> cn_channel c;
       ch1 \<leftarrow> on_cn_channel (Change DisableAll) ch;
       ch2 \<leftarrow> on_cn_channel Remove ch1;
       Some (fst ch2, queue_in_loop ResetChannel (c\<lparr>cn_channel := Some ch2\<rparr>))
     }"

definition resetChannel :: "connector \<Rightarrow> connector" where
  "resetChannel c = c\<lparr>cn_channel := None\<rparr>"

definition Connector_stop :: "connector \<Rightarrow> connector" where
  "Connector_stop c = queue_in_loop StopInLoop (c\<lparr>wantConnect := False\<rparr>)"

definition stopInLoop :: "connector \<Rightarrow> connector option" where
  "stopInLoop c =
     (if cn_state c = CConnecting
      then do {
        (sockfd, c1) \<leftarrow> removeAndResetChannel (c\<lparr>cn_state := CDisconnected\<rparr>);
        Some (retry sockfd c1)
      }
      else Some c)"

definition Connector_restart :: "net_result \<Rightarrow> connector \<Rightarrow> connector option" where
  "Connector_restart net c =
     startInLoop net (c\<lparr>cn_state := CDisconnected, retryDelayMs := kInitRetryDelayMs, wantConnect := True, delays := []\<rparr>)"

definition cn_handleWrite :: "int + int \<Rightarrow> sockaddr_in option \<Rightarrow> sockaddr_in option \<Rightarrow> connector \<Rightarrow> connector option" where
  "cn_handleWrite so_error sockname peername c =
     (if cn_state c = CConnecting
      then do {
        (sockfd, c1) \<leftarrow> removeAndResetChannel c;
        Some (if getSocketError so_error \<noteq> 0 then retry sockfd c1
              else if isSelfConnect sockname peername then retry sockfd c1
              else let c2 = c1\<lparr>cn_state := CConnected\<rparr>
                   in if wantConnect c2 then c2\<lparr>handed := handed c2 @ [sockfd]\<rparr>
                      else c2\<lparr>closed := closed c2 @ [sockfd]\<rparr>)
      }
      else do { check (cn_state c = CDisconnected); Some c })"

definition cn_handleError :: "connector \<Rightarrow> connector option" where
  "cn_handleError c =
     (if cn_state c = CConnecting
      then do {
        (sockfd, c1) \<leftarrow> removeAndResetChannel c;
        Some (retry sockfd c1)
      }
      else Some c)"

section \<open>The connector in its loop\<close>

text \<open>A report of the poller calls the two handlers the channel has, in the order of \<^const>\<open>handleEventWithGuard\<close>.\<close>

datatype cn_handler = CnWrite | CnError

definition cn_event_channel :: "32 word \<Rightarrow> cn_handler channel" where
  "cn_event_channel r = set_revents (setErrorCallback (setWriteCallback (Channel_new 0 0) CnWrite) CnError) r"

fun cn_calls :: "int + int \<Rightarrow> sockaddr_in option \<Rightarrow> sockaddr_in option \<Rightarrow> cn_handler call list \<Rightarrow> connector \<Rightarrow> connector option" where
  "cn_calls e s p [] c = Some c"
| "cn_calls e s p (CallWrite h # xs) c = do { c1 \<leftarrow> cn_handleWrite e s p c; cn_calls e s p xs c1 }"
| "cn_calls e s p (CallError h # xs) c = do { c1 \<leftarrow> cn_handleError c; cn_calls e s p xs c1 }"
| "cn_calls e s p (_ # xs) c = cn_calls e s p xs c"

fun run_cn_functor :: "net_result \<Rightarrow> connector_functor \<Rightarrow> connector \<Rightarrow> connector option" where
  "run_cn_functor net StartInLoop c = startInLoop net c"
| "run_cn_functor net StopInLoop c = stopInLoop c"
| "run_cn_functor net ResetChannel c = Some (resetChannel c)"

datatype cn_op = CnStart bool net_result | CnStop | CnRestart net_result | CnFunctor net_result | CnTimer net_result
  | CnEvent "32 word" "int + int" "sockaddr_in option" "sockaddr_in option"

fun cn_step :: "cn_op \<Rightarrow> connector \<Rightarrow> connector option" where
  "cn_step (CnStart inLoop net) c = Connector_start inLoop net c"
| "cn_step CnStop c = Some (Connector_stop c)"
| "cn_step (CnRestart net) c = Connector_restart net c"
| "cn_step (CnFunctor net) c =
     (case cn_functors c of [] \<Rightarrow> Some c | f # fs \<Rightarrow> run_cn_functor net f (c\<lparr>cn_functors := fs\<rparr>))"
| "cn_step (CnTimer net) c =
     (case cn_timers c of [] \<Rightarrow> Some c | d # ds \<Rightarrow> startInLoop net (c\<lparr>cn_timers := ds\<rparr>))"
| "cn_step (CnEvent r e s p) c = cn_calls e s p (handleEventWithGuard (cn_event_channel r) 0) c"

text \<open>The attempts that are scheduled but not yet made.\<close>

definition pending_starts :: "connector \<Rightarrow> nat" where
  "pending_starts c = length (cn_timers c) + count_list (cn_functors c) StartInLoop"

text \<open>
  When the operations can happen. A client starts the connector only when nothing is scheduled or in progress, and
  restarts it only after it got a connection. A timer fires at least half a second after it was set, so the
  functor that clears the channel, queued in the same turn of the loop, has run before. The poller reports events
  of a registered channel. Running out of descriptors ends the program by design.
\<close>

definition idle_channel :: "connector \<Rightarrow> bool" where
  "idle_channel c \<longleftrightarrow> ResetChannel \<notin> set (cn_functors c)"

fun cn_enabled :: "cn_op \<Rightarrow> connector \<Rightarrow> bool" where
  "cn_enabled (CnStart inLoop net) c \<longleftrightarrow> fst net \<ge> 0 \<and> cn_state c = CDisconnected \<and> pending_starts c = 0 \<and> idle_channel c"
| "cn_enabled CnStop c \<longleftrightarrow> True"
| "cn_enabled (CnRestart net) c \<longleftrightarrow> fst net \<ge> 0 \<and> cn_state c = CConnected \<and> idle_channel c"
| "cn_enabled (CnFunctor net) c \<longleftrightarrow> fst net \<ge> 0"
| "cn_enabled (CnTimer net) c \<longleftrightarrow> fst net \<ge> 0 \<and> idle_channel c"
| "cn_enabled (CnEvent r e s p) c \<longleftrightarrow> (\<exists>sockfd m. cn_channel c = Some (sockfd, m, True))"

inductive cn_reachable :: "connector \<Rightarrow> bool" where
  new: "cn_reachable Connector_new"
| step: "cn_reachable c \<Longrightarrow> cn_enabled op c \<Longrightarrow> cn_step op c = Some c' \<Longrightarrow> cn_reachable c'"

section \<open>The invariant\<close>

definition backoff :: "nat \<Rightarrow> nat" where
  "backoff k = min (kInitRetryDelayMs * 2 ^ k) kMaxRetryDelayMs"

definition delay_inv :: "connector \<Rightarrow> bool" where
  "delay_inv c \<longleftrightarrow> delays c = map backoff [0..<length (delays c)] \<and> retryDelayMs c = backoff (length (delays c))"

text \<open>A channel that is not watched waits to be cleared; once it is cleared there is none.\<close>

definition unwatched :: "connector \<Rightarrow> bool" where
  "unwatched c \<longleftrightarrow> (cn_channel c = None \<longleftrightarrow> idle_channel c) \<and> count_list (cn_functors c) ResetChannel \<le> 1 \<and>
     (\<forall>sockfd m r. cn_channel c = Some (sockfd, m, r) \<longrightarrow> \<not> r)"

definition cn_inv :: "connector \<Rightarrow> bool" where
  "cn_inv c \<longleftrightarrow> delay_inv c \<and> pending_starts c \<le> 1 \<and>
     (cn_state c \<noteq> CDisconnected \<longrightarrow> pending_starts c = 0) \<and>
     (StartInLoop \<in> set (cn_functors c) \<longrightarrow> idle_channel c) \<and>
     (if cn_state c = CConnecting
      then idle_channel c \<and> (\<exists>sockfd m. cn_channel c = Some (sockfd, m, True) \<and>
        mset (created c) = mset (closed c) + mset (handed c) + {#sockfd#})
      else unwatched c \<and> mset (created c) = mset (closed c) + mset (handed c))"

text \<open>Between two steps of an operation the connector holds a socket that nobody watches.\<close>

definition holding :: "int \<Rightarrow> connector \<Rightarrow> bool" where
  "holding sockfd c \<longleftrightarrow> delay_inv c \<and> pending_starts c = 0 \<and> unwatched c \<and>
     mset (created c) = mset (closed c) + mset (handed c) + {#sockfd#}"

lemma backoff_Suc: "min (backoff k * 2) kMaxRetryDelayMs = backoff (Suc k)"
  by (simp add: backoff_def min_def)

lemma no_start_pending: "pending_starts c = 0 \<Longrightarrow> StartInLoop \<notin> set (cn_functors c)"
  by (auto simp: pending_starts_def count_list_0_iff)

lemmas cn_defs = cn_inv_def unwatched_def delay_inv_def pending_starts_def idle_channel_def

lemma retry_inv: "holding sockfd c \<Longrightarrow> cn_inv (retry sockfd c)"
  using no_start_pending [of c] by (auto simp: holding_def retry_def Let_def cn_defs backoff_Suc)

lemma closed_inv: "holding sockfd c \<Longrightarrow> st \<noteq> CConnecting \<Longrightarrow> cn_inv (c\<lparr>cn_state := st, closed := closed c @ [sockfd]\<rparr>)"
  using no_start_pending [of c] by (auto simp: holding_def cn_defs)

lemma handed_inv: "holding sockfd c \<Longrightarrow> cn_inv (c\<lparr>cn_state := CConnected, handed := handed c @ [sockfd]\<rparr>)"
  using no_start_pending [of c] by (auto simp: holding_def cn_defs)

lemma connecting_ok:
  assumes "holding sockfd c" "idle_channel c"
  shows "\<exists>c'. connecting sockfd c = Some c' \<and> cn_inv c'"
  using assms no_start_pending [of c] by (auto simp: connecting_def on_cn_channel_def holding_def cn_defs)

lemma startInLoop_ok:
  assumes "cn_inv c" "cn_state c = CDisconnected" "pending_starts c = 0" "idle_channel c" "fst net \<ge> 0"
  shows "\<exists>c'. startInLoop net c = Some c' \<and> cn_inv c'"
proof -
  let ?c = "c\<lparr>created := created c @ [fst net]\<rparr>"
  have h: "holding (fst net) ?c" "idle_channel ?c" "cn_state ?c = CDisconnected"
    using assms by (auto simp: holding_def cn_defs)
  have "?c\<lparr>closed := closed c @ [fst net]\<rparr> = ?c\<lparr>cn_state := CDisconnected, closed := closed ?c @ [fst net]\<rparr>"
    using h(3) by simp
  then have "cn_inv (?c\<lparr>closed := closed c @ [fst net]\<rparr>)"
    using closed_inv [OF h(1), of CDisconnected] by simp
  then show ?thesis
    using assms connecting_ok [OF h(1,2)] retry_inv [OF h(1)]
    by (auto simp: startInLoop_def connect_def createNonblockingOrDie_def Let_def)
qed

lemma removeAndResetChannel_ok:
  assumes "cn_inv c" "cn_state c = CConnecting"
  shows "\<exists>sockfd c'. removeAndResetChannel (c\<lparr>cn_state := st\<rparr>) = Some (sockfd, c') \<and> holding sockfd c' \<and> cn_state c' = st"
  using assms by (auto simp: removeAndResetChannel_def on_cn_channel_def queue_in_loop_def holding_def cn_defs count_list_0_iff)

lemma stopInLoop_ok: "cn_inv c \<Longrightarrow> \<exists>c'. stopInLoop c = Some c' \<and> cn_inv c'"
  using removeAndResetChannel_ok [of c CDisconnected] retry_inv by (fastforce simp: stopInLoop_def)

lemma removeAndResetChannel_ok':
  assumes "cn_inv c" "cn_state c = CConnecting"
  shows "\<exists>sockfd c'. removeAndResetChannel c = Some (sockfd, c') \<and> holding sockfd c' \<and> cn_state c' = CConnecting"
proof -
  have "c\<lparr>cn_state := CConnecting\<rparr> = c" using assms(2) by (cases c) simp
  then show ?thesis using removeAndResetChannel_ok [OF assms, of CConnecting] by simp
qed

lemma cn_handleError_ok:
  assumes "cn_inv c"
  shows "\<exists>c'. cn_handleError c = Some c' \<and> cn_inv c' \<and> (cn_state c = CConnecting \<longrightarrow> cn_state c' = CDisconnected)"
proof (cases "cn_state c = CConnecting")
  case True
  then obtain sockfd c1 where "removeAndResetChannel c = Some (sockfd, c1)" "holding sockfd c1"
    using removeAndResetChannel_ok' [OF assms] by blast
  moreover have "cn_state (retry sockfd c1) = CDisconnected" by (simp add: retry_def Let_def)
  ultimately show ?thesis using True retry_inv by (simp add: cn_handleError_def)
qed (use assms in \<open>simp add: cn_handleError_def\<close>)

lemma cn_handleWrite_ok:
  assumes "cn_inv c" "cn_state c \<noteq> CConnected"
  shows "\<exists>c'. cn_handleWrite e s p c = Some c' \<and> cn_inv c'"
proof (cases "cn_state c = CConnecting")
  case True
  then obtain sockfd c1 where "removeAndResetChannel c = Some (sockfd, c1)" "holding sockfd c1"
    using removeAndResetChannel_ok' [OF assms(1)] by blast
  then show ?thesis
    using True retry_inv closed_inv [of sockfd c1 CConnected] handed_inv [of sockfd c1]
    by (auto simp: cn_handleWrite_def Let_def)
next
  case False
  then have "cn_state c = CDisconnected" using assms(2) by (cases "cn_state c") auto
  then show ?thesis using assms(1) by (simp add: cn_handleWrite_def)
qed

lemma cn_event_calls:
  "handleEventWithGuard (cn_event_channel r) t =
     (if r AND (POLLERR OR POLLNVAL) \<noteq> 0 then [CallError CnError] else []) @
     (if r AND POLLOUT \<noteq> 0 then [CallWrite CnWrite] else [])"
  by (simp add: handleEventWithGuard_def cn_event_channel_def set_revents_def setWriteCallback_def
      setErrorCallback_def opt_call_def Channel_new_def)

lemma cn_event_ok:
  assumes "cn_inv c" "cn_channel c = Some (sockfd, m, True)"
  shows "\<exists>c'. cn_step (CnEvent r e s p) c = Some c' \<and> cn_inv c'"
proof -
  have st: "cn_state c = CConnecting" using assms by (auto simp: cn_inv_def unwatched_def split: if_splits)
  obtain c1 where c1: "cn_handleError c = Some c1" "cn_inv c1" "cn_state c1 = CDisconnected"
    using cn_handleError_ok [OF assms(1)] st by auto
  show ?thesis
    using cn_handleWrite_ok [OF assms(1), of e s p] cn_handleWrite_ok [OF c1(2), of e s p] c1 st assms(1)
    by (auto simp: cn_event_calls)
qed

lemma run_cn_functor_ok:
  assumes c: "cn_inv c" and f: "cn_functors c = f # fs" and net: "fst net \<ge> 0"
  shows "\<exists>c'. run_cn_functor net f (c\<lparr>cn_functors := fs\<rparr>) = Some c' \<and> cn_inv c'"
proof (cases f)
  case StartInLoop
  then have "cn_inv (c\<lparr>cn_functors := fs\<rparr>)" "cn_state c = CDisconnected" "pending_starts (c\<lparr>cn_functors := fs\<rparr>) = 0"
      "idle_channel (c\<lparr>cn_functors := fs\<rparr>)"
    using c f by (auto simp: cn_defs split: if_splits)
  then show ?thesis using startInLoop_ok [of "c\<lparr>cn_functors := fs\<rparr>"] net StartInLoop by simp
next
  case StopInLoop
  then have "cn_inv (c\<lparr>cn_functors := fs\<rparr>)" using c f by (auto simp: cn_defs)
  then show ?thesis using stopInLoop_ok StopInLoop by simp
next
  case ResetChannel
  then show ?thesis using c f by (auto simp: cn_defs resetChannel_def count_list_0_iff)
qed

lemma cn_step_ok:
  assumes c: "cn_inv c" and op: "cn_enabled op c"
  shows "\<exists>c'. cn_step op c = Some c' \<and> cn_inv c'"
proof (cases op)
  case (CnStart inLoop net)
  let ?c = "c\<lparr>wantConnect := True\<rparr>"
  have "cn_inv ?c" "cn_state ?c = CDisconnected" "pending_starts ?c = 0" "idle_channel ?c" "fst net \<ge> 0"
    using c op CnStart by (auto simp: cn_defs)
  then show ?thesis
    using startInLoop_ok [of ?c net] CnStart
    by (auto simp: Connector_start_def queue_in_loop_def Let_def cn_defs)
next
  case CnStop
  then show ?thesis using c by (auto simp: Connector_stop_def queue_in_loop_def cn_defs)
next
  case (CnRestart net)
  let ?c = "c\<lparr>cn_state := CDisconnected, retryDelayMs := kInitRetryDelayMs, wantConnect := True, delays := []\<rparr>"
  have "cn_inv ?c" "cn_state ?c = CDisconnected" "pending_starts ?c = 0" "idle_channel ?c" "fst net \<ge> 0"
    using c op CnRestart by (auto simp: cn_defs backoff_def kInitRetryDelayMs_def kMaxRetryDelayMs_def)
  then show ?thesis using startInLoop_ok [of ?c net] CnRestart by (simp add: Connector_restart_def)
next
  case (CnFunctor net)
  then show ?thesis using run_cn_functor_ok [OF c] op c by (cases "cn_functors c") auto
next
  case (CnTimer net)
  show ?thesis
  proof (cases "cn_timers c")
    case (Cons d ds)
    let ?c = "c\<lparr>cn_timers := ds\<rparr>"
    have "cn_inv ?c" "cn_state ?c = CDisconnected" "pending_starts ?c = 0" "idle_channel ?c" "fst net \<ge> 0"
      using c op Cons CnTimer by (auto simp: cn_defs split: if_splits)
    then show ?thesis using startInLoop_ok [of ?c net] Cons CnTimer by simp
  qed (use c CnTimer in simp)
next
  case (CnEvent r e s p)
  then show ?thesis using cn_event_ok [OF c] op by auto
qed

lemma cn_reachable_inv: "cn_reachable c \<Longrightarrow> cn_inv c"
proof (induction rule: cn_reachable.induct)
  case new
  show ?case by (simp add: Connector_new_def cn_defs backoff_def kInitRetryDelayMs_def kMaxRetryDelayMs_def)
next
  case (step c op c')
  then show ?case using cn_step_ok [of c op] by auto
qed


text \<open>Two attempts: the first is refused, the second is under way.\<close>

definition refused :: connector where
  "refused = \<lparr>wantConnect = True, cn_state = CDisconnected, cn_channel = None, retryDelayMs = 1000, cn_functors = [],
     cn_timers = [500], created = [3], closed = [3], handed = [], delays = [500]\<rparr>"

lemma refused_reachable: "cn_reachable refused"
  by (rule cn_reachable.step [OF cn_reachable.new, of "CnStart True (3, ECONNREFUSED)"])
    (simp_all add: Connector_new_def refused_def pending_starts_def idle_channel_def Connector_start_def startInLoop_def
      connect_def createNonblockingOrDie_def retry_def Let_def kInitRetryDelayMs_def kMaxRetryDelayMs_def errnos
      ECONNREFUSED_def EINPROGRESS_def EISCONN_def)




end
