(* ===== verification/Net_TcpClient.thy ===== *)
theory Net_TcpClient
  imports Net_Connector Net_TcpConnFacts
begin

text \<open>
  The client (\<^verbatim>\<open>muduo/net/TcpClient.h\<close>, \<^verbatim>\<open>TcpClient.cc\<close> of the annotated library) over the connector and the
  connections. All run in one loop; the functors of each wait in its own queue and may run in any order between
  the queues. Connection objects live in a list with their names, in the order they were made; \<open>connection\<close> is the
  index of the one that \<^verbatim>\<open>connection_\<close> points to. The peer's address in text is an argument, as are the results of
  the network. The destructor is not modelled: it calls \<^verbatim>\<open>forceClose\<close>, which the connections of the last stage do
  not have.
\<close>

record client =
  connector :: connector
  client_name :: string
  retries :: bool
  wantsConnect :: bool
  client_writeComplete :: bool
  client_nextConnId :: int
  connection :: "nat option"
  conns :: "(string \<times> conn) list"

definition TcpClient_new :: "string \<Rightarrow> client" where
  "TcpClient_new nm = \<lparr>connector = Connector_new, client_name = nm, retries = False, wantsConnect = True,
     client_writeComplete = False, client_nextConnId = 1, connection = None, conns = []\<rparr>"

definition enableRetry :: "client \<Rightarrow> client" where
  "enableRetry c = c\<lparr>retries := True\<rparr>"

definition client_setWriteCompleteCallback :: "client \<Rightarrow> client" where
  "client_setWriteCompleteCallback c = c\<lparr>client_writeComplete := True\<rparr>"

definition set_client_conn :: "nat \<Rightarrow> conn \<Rightarrow> client \<Rightarrow> client" where
  "set_client_conn i d c = c\<lparr>conns := (conns c)[i := (fst (conns c ! i), d)]\<rparr>"

definition TcpClient_connect :: "bool \<Rightarrow> net_result \<Rightarrow> client \<Rightarrow> client option" where
  "TcpClient_connect inLoop net c =
     do {
       cn \<leftarrow> Connector_start inLoop net (connector c);
       Some (c\<lparr>wantsConnect := True, connector := cn\<rparr>)
     }"

definition TcpClient_disconnect :: "bool \<Rightarrow> client \<Rightarrow> client" where
  "TcpClient_disconnect inLoop c =
     (let c1 = c\<lparr>wantsConnect := False\<rparr>
      in case connection c1 of
           Some i \<Rightarrow> set_client_conn i (shutdown inLoop (snd (conns c1 ! i))) c1
         | None \<Rightarrow> c1)"

definition TcpClient_stop :: "client \<Rightarrow> client" where
  "TcpClient_stop c = c\<lparr>wantsConnect := False, connector := Connector_stop (connector c)\<rparr>"

text \<open>The callback of the connector. The number of the connection is an \<^verbatim>\<open>int\<close>, whose overflow is undefined.\<close>

definition client_newConnection :: "user_code \<Rightarrow> kernel_write \<Rightarrow> string \<Rightarrow> client \<Rightarrow> client option" where
  "client_newConnection user k peer c =
     do {
       let nm = client_name c @ snprintf 32 (CHR '':'' # peer @ CHR ''#'' # print_int (client_nextConnId c));
       check (client_nextConnId c + 1 < 2 ^ 31);
       let i = length (conns c);
       let c1 = c\<lparr>client_nextConnId := client_nextConnId c + 1, conns := conns c @ [(nm, TcpConnection_new (client_writeComplete c))],
                  connection := Some i\<rparr>;
       d \<leftarrow> conn_step user (Establish k) (snd (conns c1 ! i));
       Some (set_client_conn i d c1)
     }"

text \<open>The close callback of a connection.\<close>

definition client_removeConnection :: "user_code \<Rightarrow> net_result \<Rightarrow> nat \<Rightarrow> client \<Rightarrow> client option" where
  "client_removeConnection user net i c =
     do {
       check (connection c = Some i);
       let c1 = c\<lparr>connection := None\<rparr>;
       d \<leftarrow> conn_step user Destroy (snd (conns c1 ! i));
       let c2 = set_client_conn i d c1;
       (if retries c2 \<and> wantsConnect c2
        then do { cn \<leftarrow> Connector_restart net (connector c2); Some (c2\<lparr>connector := cn\<rparr>) }
        else Some c2)
     }"

section \<open>A client in its loop\<close>

text \<open>An operation of a connection; its close callback is the last thing the closing does.\<close>

definition client_conn_op :: "user_code \<Rightarrow> net_result \<Rightarrow> nat \<Rightarrow> conn_op \<Rightarrow> client \<Rightarrow> client option" where
  "client_conn_op user net i op c =
     do {
       d \<leftarrow> conn_step user op (snd (conns c ! i));
       let c1 = set_client_conn i d c;
       (if Closed \<in> set (history d) \<and> Closed \<notin> set (history (snd (conns c ! i)))
        then client_removeConnection user net i c1 else Some c1)
     }"

text \<open>An operation of the connector; to hand over a socket is the last thing it does.\<close>

definition client_connector_op :: "user_code \<Rightarrow> kernel_write \<Rightarrow> string \<Rightarrow> cn_op \<Rightarrow> client \<Rightarrow> client option" where
  "client_connector_op user k peer op c =
     do {
       cn \<leftarrow> cn_step op (connector c);
       let c1 = c\<lparr>connector := cn\<rparr>;
       (if length (handed cn) > length (handed (connector c)) then client_newConnection user k peer c1 else Some c1)
     }"

datatype client_op = ClConnect bool net_result | ClDisconnect bool | ClStop | ClRetry
  | ClConnector kernel_write string cn_op | ClConn net_result nat conn_op

fun client_step :: "user_code \<Rightarrow> client_op \<Rightarrow> client \<Rightarrow> client option" where
  "client_step user (ClConnect inLoop net) c = TcpClient_connect inLoop net c"
| "client_step user (ClDisconnect inLoop) c = Some (TcpClient_disconnect inLoop c)"
| "client_step user ClStop c = Some (TcpClient_stop c)"
| "client_step user ClRetry c = Some (enableRetry c)"
| "client_step user (ClConnector k peer op) c = client_connector_op user k peer op c"
| "client_step user (ClConn net i op) c = client_conn_op user net i op c"

text \<open>
  When the operations can happen. The user connects when the connector is at rest. The loop runs what the
  connector has in it, and reports events of a connection only after it has run the functors of the turn that made
  the connection, the one that clears the connector's channel among them.
\<close>

fun loop_op :: "cn_op \<Rightarrow> bool" where
  "loop_op (CnFunctor net) = True"
| "loop_op (CnTimer net) = True"
| "loop_op (CnEvent r e s p) = True"
| "loop_op _ = False"

fun client_enabled :: "client_op \<Rightarrow> client \<Rightarrow> bool" where
  "client_enabled (ClConnect inLoop net) c \<longleftrightarrow> cn_enabled (CnStart inLoop net) (connector c)"
| "client_enabled (ClConnector k peer op) c \<longleftrightarrow>
     kernel_ok k \<and> loop_op op \<and> cn_enabled op (connector c) \<and> client_nextConnId c + 1 < 2 ^ 31"
| "client_enabled (ClConn net i op) c \<longleftrightarrow>
     fst net \<ge> 0 \<and> i < length (conns c) \<and> ordinary op \<and> enabled op (snd (conns c ! i)) \<and>
     (reports op \<longrightarrow> idle_channel (connector c))"
| "client_enabled _ c \<longleftrightarrow> True"

inductive reachable_client :: "user_code \<Rightarrow> client \<Rightarrow> bool" for user where
  new: "reachable_client user (TcpClient_new nm)"
| callback: "reachable_client user c \<Longrightarrow> reachable_client user (client_setWriteCompleteCallback c)"
| step: "reachable_client user c \<Longrightarrow> client_enabled op c \<Longrightarrow> client_step user op c = Some c' \<Longrightarrow> reachable_client user c'"

section \<open>The connector under a client\<close>

text \<open>A connector that has handed over a socket rests until it is restarted; nothing else hands a socket over.\<close>

lemma connected_rests:
  assumes c: "cn_inv c" "cn_state c = CConnected" and op: "loop_op op" "cn_enabled op c" and s: "cn_step op c = Some c'"
  shows "cn_state c' = CConnected \<and> handed c' = handed c"
proof (cases op)
  case (CnFunctor net)
  show ?thesis
  proof (cases "cn_functors c")
    case (Cons f fs)
    have "f \<noteq> StartInLoop" using c Cons no_start_pending [of c] by (auto simp: cn_inv_def)
    then show ?thesis using s c(2) CnFunctor Cons by (cases f) (auto simp: stopInLoop_def resetChannel_def)
  qed (use s c(2) CnFunctor in simp)
next
  case (CnTimer net)
  have "cn_timers c = []" using c by (simp add: cn_inv_def pending_starts_def)
  then show ?thesis using s c(2) CnTimer by simp
next
  case (CnEvent r e so p)
  then show ?thesis using c op(2) by (auto simp: cn_inv_def unwatched_def)
qed (use op in simp_all)

lemma startInLoop_handed: "startInLoop net c = Some c' \<Longrightarrow> handed c' = handed c"
  by (auto simp: startInLoop_def connect_def connecting_def retry_def Let_def split: if_splits option.splits bind_splits)

lemma removeAndResetChannel_handed: "removeAndResetChannel c = Some (sockfd, c') \<Longrightarrow> handed c' = handed c \<and> cn_state c' = cn_state c"
  by (auto simp: removeAndResetChannel_def queue_in_loop_def split: bind_splits)

lemma retry_handed [simp]: "handed (retry sockfd c) = handed c"
  by (simp add: retry_def Let_def)

definition hands :: "connector \<Rightarrow> connector \<Rightarrow> bool" where
  "hands c c' \<longleftrightarrow> handed c' = handed c \<or> cn_state c' = CConnected \<and> length (handed c') = Suc (length (handed c))"

lemma handleWrite_hands: "cn_handleWrite e s p c = Some c' \<Longrightarrow> hands c c'"
  by (auto simp: cn_handleWrite_def hands_def Let_def dest!: removeAndResetChannel_handed split: if_splits bind_splits)

lemma handleError_handed: "cn_handleError c = Some c' \<Longrightarrow> handed c' = handed c"
  by (auto simp: cn_handleError_def dest!: removeAndResetChannel_handed split: if_splits bind_splits)

lemma stopInLoop_handed: "stopInLoop c = Some c' \<Longrightarrow> handed c' = handed c"
  by (auto simp: stopInLoop_def dest!: removeAndResetChannel_handed split: if_splits bind_splits)

lemma loop_op_hands:
  assumes "loop_op op" "cn_step op c = Some c'"
  shows "hands c c'"
proof (cases op)
  case (CnFunctor net)
  show ?thesis
  proof (cases "cn_functors c")
    case (Cons f fs)
    then show ?thesis
      using assms(2) CnFunctor by (cases f) (auto simp: hands_def resetChannel_def dest: startInLoop_handed stopInLoop_handed)
  qed (use assms(2) CnFunctor in \<open>simp add: hands_def\<close>)
next
  case (CnTimer net)
  then show ?thesis using assms(2) by (cases "cn_timers c") (auto simp: hands_def dest: startInLoop_handed)
next
  case (CnEvent r e s p)
  have "hands c c'" if "cn_handleError c = Some c1" "cn_handleWrite e s p c1 = Some c'" for c1
    using handleError_handed [OF that(1)] handleWrite_hands [OF that(2)] by (simp add: hands_def)
  then show ?thesis
    using assms(2) CnEvent handleWrite_hands [of e s p c c'] handleError_handed [of c c']
    by (auto simp: cn_event_calls hands_def split: if_splits bind_splits)
qed (use assms(1) in simp_all)

section \<open>Connections under a client\<close>

text \<open>What a step of the connection that the client holds leaves true.\<close>

definition held :: "conn \<Rightarrow> bool" where
  "held d \<longleftrightarrow> conn_inv d \<and> registered d \<and> ConnectDestroyed \<notin> set (functors d) \<and> cstate d \<noteq> kConnecting"

lemma held_step:
  assumes "held c" "enabled op c" "ordinary op"
  shows "\<exists>d. conn_step user op c = Some d \<and> held d \<and> set (history c) \<subseteq> set (history d)"
proof -
  have c: "conn_inv c" "ConnectDestroyed \<notin> set (functors c)" "registered c" "cstate c \<noteq> kConnecting"
    using assms(1) by (simp_all add: held_def)
  obtain d where d: "conn_step user op c = Some d" "conn_inv d" using conn_step_ok [OF c(1) assms(2)] by blast
  have k: "kept c d" using conn_step_kept [OF c(1) assms(2,3) d(1)] c(2) by blast
  then have "held d"
    using c d(2) established_stays [OF c(1) d(2) c(4)] by (simp add: held_def kept_def count_list_0_iff)
  then show ?thesis using d(1) k by (auto simp: kept_def)
qed

section \<open>The invariant of a client\<close>

definition conn_at :: "client \<Rightarrow> nat \<Rightarrow> conn" where
  "conn_at c i = snd (conns c ! i)"

text \<open>Every connection object but the one the client holds is closed; the one it holds is the last one made.\<close>

definition conns_inv :: "client \<Rightarrow> bool" where
  "conns_inv c \<longleftrightarrow> client_nextConnId c = int (length (conns c)) + 1 \<and>
     (\<forall>i < length (conns c). conn_inv (conn_at c i) \<and> (Closed \<in> set (history (conn_at c i)) \<longleftrightarrow> connection c \<noteq> Some i)) \<and>
     (\<forall>i. connection c = Some i \<longrightarrow> Suc i = length (conns c) \<and> held (conn_at c i))"

definition client_inv :: "client \<Rightarrow> bool" where
  "client_inv c \<longleftrightarrow> conns_inv c \<and> cn_inv (connector c) \<and> length (handed (connector c)) = length (conns c) \<and>
     (connection c \<noteq> None \<longrightarrow> cn_state (connector c) = CConnected)"

lemma conn_at_set: "i < length (conns c) \<Longrightarrow> conn_at (set_client_conn i d c) j = (if j = i then d else conn_at c j)"
  by (simp add: conn_at_def set_client_conn_def nth_list_update)

lemma set_client_conn_simps [simp]:
  "length (conns (set_client_conn i d c)) = length (conns c)" "connection (set_client_conn i d c) = connection c"
  "connector (set_client_conn i d c) = connector c" "client_nextConnId (set_client_conn i d c) = client_nextConnId c"
  "retries (set_client_conn i d c) = retries c" "wantsConnect (set_client_conn i d c) = wantsConnect c"
  by (simp_all add: set_client_conn_def)

lemma conns_inv_set:
  assumes "conns_inv c" "i < length (conns c)" "conn_inv d" "Closed \<in> set (history d) \<longleftrightarrow> connection c \<noteq> Some i"
    "connection c = Some i \<longrightarrow> held d"
  shows "conns_inv (set_client_conn i d c)"
  using assms by (auto simp: conns_inv_def conn_at_set)

lemma conns_inv_other [simp]:
  "conns_inv (c\<lparr>connector := cn\<rparr>) = conns_inv c" "conns_inv (c\<lparr>wantsConnect := w\<rparr>) = conns_inv c"
  "conns_inv (c\<lparr>retries := w\<rparr>) = conns_inv c" "conns_inv (c\<lparr>client_writeComplete := w\<rparr>) = conns_inv c"
  by (simp_all add: conns_inv_def conn_at_def)

lemma client_newConnection_ok:
  assumes c: "conns_inv c" "connection c = None" and k: "kernel_ok k" and n: "client_nextConnId c + 1 < 2 ^ 31"
  shows "\<exists>c'. client_newConnection user k peer c = Some c' \<and> conns_inv c' \<and> connector c' = connector c \<and>
    connection c' = Some (length (conns c)) \<and> length (conns c') = Suc (length (conns c))"
proof -
  obtain d where d: "connectEstablished user k (TcpConnection_new (client_writeComplete c)) = Some d" "conn_inv d" "registered d"
      "ConnectDestroyed \<notin> set (functors d)" "cstate d \<in> {kConnected, kDisconnecting}"
    using connectEstablished_ok [OF new_inv _ k] by (fastforce simp: TcpConnection_new_def)
  then have h: "held d" "Closed \<notin> set (history d)" using closed_disconnected [OF d(2)] by (auto simp: held_def)
  let ?nm = "client_name c @ snprintf 32 (CHR '':'' # peer @ CHR ''#'' # print_int (client_nextConnId c))"
  let ?c1 = "c\<lparr>client_nextConnId := client_nextConnId c + 1, conns := conns c @ [(?nm, TcpConnection_new (client_writeComplete c))],
    connection := Some (length (conns c))\<rparr>"
  have "conns_inv (set_client_conn (length (conns c)) d ?c1)"
    using c h d(2) by (auto simp: conns_inv_def conn_at_def set_client_conn_def nth_append nth_list_update less_Suc_eq)
  then show ?thesis using d(1) n by (simp add: client_newConnection_def Let_def check_def)
qed

lemma client_connector_op_ok:
  assumes c: "client_inv c" and e: "client_enabled (ClConnector k peer op) c"
  shows "\<exists>c'. client_connector_op user k peer op c = Some c' \<and> client_inv c'"
proof -
  obtain cn where cn: "cn_step op (connector c) = Some cn" "cn_inv cn"
    using cn_step_ok [of "connector c" op] c e by (auto simp: client_inv_def)
  note hands = loop_op_hands [OF _ cn(1)]
  show ?thesis
  proof (cases "handed cn = handed (connector c)")
    case True
    have "connection c \<noteq> None \<longrightarrow> cn_state cn = CConnected"
      using connected_rests [OF _ _ _ _ cn(1)] c e by (auto simp: client_inv_def)
    then show ?thesis using True cn c by (simp add: client_connector_op_def client_inv_def)
  next
    case False
    then have h: "cn_state cn = CConnected" "length (handed cn) = Suc (length (handed (connector c)))"
      using hands e by (auto simp: hands_def)
    have none: "connection c = None"
      using connected_rests [OF _ _ _ _ cn(1)] c e False by (auto simp: client_inv_def)
    then obtain c' where "client_newConnection user k peer (c\<lparr>connector := cn\<rparr>) = Some c'" "conns_inv c'" "connector c' = cn"
        "length (conns c') = Suc (length (conns c))"
      using client_newConnection_ok [of "c\<lparr>connector := cn\<rparr>" k user peer] c e by (auto simp: client_inv_def)
    then show ?thesis using h cn c by (simp add: client_connector_op_def client_inv_def)
  qed
qed

lemma restart_ok:
  assumes "cn_inv cn" "cn_state cn = CConnected" "idle_channel cn" "fst net \<ge> 0"
  shows "\<exists>cn'. Connector_restart net cn = Some cn' \<and> cn_inv cn' \<and> handed cn' = handed cn \<and> created cn' = created cn @ [fst net]"
proof -
  obtain cn' where cn': "Connector_restart net cn = Some cn'" "cn_inv cn'"
    using cn_step_ok [of cn "CnRestart net"] assms by auto
  have "handed cn' = handed cn \<and> created cn' = created cn @ [fst net]"
    using cn'(1) by (auto simp: Connector_restart_def startInLoop_def connect_def connecting_def retry_def
        createNonblockingOrDie_def Let_def split: if_splits option.splits bind_splits)
  then show ?thesis using cn' by blast
qed

text \<open>The connection that the client holds was closed: it becomes \<open>d\<close>, and the close callback runs.\<close>

lemma client_removeConnection_ok:
  assumes c: "client_inv c" "connection c = Some i" and d: "held d" "Closed \<in> set (history d)"
    and net: "fst net \<ge> 0" and idle: "idle_channel (connector c)"
  shows "\<exists>c'. client_removeConnection user net i (set_client_conn i d c) = Some c' \<and> client_inv c' \<and> connection c' = None \<and>
    (if retries c \<and> wantsConnect c then created (connector c') = created (connector c) @ [fst net] else connector c' = connector c)"
proof -
  have i: "Suc i = length (conns c)" "cn_inv (connector c)" "cn_state (connector c) = CConnected" "conns_inv c"
      "length (handed (connector c)) = length (conns c)"
    using c by (auto simp: client_inv_def conns_inv_def)
  obtain d' where d': "conn_step user Destroy d = Some d'" "conn_inv d'" "history d' = history d"
    using conn_step_ok [of d Destroy user] d by (auto simp: held_def queue_functor_def)
  let ?c2 = "set_client_conn i d' ((set_client_conn i d c)\<lparr>connection := None\<rparr>)"
  have at: "snd (conns (set_client_conn i d c) ! i) = d" using i(1) conn_at_set [of i c d i] by (simp add: conn_at_def)
  have "conn_at ((set_client_conn i d c)\<lparr>connection := None\<rparr>) j = (if j = i then d else conn_at c j)" for j
    using i(1) conn_at_set [of i c d j] by (simp add: conn_at_def)
  then have inv: "conns_inv ?c2"
    using i(1,4) c(2) d(2) d' by (auto simp: conns_inv_def conn_at_set)
  obtain cn' where cn': "Connector_restart net (connector c) = Some cn'" "cn_inv cn'" "handed cn' = handed (connector c)"
      "created cn' = created (connector c) @ [fst net]"
    using restart_ok [OF i(2,3) idle net] by blast
  have e: "client_removeConnection user net i (set_client_conn i d c) =
      Some (if retries c \<and> wantsConnect c then ?c2\<lparr>connector := cn'\<rparr> else ?c2)"
    using d'(1) cn'(1) c(2) at by (simp add: client_removeConnection_def Let_def set_client_conn_def)
  show ?thesis unfolding e using inv cn' i by (simp add: client_inv_def)
qed

lemma client_conn_op_ok:
  assumes c: "client_inv c" and e: "client_enabled (ClConn net i op) c"
  shows "\<exists>c'. client_conn_op user net i op c = Some c' \<and> client_inv c' \<and>
    (connection c = Some i \<longrightarrow> connection c' = None \<longrightarrow>
      (if retries c \<and> wantsConnect c then created (connector c') = created (connector c) @ [fst net] else connector c' = connector c))"
proof -
  let ?c = "snd (conns c ! i)"
  have i: "i < length (conns c)" "ordinary op" "enabled op ?c" "fst net \<ge> 0" using e by simp_all
  have inv: "conns_inv c" "conn_inv ?c" "Closed \<in> set (history ?c) \<longleftrightarrow> connection c \<noteq> Some i"
    using c i(1) by (auto simp: client_inv_def conns_inv_def conn_at_def)
  obtain d where d: "conn_step user op ?c = Some d" "conn_inv d" using conn_step_ok [OF inv(2) i(3)] by blast
  have mono: "set (history ?c) \<subseteq> set (history d)" using conn_step_kept [OF inv(2) i(3,2) d(1)] by blast
  have h: "held d" if "connection c = Some i"
    using held_step [of ?c op user] i(2,3) d(1) inv(1) that by (auto simp: conns_inv_def conn_at_def)
  show ?thesis
  proof (cases "Closed \<in> set (history d) \<and> Closed \<notin> set (history ?c)")
    case True
    then have "reports op" using not_closing [OF inv(2) i(3,2) _ d(1)] by blast
    then have "idle_channel (connector c)" using e by simp
    then show ?thesis
      using client_removeConnection_ok [OF c _ h _ i(4), of i user] True inv(3) d(1)
      by (auto simp: client_conn_op_def)
  next
    case False
    then have "conns_inv (set_client_conn i d c)"
      using conns_inv_set [OF inv(1) i(1) d(2)] inv(3) h mono by blast
    moreover have "client_conn_op user net i op c = Some (set_client_conn i d c)"
      using False d(1) by (auto simp: client_conn_op_def Let_def)
    ultimately show ?thesis using c by (simp add: client_inv_def)
  qed
qed

lemma TcpClient_disconnect_inv:
  assumes "client_inv c"
  shows "client_inv (TcpClient_disconnect inLoop c)"
proof (cases "connection c")
  case (Some i)
  let ?c = "snd (conns c ! i)"
  have i: "i < length (conns c)" "conns_inv c" "held ?c" "Closed \<notin> set (history ?c)"
    using assms Some by (auto simp: client_inv_def conns_inv_def conn_at_def)
  have s: "conn_step user (if inLoop then LoopShutdown else OtherShutdown) ?c = Some (shutdown inLoop ?c)" for user by simp
  have en: "enabled (if inLoop then LoopShutdown else OtherShutdown) ?c" "ordinary (if inLoop then LoopShutdown else OtherShutdown)"
      "\<not> reports (if inLoop then LoopShutdown else OtherShutdown)"
    by simp_all
  have "held (shutdown inLoop ?c)" using held_step [OF i(3) en(1,2)] s by auto
  moreover have "Closed \<notin> set (history (shutdown inLoop ?c))"
    using not_closing [OF _ en s] i(3,4) by (simp add: held_def)
  ultimately have "conns_inv (set_client_conn i (shutdown inLoop ?c) (c\<lparr>wantsConnect := False\<rparr>))"
    using conns_inv_set [of "c\<lparr>wantsConnect := False\<rparr>" i] i Some by (simp add: held_def)
  then show ?thesis using assms Some by (simp add: TcpClient_disconnect_def client_inv_def)
qed (use assms in \<open>simp add: TcpClient_disconnect_def client_inv_def\<close>)

lemma Connector_start_handed: "Connector_start inLoop net c = Some c' \<Longrightarrow> handed c' = handed c"
  by (auto simp: Connector_start_def queue_in_loop_def Let_def dest: startInLoop_handed split: if_splits)

lemma client_step_ok:
  assumes c: "client_inv c" and op: "client_enabled op c"
  shows "\<exists>c'. client_step user op c = Some c' \<and> client_inv c'"
proof (cases op)
  case (ClConnect inLoop net)
  then have e: "cn_enabled (CnStart inLoop net) (connector c)" using op by simp
  then have none: "connection c = None" using c by (auto simp: client_inv_def)
  obtain cn where "Connector_start inLoop net (connector c) = Some cn" "cn_inv cn"
    using cn_step_ok [OF _ e] c by (auto simp: client_inv_def)
  then show ?thesis
    using ClConnect c none Connector_start_handed [of inLoop net "connector c" cn] by (simp add: TcpClient_connect_def client_inv_def)
next
  case ClStop
  have "cn_inv (Connector_stop (connector c))" using cn_step_ok [of "connector c" CnStop] c by (simp add: client_inv_def)
  then show ?thesis
    using ClStop c by (simp add: TcpClient_stop_def client_inv_def Connector_stop_def queue_in_loop_def)
next
  case (ClConnector k peer cop)
  then show ?thesis using client_connector_op_ok [OF c] op by simp
next
  case (ClConn net i cop)
  then show ?thesis using client_conn_op_ok [OF c] op by fastforce
qed (use c TcpClient_disconnect_inv in \<open>simp_all add: enableRetry_def client_inv_def\<close>)

lemma reachable_client_inv: "reachable_client user c \<Longrightarrow> client_inv c"
proof (induction rule: reachable_client.induct)
  case (new nm)
  have "cn_inv Connector_new" by (rule cn_reachable_inv [OF cn_reachable.new])
  then show ?case by (simp add: TcpClient_new_def client_inv_def conns_inv_def Connector_new_def)
next
  case (step c op c')
  then show ?case using client_step_ok [of c op user] by auto
qed (simp add: client_setWriteCompleteCallback_def client_inv_def)

section \<open>Properties of a client\<close>


text \<open>A client whose first attempt succeeds.\<close>

definition example_addrs :: "sockaddr_in \<times> sockaddr_in" where
  "example_addrs = (\<lparr>sin_family = 2, sin_port = 1, sin_addr = 1\<rparr>, \<lparr>sin_family = 2, sin_port = 2, sin_addr = 1\<rparr>)"

definition silent :: user_code where
  "silent = (\<lambda>_ _. [])"

definition blocked :: kernel_write where
  "blocked = (\<lambda>c d. if writeShut c then WriteErr EPIPE else Wrote 0)"

definition example_conn :: conn where
  "example_conn = (TcpConnection_new False)\<lparr>cstate := kConnected, cmask := kReadEvent, registered := True, history := [ConnUp]\<rparr>"

definition example_client :: "connector \<Rightarrow> client" where
  "example_client cn = \<lparr>connector = cn, client_name = ''c'', retries = False, wantsConnect = True, client_writeComplete = False,
     client_nextConnId = 2, connection = Some 0, conns = [(''c:h#1'', example_conn)]\<rparr>"

definition cn_at :: "nat \<Rightarrow> connector" where
  "cn_at n = Connector_new\<lparr>wantConnect := True, created := [3],
     cn_state := (if n = 0 then CConnecting else CConnected),
     cn_channel := (if n = 0 then Some (3, kWriteEvent, True) else if n = 1 then Some (3, kNoneEvent, False) else None),
     cn_functors := (if n = 1 then [ResetChannel] else []), handed := (if n = 0 then [] else [3])\<rparr>"

lemma cn_at_steps:
  "Connector_start True (3, EINPROGRESS) Connector_new = Some (cn_at 0)"
  "cn_step (CnEvent POLLOUT (Inr 0) (Some (fst example_addrs)) (Some (snd example_addrs))) (cn_at 0) = Some (cn_at 1)"
  "cn_step (CnFunctor (0, 0)) (cn_at 1) = Some (cn_at 2)"
proof -
  show "Connector_start True (3, EINPROGRESS) Connector_new = Some (cn_at 0)"
    by (simp add: Connector_start_def startInLoop_def connect_def connecting_def createNonblockingOrDie_def on_cn_channel_def
        cn_at_def Connector_new_def Let_def kNoneEvent_def kWriteEvent_def)
  show "cn_step (CnEvent POLLOUT (Inr 0) (Some (fst example_addrs)) (Some (snd example_addrs))) (cn_at 0) = Some (cn_at 1)"
    by (simp add: cn_event_calls cn_handleWrite_def removeAndResetChannel_def on_cn_channel_def queue_in_loop_def
        cn_at_def Connector_new_def Let_def getSocketError_def isSelfConnect_def getLocalAddr_def getPeerAddr_def example_addrs_def
        event_bits)
  show "cn_step (CnFunctor (0, 0)) (cn_at 1) = Some (cn_at 2)"
    by (simp add: cn_at_def Connector_new_def resetChannel_def)
qed

lemma example_established: "connectEstablished silent blocked (TcpConnection_new False) = Some example_conn"
  by (simp add: connectEstablished_def TcpConnection_new_def on_channel_change setState_def user_callback_def silent_def
      example_conn_def Let_def kNoneEvent_def)

lemma example_client_reachable: "reachable_client silent (example_client (cn_at 2))"
proof -
  let ?c1 = "(TcpClient_new ''c'')\<lparr>connector := cn_at 0\<rparr>"
  have 1: "reachable_client silent ?c1"
  proof (rule reachable_client.step [OF reachable_client.new])
    show "client_enabled (ClConnect True (3, EINPROGRESS)) (TcpClient_new ''c'')"
      by (simp add: TcpClient_new_def Connector_new_def pending_starts_def idle_channel_def)
    show "client_step silent (ClConnect True (3, EINPROGRESS)) (TcpClient_new ''c'') = Some ?c1"
      using cn_at_steps(1) by (simp add: TcpClient_connect_def TcpClient_new_def)
  qed
  let ?op = "CnEvent POLLOUT (Inr 0) (Some (fst example_addrs)) (Some (snd example_addrs))"
  have 2: "reachable_client silent (example_client (cn_at 1))"
  proof (rule reachable_client.step [OF 1])
    show "client_enabled (ClConnector blocked ''h'' ?op) ?c1"
      by (simp add: TcpClient_new_def cn_at_def blocked_def kernel_blocks)
    have "client_newConnection silent blocked ''h'' ((TcpClient_new ''c'')\<lparr>connector := cn_at 1\<rparr>) = Some (example_client (cn_at 1))"
      using example_established
      by (simp add: client_newConnection_def TcpClient_new_def set_client_conn_def example_client_def check_def snprintf_def
          print_int_def print_nat.simps digit_chars)
    moreover have "handed (cn_at 0) = []" "handed (cn_at 1) = [3]" by (simp_all add: cn_at_def)
    ultimately show "client_step silent (ClConnector blocked ''h'' ?op) ?c1 = Some (example_client (cn_at 1))"
      using cn_at_steps(2) by (simp add: client_connector_op_def TcpClient_new_def del: cn_step.simps)
  qed
  show ?thesis
  proof (rule reachable_client.step [OF 2])
    show "client_enabled (ClConnector blocked ''h'' (CnFunctor (0, 0))) (example_client (cn_at 1))"
      by (simp add: example_client_def blocked_def kernel_blocks)
    have "handed (cn_at 2) = handed (cn_at 1)" by (simp add: cn_at_def)
    then show "client_step silent (ClConnector blocked ''h'' (CnFunctor (0, 0))) (example_client (cn_at 1)) = Some (example_client (cn_at 2))"
      using cn_at_steps(3) by (simp add: client_connector_op_def example_client_def del: cn_step.simps)
  qed
qed

lemma example_hangup: "client_enabled (ClConn (4, 0) 0 (PollEvent blocked (ReadvData []) POLLHUP)) (example_client (cn_at 2))"
  by (simp add: example_client_def example_conn_def blocked_def kernel_blocks socket_report_def idle_channel_def cn_at_def poll_bits
      kNoneEvent_def)


text \<open>
  A client whose connection was closed and that does not retry cannot be connected again: the connector still is in
  the state it has after a success, and the assertion in \<^verbatim>\<open>startInLoop\<close> fails.
\<close>

theorem client_reconnect_fails:
  assumes "reachable_client user c" "client_enabled (ClConn net i op) c" "client_step user (ClConn net i op) c = Some c'"
    "connection c = Some i" "connection c' = None" "\<not> (retries c \<and> wantsConnect c)"
  shows "TcpClient_connect True net' c' = None"
proof -
  have inv: "client_inv c" by (rule reachable_client_inv [OF assms(1)])
  have "connector c' = connector c" using client_conn_op_ok [OF inv assms(2), of user] assms(3-) by auto
  moreover have "cn_state (connector c) = CConnected" using inv assms(4) by (simp add: client_inv_def)
  ultimately show ?thesis by (simp add: TcpClient_connect_def Connector_start_def startInLoop_def check_def Let_def)
qed

end
