(* ===== verification/Base_AsyncLogging.thy ===== *)
theory Base_AsyncLogging
  imports Base_LogFile
begin

text \<open>
  Asynchronous logging (\<^verbatim>\<open>muduo/base/AsyncLogging.h\<close>, \<^verbatim>\<open>AsyncLogging.cc\<close> of the annotated library), over the fixed
  buffers of \<open>Base_LogStream\<close> and the log file of \<open>Base_LogFile\<close>. Any number of threads append lines; one thread
  swaps the filled buffers out and writes them. A section under the mutex is one step; what the logging thread does
  to its own variables after the swap is one step, since no other thread sees it. Its wait may end at any time (a
  notification, the timeout). An owning pointer is an option, moving from it leaves \<open>None\<close>, and using \<open>None\<close> is a
  failure. Two fields are history: the lines that were appended, and whether buffers were dropped.
\<close>

datatype backend_pc = NotStarted | Testing | InWait | Writing | Finished

record async_logging =
  running :: bool
  currentBuffer :: "fixed_buffer option"
  nextBuffer :: "fixed_buffer option"
  fullBuffers :: "fixed_buffer list"
  bpc :: backend_pc
  newBuffer1 :: "fixed_buffer option"
  newBuffer2 :: "fixed_buffer option"
  buffersToWrite :: "fixed_buffer list"
  outfile :: "log_file option"
  loglines :: "string list"
  dropped :: bool

text \<open>The contents of memory that \<^verbatim>\<open>new Buffer\<close> returns are an argument.\<close>

definition AsyncLogging_new :: "char list \<Rightarrow> char list \<Rightarrow> async_logging" where
  "AsyncLogging_new g1 g2 = \<lparr>running = False, currentBuffer = Some (fixed_bzero (FixedBuffer_new g1)),
     nextBuffer = Some (fixed_bzero (FixedBuffer_new g2)), fullBuffers = [], bpc = NotStarted,
     newBuffer1 = None, newBuffer2 = None, buffersToWrite = [], outfile = None, loglines = [], dropped = False\<rparr>"

definition async_append :: "char list \<Rightarrow> string \<Rightarrow> async_logging \<Rightarrow> async_logging option" where
  "async_append g logline s =
     do {
       cur \<leftarrow> currentBuffer s;
       s1 \<leftarrow> (if avail cur > length logline
              then do {
                b \<leftarrow> fixed_append logline cur;
                Some (s\<lparr>currentBuffer := Some b\<rparr>)
              }
              else do {
                let fresh = (case nextBuffer s of Some b \<Rightarrow> b | None \<Rightarrow> FixedBuffer_new g);
                b \<leftarrow> fixed_append logline fresh;
                Some (s\<lparr>fullBuffers := fullBuffers s @ [cur], nextBuffer := None, currentBuffer := Some b\<rparr>)
              });
       Some (s1\<lparr>loglines := loglines s1 @ [logline]\<rparr>)
     }"

text \<open>\<^verbatim>\<open>start\<close> returns when the thread has passed its first assertion; the thread then opens the log file.\<close>

definition async_start :: "char list \<Rightarrow> char list \<Rightarrow> (int \<Rightarrow> string) \<Rightarrow> string \<Rightarrow> nat \<Rightarrow> int \<Rightarrow> async_logging \<Rightarrow> async_logging option" where
  "async_start g1 g2 filename base rollsz now s =
     do {
       let s1 = s\<lparr>running := True\<rparr>;
       check (running s1);
       l \<leftarrow> LogFile_new filename base rollsz 3 now;
       Some (s1\<lparr>outfile := Some l, newBuffer1 := Some (fixed_bzero (FixedBuffer_new g1)),
         newBuffer2 := Some (fixed_bzero (FixedBuffer_new g2)), buffersToWrite := [], bpc := Testing\<rparr>)
     }"

definition async_stop :: "async_logging \<Rightarrow> async_logging" where
  "async_stop s = s\<lparr>running := False\<rparr>"

text \<open>The critical section of the loop, after the wait if there was one.\<close>

definition backend_swap :: "async_logging \<Rightarrow> async_logging option" where
  "backend_swap s =
     do {
       cur \<leftarrow> currentBuffer s;
       let s1 = s\<lparr>fullBuffers := buffersToWrite s, buffersToWrite := fullBuffers s @ [cur],
         currentBuffer := newBuffer1 s, newBuffer1 := None\<rparr>;
       let s2 = (if nextBuffer s1 = None then s1\<lparr>nextBuffer := newBuffer2 s1, newBuffer2 := None\<rparr> else s1);
       Some (s2\<lparr>bpc := Writing\<rparr>)
     }"

text \<open>The head of the loop: the test of \<^verbatim>\<open>running_\<close>, the assertions, and entering the wait if there is nothing to write.\<close>

definition backend_test :: "async_logging \<Rightarrow> async_logging option" where
  "backend_test s =
     (if running s
      then do {
        b1 \<leftarrow> newBuffer1 s;
        check (fcur b1 = 0);
        b2 \<leftarrow> newBuffer2 s;
        check (fcur b2 = 0);
        check (buffersToWrite s = []);
        if fullBuffers s = [] then Some (s\<lparr>bpc := InWait\<rparr>) else backend_swap s
      }
      else do {
        l \<leftarrow> outfile s;
        _ \<leftarrow> LogFile_flush l;
        Some (s\<lparr>bpc := Finished\<rparr>)
      })"

definition dropped_message :: "string \<Rightarrow> nat \<Rightarrow> string" where
  "dropped_message stamp n =
     snprintf 256 (''Dropped log messages at '' @ stamp @ '', '' @ print_nat (n - 2) @ '' larger buffers'' @ [CHR 0x0A])"

definition refill :: "fixed_buffer option \<Rightarrow> fixed_buffer list \<Rightarrow> (fixed_buffer \<times> fixed_buffer list) option" where
  "refill nb bufs =
     (case nb of
        Some b \<Rightarrow> Some (b, bufs)
      | None \<Rightarrow> do { check (bufs \<noteq> []); Some (fixed_reset (last bufs), butlast bufs) })"

text \<open>
  The rest of the loop. \<open>stamp\<close> is the time printed in the message about dropped buffers, \<open>tm0\<close> and \<open>tm i\<close> are the
  times that \<^verbatim>\<open>append\<close> of the log file reads.
\<close>

definition backend_write :: "fwrite \<Rightarrow> (int \<Rightarrow> string) \<Rightarrow> string \<Rightarrow> int \<times> int \<Rightarrow> (nat \<Rightarrow> int \<times> int) \<Rightarrow>
    async_logging \<Rightarrow> async_logging option" where
  "backend_write fw filename stamp tm0 tm s =
     do {
       let bufs = buffersToWrite s;
       check (bufs \<noteq> []);
       l \<leftarrow> outfile s;
       (l1, bufs1) \<leftarrow> (if length bufs > 25
         then do {
           l' \<leftarrow> LogFile_append fw filename (dropped_message stamp (length bufs)) (fst tm0) (snd tm0) l;
           Some (l', take 2 bufs)
         }
         else Some (l, bufs));
       l2 \<leftarrow> append_lines fw filename (map (\<lambda>i. (asString (bufs1 ! i), tm i)) [0..<length bufs1]) l1;
       let bufs2 = (if length bufs1 > 2 then take 2 bufs1 else bufs1);
       (b1, bufs3) \<leftarrow> refill (newBuffer1 s) bufs2;
       (b2, bufs4) \<leftarrow> refill (newBuffer2 s) bufs3;
       _ \<leftarrow> LogFile_flush l2;
       Some (s\<lparr>outfile := Some l2, newBuffer1 := Some b1, newBuffer2 := Some b2, buffersToWrite := [], bpc := Testing,
         dropped := (dropped s \<or> length bufs > 25)\<rparr>)
     }"

section \<open>Steps\<close>

datatype async_op = Append "char list" string | Stop | Start "char list" "char list" string nat int
  | BackTest | BackWake | BackWrite string "int \<times> int" "nat \<Rightarrow> int \<times> int"

fun async_step :: "fwrite \<Rightarrow> (int \<Rightarrow> string) \<Rightarrow> async_op \<Rightarrow> async_logging \<Rightarrow> async_logging option" where
  "async_step fw filename (Append g line) s = async_append g line s"
| "async_step fw filename Stop s = Some (async_stop s)"
| "async_step fw filename (Start g1 g2 base rollsz now) s = async_start g1 g2 filename base rollsz now s"
| "async_step fw filename BackTest s = backend_test s"
| "async_step fw filename BackWake s = backend_swap s"
| "async_step fw filename (BackWrite stamp tm0 tm) s = backend_write fw filename stamp tm0 tm s"

text \<open>
  When the steps can happen: a buffer has its size, a line is shorter than a buffer (the logger's lines have at most
  4000 characters), the logging thread is started once and before it is stopped.
\<close>

fun async_enabled :: "async_op \<Rightarrow> async_logging \<Rightarrow> bool" where
  "async_enabled (Append g line) s \<longleftrightarrow> length g = kLargeBuffer \<and> length line < kLargeBuffer"
| "async_enabled Stop s \<longleftrightarrow> bpc s \<noteq> NotStarted"
| "async_enabled (Start g1 g2 base rollsz now) s \<longleftrightarrow> bpc s = NotStarted \<and> length g1 = kLargeBuffer \<and> length g2 = kLargeBuffer \<and>
     CHR ''/'' \<notin> set base \<and> now > 0"
| "async_enabled BackTest s \<longleftrightarrow> bpc s = Testing"
| "async_enabled BackWake s \<longleftrightarrow> bpc s = InWait"
| "async_enabled (BackWrite stamp tm0 tm) s \<longleftrightarrow> bpc s = Writing"

inductive async_reachable :: "fwrite \<Rightarrow> (int \<Rightarrow> string) \<Rightarrow> async_logging \<Rightarrow> bool" for fw filename where
  new: "length g1 = kLargeBuffer \<Longrightarrow> length g2 = kLargeBuffer \<Longrightarrow> async_reachable fw filename (AsyncLogging_new g1 g2)"
| step: "async_reachable fw filename s \<Longrightarrow> async_enabled op s \<Longrightarrow> async_step fw filename op s = Some s' \<Longrightarrow>
    async_reachable fw filename s'"

section \<open>The invariant\<close>

definition big :: "fixed_buffer \<Rightarrow> bool" where
  "big b \<longleftrightarrow> length (fdata b) = kLargeBuffer \<and> fixed_inv b"

definition blank :: "fixed_buffer option \<Rightarrow> bool" where
  "blank nb \<longleftrightarrow> (\<exists>b. nb = Some b \<and> big b \<and> fcur b = 0)"

definition written :: "async_logging \<Rightarrow> string" where
  "written s = (case outfile s of None \<Rightarrow> [] | Some l \<Rightarrow> all_text l)"

definition unwritten :: "async_logging \<Rightarrow> string" where
  "unwritten s = concat (map asString (buffersToWrite s @ fullBuffers s @ (case currentBuffer s of None \<Rightarrow> [] | Some b \<Rightarrow> [b])))"

definition front_inv :: "async_logging \<Rightarrow> bool" where
  "front_inv s \<longleftrightarrow> (\<exists>b. currentBuffer s = Some b \<and> big b) \<and> (\<forall>b \<in> set (fullBuffers s) \<union> set (buffersToWrite s). big b) \<and>
     (nextBuffer s = None \<and> fullBuffers s \<noteq> [] \<or> blank (nextBuffer s))"

definition back_inv :: "(int \<Rightarrow> string) \<Rightarrow> async_logging \<Rightarrow> bool" where
  "back_inv filename s \<longleftrightarrow> (case bpc s of
      NotStarted \<Rightarrow> buffersToWrite s = [] \<and> outfile s = None
    | Writing \<Rightarrow> newBuffer1 s = None \<and> buffersToWrite s \<noteq> [] \<and>
        (newBuffer2 s = None \<and> length (buffersToWrite s) \<ge> 2 \<or> blank (newBuffer2 s))
    | _ \<Rightarrow> blank (newBuffer1 s) \<and> blank (newBuffer2 s) \<and> buffersToWrite s = []) \<and>
   (bpc s \<noteq> NotStarted \<longrightarrow> (\<exists>l. outfile s = Some l \<and> current l \<noteq> None \<and> names_inv filename l))"

definition async_inv :: "(int \<Rightarrow> string) \<Rightarrow> async_logging \<Rightarrow> bool" where
  "async_inv filename s \<longleftrightarrow> front_inv s \<and> back_inv filename s \<and>
     (\<not> dropped s \<longrightarrow> written s @ unwritten s = concat (loglines s))"

lemma kLargeBuffer_pos: "0 < kLargeBuffer"
  by (simp add: kLargeBuffer_def)

lemma blank_new [simp]: "length g = kLargeBuffer \<Longrightarrow> blank (Some (fixed_bzero (FixedBuffer_new g)))"
  by (simp add: blank_def big_def fixed_bzero_def FixedBuffer_new_def fixed_inv_def kLargeBuffer_pos)

lemma blank_None [simp]: "\<not> blank None"
  by (simp add: blank_def)

lemma blank_garbage: "length g = kLargeBuffer \<Longrightarrow> blank (Some (FixedBuffer_new g))"
  by (simp add: blank_def big_def FixedBuffer_new_def fixed_inv_def kLargeBuffer_pos)

lemma blank_reset: "big b \<Longrightarrow> blank (Some (fixed_reset b))"
  by (simp add: blank_def big_def fixed_reset_def fixed_inv_def kLargeBuffer_pos)

lemma blank_text: "blank (Some b) \<Longrightarrow> asString b = [] \<and> big b \<and> avail b = kLargeBuffer"
  by (auto simp: blank_def asString_def big_def avail_def)

lemma big_append:
  assumes "big b" "avail b > length line"
  shows "\<exists>b'. fixed_append line b = Some b' \<and> big b' \<and> asString b' = asString b @ line"
  using fixed_append_ok [of b line] assms by (auto simp: big_def appended_def)

lemma async_append_ok:
  assumes inv: "async_inv filename s" and g: "length g = kLargeBuffer" and line: "length line < kLargeBuffer"
  shows "\<exists>s'. async_append g line s = Some s' \<and> async_inv filename s'"
proof -
  obtain cur where cur: "currentBuffer s = Some cur" "big cur"
    using inv by (auto simp: async_inv_def front_inv_def)
  show ?thesis
  proof (cases "avail cur > length line")
    case True
    then obtain b where "fixed_append line cur = Some b" "big b" "asString b = asString cur @ line"
      using big_append [OF cur(2)] by blast
    then show ?thesis
      using True cur inv by (auto simp: async_append_def async_inv_def front_inv_def back_inv_def written_def unwritten_def
          split: backend_pc.splits)
  next
    case False
    define fresh where "fresh = (case nextBuffer s of Some b \<Rightarrow> b | None \<Rightarrow> FixedBuffer_new g)"
    have "blank (Some fresh)"
      using inv blank_garbage [OF g] by (auto simp: fresh_def async_inv_def front_inv_def split: option.splits)
    then have f: "asString fresh = []" "big fresh" "avail fresh > length line"
      using blank_text line by auto
    obtain b where "fixed_append line fresh = Some b" "big b" "asString b = line"
      using big_append [OF f(2,3)] f(1) by auto
    then show ?thesis
      using False cur inv by (auto simp: async_append_def fresh_def [symmetric] async_inv_def front_inv_def back_inv_def
          written_def unwritten_def split: backend_pc.splits)
  qed
qed

lemma backend_swap_ok:
  assumes "async_inv filename s" "blank (newBuffer1 s)" "blank (newBuffer2 s)" "buffersToWrite s = []" "bpc s \<noteq> NotStarted"
  shows "\<exists>s'. backend_swap s = Some s' \<and> async_inv filename s'"
proof -
  obtain cur where cur: "currentBuffer s = Some cur" "big cur"
    using assms(1) by (auto simp: async_inv_def front_inv_def)
  obtain b1 where b1: "newBuffer1 s = Some b1" "big b1" "asString b1 = []"
    using assms(2) blank_text by (cases "newBuffer1 s") auto
  define s1 where "s1 = s\<lparr>fullBuffers := [], buffersToWrite := fullBuffers s @ [cur], currentBuffer := Some b1,
    newBuffer1 := None, bpc := Writing\<rparr>"
  define s2 where "s2 = s1\<lparr>nextBuffer := newBuffer2 s, newBuffer2 := None\<rparr>"
  have swap: "backend_swap s = Some (if nextBuffer s = None then s2 else s1)"
    using assms(4) cur b1 by (cases "nextBuffer s") (simp_all add: backend_swap_def s1_def s2_def Let_def)
  have front: "\<forall>b \<in> set (fullBuffers s). big b" "nextBuffer s = None \<longrightarrow> fullBuffers s \<noteq> []"
      "nextBuffer s \<noteq> None \<longrightarrow> blank (nextBuffer s)"
    and bk: "\<exists>l. outfile s = Some l \<and> current l \<noteq> None \<and> names_inv filename l"
    and bytes: "\<not> dropped s \<longrightarrow> written s @ unwritten s = concat (loglines s)"
    using assms(1,5) by (auto simp: async_inv_def front_inv_def back_inv_def)
  have "written s1 = written s" "written s2 = written s" "unwritten s1 = unwritten s" "unwritten s2 = unwritten s"
    using cur b1 assms(4) by (simp_all add: s1_def s2_def written_def unwritten_def)
  moreover have "dropped s1 = dropped s" "loglines s1 = loglines s" "dropped s2 = dropped s" "loglines s2 = loglines s"
    by (simp_all add: s1_def s2_def)
  moreover have "front_inv s1" if "nextBuffer s \<noteq> None"
    using that front cur b1 by (simp add: s1_def front_inv_def)
  moreover have "front_inv s2"
    using front cur b1 assms(3) by (simp add: s1_def s2_def front_inv_def)
  moreover have "back_inv filename s1"
    using bk assms(3) by (simp add: s1_def back_inv_def)
  moreover have "back_inv filename s2" if "nextBuffer s = None"
    using bk front(2) that by (simp add: s1_def s2_def back_inv_def Suc_le_eq)
  ultimately show ?thesis
    using swap bytes by (cases "nextBuffer s = None") (simp_all add: async_inv_def)
qed

lemma backend_test_ok:
  assumes "async_inv filename s" "bpc s = Testing"
  shows "\<exists>s'. backend_test s = Some s' \<and> async_inv filename s'"
proof (cases "running s \<and> fullBuffers s \<noteq> []")
  case True
  then show ?thesis
    using backend_swap_ok [OF assms(1)] assms by (auto simp: backend_test_def async_inv_def back_inv_def blank_def)
next
  case False
  then show ?thesis
    using assms by (auto simp: backend_test_def async_inv_def front_inv_def back_inv_def written_def unwritten_def
        blank_def LogFile_flush_def)
qed

lemma refill_ok:
  assumes "\<forall>b \<in> set bufs. big b" "nb = None \<and> bufs \<noteq> [] \<or> blank nb"
  shows "\<exists>b bufs'. refill nb bufs = Some (b, bufs') \<and> blank (Some b) \<and> (\<forall>b \<in> set bufs'. big b) \<and>
    length bufs' = (if nb = None then length bufs - 1 else length bufs)"
  using assms blank_reset [of "last bufs"]
  by (cases nb) (auto simp: refill_def dest: in_set_butlastD)

lemma backend_write_ok:
  assumes inv: "async_inv filename s" and pc: "bpc s = Writing" and fw: "fwrite_progress fw"
  shows "\<exists>s'. backend_write fw filename stamp tm0 tm s = Some s' \<and> async_inv filename s'"
proof -
  define bufs where "bufs = buffersToWrite s"
  have b: "bufs \<noteq> []" "\<forall>b \<in> set bufs. big b" "newBuffer1 s = None" "newBuffer2 s = None \<and> length bufs \<ge> 2 \<or> blank (newBuffer2 s)"
    using inv pc by (auto simp: bufs_def async_inv_def front_inv_def back_inv_def)
  obtain l where l: "outfile s = Some l" "current l \<noteq> None" "names_inv filename l"
    using inv pc by (auto simp: async_inv_def back_inv_def)
  define bufs1 where "bufs1 = (if length bufs > 25 then take 2 bufs else bufs)"
  obtain l' where l': "LogFile_append fw filename (dropped_message stamp (length bufs)) (fst tm0) (snd tm0) l = Some l'"
      "current l' \<noteq> None"
    using LogFile_append_ok [OF fw l(2)] by blast
  define l1 where "l1 = (if length bufs > 25 then l' else l)"
  have l1: "(if length bufs > 25
         then do {
           l' \<leftarrow> LogFile_append fw filename (dropped_message stamp (length bufs)) (fst tm0) (snd tm0) l;
           Some (l', take 2 bufs)
         }
         else Some (l, bufs)) = Some (l1, bufs1)" "current l1 \<noteq> None" "names_inv filename l1"
      "length bufs \<le> 25 \<longrightarrow> l1 = l"
    using l l' LogFile_append_names [OF l(3) l'(1) fw] by (simp_all add: l1_def bufs1_def)
  let ?calls = "map (\<lambda>i. (asString (bufs1 ! i), tm i)) [0..<length bufs1]"
  obtain l2 where l2: "append_lines fw filename ?calls l1 = Some l2" "all_text l2 = all_text l1 @ concat (map fst ?calls)"
      "current l2 \<noteq> None" "names_inv filename l2"
    using append_lines_ok [OF fw l1(2,3)] by blast
  have calls: "map fst ?calls = map asString bufs1"
    by (simp add: comp_def map_nth flip: map_map [of asString "\<lambda>i. bufs1 ! i", unfolded comp_def])
  define bufs2 where "bufs2 = (if length bufs1 > 2 then take 2 bufs1 else bufs1)"
  have b2: "bufs2 \<noteq> []" "\<forall>b \<in> set bufs2. big b" "newBuffer2 s = None \<longrightarrow> length bufs2 \<ge> 2"
    using b by (auto simp: bufs2_def bufs1_def dest: in_set_takeD)
  obtain nb1 bufs3 where r1: "refill None bufs2 = Some (nb1, bufs3)" "blank (Some nb1)" "\<forall>b \<in> set bufs3. big b"
      "length bufs3 = length bufs2 - 1"
    using refill_ok [OF b2(2), of None] b2(1) by auto
  have "newBuffer2 s = None \<and> bufs3 \<noteq> [] \<or> blank (newBuffer2 s)"
    using b(4) b2(3) r1(4) by auto
  from refill_ok [OF r1(3) this] obtain nb2 bufs4 where r2: "refill (newBuffer2 s) bufs3 = Some (nb2, bufs4)" "blank (Some nb2)"
    by blast
  let ?s = "s\<lparr>outfile := Some l2, newBuffer1 := Some nb1, newBuffer2 := Some nb2, buffersToWrite := [], bpc := Testing,
         dropped := (dropped s \<or> length bufs > 25)\<rparr>"
  have "backend_write fw filename stamp tm0 tm s = Some ?s"
    unfolding backend_write_def bufs_def [symmetric] l(1) Let_def bind.bind_lunit l1(1) prod.case l2(1) bufs2_def [symmetric]
      b(3) r1(1) r2(1)
    using b(1) l2(3) by (auto simp: LogFile_flush_def)
  moreover have "front_inv ?s" "back_inv filename ?s"
    using inv r1(2) r2(2) l2(3,4) by (auto simp: async_inv_def front_inv_def back_inv_def)
  moreover have "written ?s @ unwritten ?s = concat (loglines s)" if "\<not> dropped s" "length bufs \<le> 25"
    using inv that l1(4) l2(2) l(1) calls by (auto simp: async_inv_def written_def unwritten_def bufs1_def bufs_def)
  ultimately show ?thesis by (simp add: async_inv_def)
qed

lemma async_start_ok:
  assumes "async_inv filename s" "async_enabled (Start g1 g2 base rollsz now) s"
  shows "\<exists>s'. async_start g1 g2 filename base rollsz now s = Some s' \<and> async_inv filename s'"
proof -
  obtain l where "LogFile_new filename base rollsz 3 now = Some l" "current l \<noteq> None" "all_text l = []" "names_inv filename l"
    using LogFile_new_ok [of base now filename rollsz 3] assms(2) by auto
  then show ?thesis
    using assms by (auto simp: async_start_def async_inv_def front_inv_def back_inv_def written_def unwritten_def)
qed

lemma async_step_ok:
  assumes inv: "async_inv filename s" and op: "async_enabled op s" and fw: "fwrite_progress fw"
  shows "\<exists>s'. async_step fw filename op s = Some s' \<and> async_inv filename s'"
proof (cases op)
  case (Append g line)
  then show ?thesis using async_append_ok [OF inv, of g line] op by simp
next
  case Stop
  then show ?thesis
    using inv
    by (cases "bpc s") (auto simp: async_stop_def async_inv_def front_inv_def back_inv_def written_def unwritten_def)
next
  case (Start g1 g2 base rollsz now)
  then show ?thesis using async_start_ok [OF inv, of g1 g2 base rollsz now] op by simp
next
  case BackTest
  then show ?thesis using backend_test_ok [OF inv] op by simp
next
  case BackWake
  have "blank (newBuffer1 s)" "blank (newBuffer2 s)" "buffersToWrite s = []" "bpc s \<noteq> NotStarted"
    using inv op BackWake by (auto simp: async_inv_def back_inv_def)
  then show ?thesis using backend_swap_ok [OF inv] BackWake by simp
next
  case (BackWrite stamp tm0 tm)
  then show ?thesis using backend_write_ok [OF inv _ fw] op by simp
qed

lemma async_reachable_inv:
  assumes "async_reachable fw filename s" "fwrite_progress fw"
  shows "async_inv filename s"
  using assms
proof (induction rule: async_reachable.induct)
  case (new g1 g2)
  have "asString (fixed_bzero (FixedBuffer_new g1)) = []" "big (fixed_bzero (FixedBuffer_new g1))"
    using blank_text [OF blank_new [OF new(1)]] by auto
  then show ?case
    using blank_new [OF new(2)] by (simp add: AsyncLogging_new_def async_inv_def front_inv_def back_inv_def written_def unwritten_def)
next
  case (step s op s')
  then show ?case using async_step_ok [of filename s op fw] by auto
qed

section \<open>Properties\<close>

text \<open>
  C20. Asynchronous logging, in any interleaving of the threads that append with the logging thread. No assertion
  fails and no empty pointer is used. As long as the logging thread never fell more than 25 buffers behind, the
  files hold, in order and without loss, a prefix of what was appended, and the rest is in the buffers.
\<close>

theorem async_logging_keeps_lines:
  assumes "async_reachable fw filename s" "fwrite_progress fw"
  shows "(async_enabled op s \<longrightarrow> async_step fw filename op s \<noteq> None) \<and>
    (\<not> dropped s \<longrightarrow> written s @ unwritten s = concat (loglines s))"
  using async_reachable_inv [OF assms] async_step_ok [OF _ _ assms(2), of filename s op] by (auto simp: async_inv_def)

lemma eager_fwrite: "fwrite_progress (\<lambda>f d. length d)"
  by (simp add: fwrite_progress_def)

lemma async_started:
  "\<exists>s. async_reachable (\<lambda>f d. length d) print_int s \<and> bpc s = Testing \<and> running s \<and> \<not> dropped s \<and> loglines s = [] \<and>
     fullBuffers s = []"
proof -
  let ?g = "replicate kLargeBuffer (CHR 0x00)"
  let ?s = "AsyncLogging_new ?g ?g"
  have r: "async_reachable (\<lambda>f d. length d) print_int ?s" by (intro async_reachable.new) simp_all
  have en: "async_enabled (Start ?g ?g ''log'' 1000 1) ?s" by (simp add: AsyncLogging_new_def)
  obtain s where s: "async_step (\<lambda>f d. length d) print_int (Start ?g ?g ''log'' 1000 1) ?s = Some s"
    using async_step_ok [OF async_reachable_inv [OF r eager_fwrite] en eager_fwrite] by auto
  then have "bpc s = Testing" "running s" "\<not> dropped s" "loglines s = []" "fullBuffers s = []"
    by (auto simp: async_start_def AsyncLogging_new_def bind_eq_Some_conv)
  then show ?thesis using async_reachable.step [OF r en s] by blast
qed

theorem async_logging_keeps_lines_witness:
  "\<exists>s. async_reachable (\<lambda>f d. length d) print_int s \<and> \<not> dropped s \<and> async_step (\<lambda>f d. length d) print_int BackTest s \<noteq> None \<and>
     written s @ unwritten s = concat (loglines s)"
proof -
  obtain s where s: "async_reachable (\<lambda>f d. length d) print_int s" "bpc s = Testing" "\<not> dropped s" using async_started by blast
  then show ?thesis
    using async_logging_keeps_lines [OF s(1) eager_fwrite, of BackTest] by auto
qed

fun async_run :: "fwrite \<Rightarrow> (int \<Rightarrow> string) \<Rightarrow> async_op list \<Rightarrow> async_logging \<Rightarrow> async_logging option" where
  "async_run fw filename [] s = Some s"
| "async_run fw filename (op # ops) s = do { s1 \<leftarrow> async_step fw filename op s; async_run fw filename ops s1 }"

lemma async_append_current:
  assumes "async_inv filename s" "length g = kLargeBuffer" "length line < kLargeBuffer" "async_append g line s = Some s'"
  shows "\<exists>b pre. currentBuffer s' = Some b \<and> asString b = pre @ line \<and> bpc s' = bpc s \<and> buffersToWrite s' = buffersToWrite s \<and>
    dropped s' = dropped s"
proof -
  obtain cur where cur: "currentBuffer s = Some cur" "big cur"
    using assms(1) by (auto simp: async_inv_def front_inv_def)
  show ?thesis
  proof (cases "avail cur > length line")
    case True
    then show ?thesis using big_append [OF cur(2) True] assms(4) cur(1) by (auto simp: async_append_def)
  next
    case False
    have "blank (Some (case nextBuffer s of Some b \<Rightarrow> b | None \<Rightarrow> FixedBuffer_new g))"
      using assms(1) blank_garbage [OF assms(2)] by (auto simp: async_inv_def front_inv_def split: option.splits)
    then show ?thesis
      using big_append [of "case nextBuffer s of Some b \<Rightarrow> b | None \<Rightarrow> FixedBuffer_new g" line] blank_text assms(3,4) False cur(1)
      by (auto simp: async_append_def)
  qed
qed

text \<open>
  Stopping loses lines. A line that is appended while the logging thread writes is still in the current buffer when
  the thread finds \<^verbatim>\<open>running_\<close> false; the thread then ends without writing it.
\<close>

theorem stop_loses_lines:
  assumes "async_reachable fw filename s" "fwrite_progress fw" "bpc s = Writing"
    and g: "length g = kLargeBuffer" and line: "length line < kLargeBuffer"
  shows "\<exists>s' pre. async_run fw filename [Append g line, Stop, BackWrite stamp tm0 tm, BackTest] s = Some s' \<and>
    bpc s' = Finished \<and> unwritten s' = pre @ line"
proof -
  have inv: "async_inv filename s" by (rule async_reachable_inv [OF assms(1,2)])
  obtain s1 where s1: "async_append g line s = Some s1" "async_inv filename s1"
    using async_append_ok [OF inv g line] by blast
  obtain b pre where b: "currentBuffer s1 = Some b" "asString b = pre @ line" "bpc s1 = Writing"
    using async_append_current [OF inv g line s1(1)] assms(3) by auto
  have stop: "async_inv filename (async_stop s1)" "bpc (async_stop s1) = Writing"
    using async_step_ok [OF s1(2) _ assms(2), of Stop] b(3) by simp_all (simp add: async_stop_def)
  obtain s2 where s2: "backend_write fw filename stamp tm0 tm (async_stop s1) = Some s2" "async_inv filename s2"
    using backend_write_ok [OF stop assms(2)] by blast
  then have "currentBuffer s2 = Some b" "bpc s2 = Testing" "\<not> running s2"
    using b(1) by (auto simp: backend_write_def async_stop_def bind_eq_Some_conv Let_def)
  moreover obtain s3 where "backend_test s2 = Some s3"
    using backend_test_ok [OF s2(2) \<open>bpc s2 = Testing\<close>] by blast
  ultimately have "bpc s3 = Finished" "currentBuffer s3 = Some b"
    by (auto simp: backend_test_def bind_eq_Some_conv)
  then show ?thesis
    using s1(1) s2(1) \<open>backend_test s2 = Some s3\<close> b(2) by (auto simp: unwritten_def)
qed

end
