(* ===== verification/Base_Date.thy ===== *)
theory Base_Date
  imports Base_Time
begin

text \<open>
  Dates (\<^verbatim>\<open>muduo/base/Date.h\<close>, \<^verbatim>\<open>Date.cc\<close> of the annotated library): a day of the Gregorian calendar as its Julian day
  number. The two conversions are shown inverse to each other on the whole calendar from the year -4799 on, which
  includes the documented range of 1900 to 2500, and the counting of the days is shown to follow the calendar. The
  values are \<open>int\<close>: within the documented range no intermediate value comes near the limits of a 32-bit \<^verbatim>\<open>int\<close>.
\<close>

record year_month_day =
  year :: int
  month :: int
  day :: int

definition getJulianDayNumber :: "int \<Rightarrow> int \<Rightarrow> int \<Rightarrow> int" where
  "getJulianDayNumber yr mon dy =
     (let a = cdiv (14 - mon) 12;
          y = yr + 4800 - a;
          m = mon + 12 * a - 3
      in dy + cdiv (153 * m + 2) 5 + y * 365 + cdiv y 4 - cdiv y 100 + cdiv y 400 - 32045)"

definition getYearMonthDay :: "int \<Rightarrow> year_month_day" where
  "getYearMonthDay julianDayNumber =
     (let a = julianDayNumber + 32044;
          b = cdiv (4 * a + 3) 146097;
          c = a - cdiv (b * 146097) 4;
          d = cdiv (4 * c + 3) 1461;
          e = c - cdiv (1461 * d) 4;
          m = cdiv (5 * e + 2) 153
      in \<lparr>year = b * 100 + d - 4800 + cdiv m 10, month = m + 3 - 12 * cdiv m 10, day = e - cdiv (153 * m + 2) 5 + 1\<rparr>)"

definition kJulianDayOf1970_01_01 :: int where
  "kJulianDayOf1970_01_01 = getJulianDayNumber 1970 1 1"

definition kDaysPerWeek :: int where
  "kDaysPerWeek = 7"

record date =
  julianDayNumber :: int

definition Date_invalid :: date where
  "Date_invalid = \<lparr>julianDayNumber = 0\<rparr>"

definition Date_ymd :: "int \<Rightarrow> int \<Rightarrow> int \<Rightarrow> date" where
  "Date_ymd y m d = \<lparr>julianDayNumber = getJulianDayNumber y m d\<rparr>"

definition Date_julian :: "int \<Rightarrow> date" where
  "Date_julian jdn = \<lparr>julianDayNumber = jdn\<rparr>"

text \<open>From the fields of \<^verbatim>\<open>struct tm\<close> that are read: \<^verbatim>\<open>tm_year\<close>, \<^verbatim>\<open>tm_mon\<close>, \<^verbatim>\<open>tm_mday\<close>.\<close>

definition Date_tm :: "int \<Rightarrow> int \<Rightarrow> int \<Rightarrow> date" where
  "Date_tm tyear tmon tmday = \<lparr>julianDayNumber = getJulianDayNumber (tyear + 1900) (tmon + 1) tmday\<rparr>"

definition swap_date :: "date \<Rightarrow> date \<Rightarrow> date \<times> date" where
  "swap_date a b = (a\<lparr>julianDayNumber := julianDayNumber b\<rparr>, b\<lparr>julianDayNumber := julianDayNumber a\<rparr>)"

definition valid_date :: "date \<Rightarrow> bool" where
  "valid_date d \<longleftrightarrow> julianDayNumber d > 0"

definition yearMonthDay :: "date \<Rightarrow> year_month_day" where
  "yearMonthDay d = getYearMonthDay (julianDayNumber d)"

definition Date_year :: "date \<Rightarrow> int" where
  "Date_year d = year (yearMonthDay d)"

definition Date_month :: "date \<Rightarrow> int" where
  "Date_month d = month (yearMonthDay d)"

definition Date_day :: "date \<Rightarrow> int" where
  "Date_day d = day (yearMonthDay d)"

definition toIsoString :: "date \<Rightarrow> string" where
  "toIsoString d =
     (let ymd = yearMonthDay d
      in snprintf 32 (pad_left (CHR '' '') 4 (print_int (year ymd)) @ ''-'' @ print_int0 2 (month ymd) @ ''-'' @ print_int0 2 (day ymd)))"

definition weekDay :: "date \<Rightarrow> int" where
  "weekDay d = cmod (julianDayNumber d + 1) kDaysPerWeek"

definition date_less :: "date \<Rightarrow> date \<Rightarrow> bool" where
  "date_less x y \<longleftrightarrow> julianDayNumber x < julianDayNumber y"

definition date_eq :: "date \<Rightarrow> date \<Rightarrow> bool" where
  "date_eq x y \<longleftrightarrow> julianDayNumber x = julianDayNumber y"

section \<open>The Gregorian calendar\<close>

definition leap :: "int \<Rightarrow> bool" where
  "leap y \<longleftrightarrow> 4 dvd y \<and> (\<not> 100 dvd y \<or> 400 dvd y)"

definition days_in_month :: "int \<Rightarrow> int \<Rightarrow> int" where
  "days_in_month y m = (if m = 2 then if leap y then 29 else 28 else if m \<in> {4, 6, 9, 11} then 30 else 31)"

definition calendar_day :: "int \<Rightarrow> int \<Rightarrow> int \<Rightarrow> bool" where
  "calendar_day y m d \<longleftrightarrow> 1 \<le> m \<and> m \<le> 12 \<and> 1 \<le> d \<and> d \<le> days_in_month y m"

definition next_day :: "int \<times> int \<times> int \<Rightarrow> int \<times> int \<times> int" where
  "next_day = (\<lambda>(y, m, d). if d < days_in_month y m then (y, m, d + 1) else if m < 12 then (y, m + 1, 1) else (y + 1, 1, 1))"

section \<open>The conversions\<close>

text \<open>Years begin in March: \<open>y\<close> counts such years from -4800, \<open>m\<close> months from March, \<open>e\<close> days from 1 March.\<close>

definition march_day :: "int \<Rightarrow> int \<Rightarrow> int" where
  "march_day m d = d - 1 + (153 * m + 2) div 5"

definition day_count :: "int \<Rightarrow> int \<Rightarrow> int" where
  "day_count y e = 365 * y + y div 4 - y div 100 + y div 400 + e"

lemma month_cases:
  assumes "(1 :: int) \<le> m" "m \<le> 12"
  shows "m \<in> {1, 2, 3, 4, 5, 6, 7, 8, 9, 10, 11, 12}"
  using assms by (simp only: insert_iff empty_iff) presburger

lemma julian_march:
  assumes "1 \<le> m" "m \<le> 12" "-4799 \<le> y"
  shows "getJulianDayNumber y m d + 32044 =
    (if m \<le> 2 then day_count (y + 4799) (march_day (m + 9) d) else day_count (y + 4800) (march_day (m - 3) d))"
proof -
  have a: "cdiv (14 - m) 12 = (if m \<le> 2 then 1 else 0)"
    using month_cases [OF assms(1,2)] by (auto simp: cdiv_nonneg)
  show ?thesis
    using assms by (simp add: getJulianDayNumber_def a Let_def cdiv_nonneg day_count_def march_day_def add.commute)
qed

text \<open>How the year and the day in it are found again.\<close>

lemma obtain_div4:
  obtains k s :: int where "x = 4 * k + s" "0 \<le> s" "s \<le> 3" "x div 4 = k" "x mod 4 = s"
proof -
  have "x = 4 * (x div 4) + x mod 4" "0 \<le> x mod 4" "x mod 4 \<le> 3" by simp_all
  then show thesis by (rule that) simp_all
qed

lemma century_split:
  assumes "0 \<le> y" "0 \<le> e" "e \<le> 364 \<or> e = 365 \<and> leap (y + 1)"
  shows "(4 * day_count y e + 3) div 146097 = y div 100"
    "day_count y e - (y div 100) * 146097 div 4 = 365 * (y mod 100) + y mod 100 div 4 + e"
proof -
  define c r where "c = y div 100" and "r = y mod 100"
  have y: "y = 100 * c + r" "0 \<le> r" "r < 100" by (simp_all add: c_def r_def)
  obtain q s where q: "c = 4 * q + s" "0 \<le> s" "s \<le> 3" "c div 4 = q" "c mod 4 = s" by (rule obtain_div4)
  obtain u v where u: "r = 4 * u + v" "0 \<le> v" "v \<le> 3" "r div 4 = u" by (rule obtain_div4)
  have y4: "y div 4 = 25 * c + u"
    by (rule int_div_pos_eq [where r = v]) (simp_all add: y(1) u(1,2) u(3) [THEN le_less_trans])
  have y400: "y div 400 = q"
    by (rule int_div_pos_eq [where r = "100 * s + r"]) (use y q in simp_all)
  define f where "f = 365 * r + u + e"
  have count: "day_count y e = 36524 * c + q + f"
    unfolding day_count_def y4 y400 c_def [symmetric] f_def using y(1) by simp
  have u24: "0 \<le> u" "u \<le> 24" using u(1-3) y(2,3) by simp_all
  have e365: "e \<le> 365" using assms(3) by auto
  have f: "0 \<le> f" "f \<le> 36523 \<or> f = 36524 \<and> s = 3"
  proof -
    show "0 \<le> f" using y(2) assms(2) u24 by (simp add: f_def)
    show "f \<le> 36523 \<or> f = 36524 \<and> s = 3"
    proof (cases "e \<le> 364 \<or> r \<le> 98")
      case True
      then have "f \<le> 36523" using e365 y(3) u24(2) by (auto simp: f_def)
      then show ?thesis ..
    next
      case False
      then have r: "r = 99" "e = 365" "leap (y + 1)" using assms(3) y(3) by auto
      have eq: "y + 1 = 100 * (c + 1)" using y(1) r(1) by simp
      have "100 dvd y + 1" unfolding eq by (rule dvd_triv_left)
      then have "400 dvd y + 1" using r(3) unfolding leap_def by blast
      then obtain k where "y + 1 = 400 * k" by (elim dvdE)
      then have "4 * q + s + 1 = 4 * k" using q(1) eq by simp
      then have "s = 3" using q(2,3) by presburger
      moreover have "u = 24" using u(1-3) r(1) by presburger
      ultimately show ?thesis using r by (simp add: f_def)
    qed
  qed
  show "(4 * day_count y e + 3) div 146097 = y div 100"
    unfolding c_def [symmetric] count
    by (rule int_div_pos_eq [where r = "4 * f + 3 - s"]) (use q(1-3) f in auto)
  have "c * 146097 div 4 = 36524 * c + q"
    by (rule int_div_pos_eq [where r = s]) (use q(1-3) in auto)
  then show "day_count y e - (y div 100) * 146097 div 4 = 365 * (y mod 100) + y mod 100 div 4 + e"
    unfolding c_def [symmetric] r_def [symmetric] count f_def u(4) by simp
qed

lemma year_split:
  assumes "0 \<le> (r :: int)" "0 \<le> e" "e \<le> 364 \<or> e = 365 \<and> r mod 4 = 3"
  shows "(4 * (365 * r + r div 4 + e) + 3) div 1461 = r" "365 * r + r div 4 + e - 1461 * r div 4 = e"
proof -
  obtain u v where u: "r = 4 * u + v" "0 \<le> v" "v \<le> 3" "r div 4 = u" "r mod 4 = v" by (rule obtain_div4)
  have e: "e \<le> 364 \<or> e = 365 \<and> v = 3" using assms(3) u(5) by simp
  show "(4 * (365 * r + r div 4 + e) + 3) div 1461 = r"
    unfolding u(4) by (rule int_div_pos_eq [where r = "4 * e + 3 - v"]) (use u(1-3) e assms(2) in auto)
  have "1461 * r div 4 = 365 * r + u"
    by (rule int_div_pos_eq [where r = v]) (use u(1-3) in auto)
  then show "365 * r + r div 4 + e - 1461 * r div 4 = e" unfolding u(4) by simp
qed

text \<open>The month and the day in it, with the lengths of the months counted from March.\<close>

definition march_length :: "int \<Rightarrow> int" where
  "march_length m = (if m = 11 then 29 else if m \<in> {1, 3, 6, 8} then 30 else 31)"

lemma month_split:
  assumes "0 \<le> m" "m \<le> 11" "1 \<le> d" "d \<le> march_length m"
  shows "(5 * march_day m d + 2) div 153 = m" "march_day m d - (153 * m + 2) div 5 + 1 = d" "0 \<le> march_day m d" "march_day m d \<le> 365"
proof -
  have "m \<in> {0, 1, 2, 3, 4, 5, 6, 7, 8, 9, 10, 11}"
    using assms(1,2) by (simp only: insert_iff empty_iff) presburger
  then have "153 * m \<le> 5 * march_day m d + 2 \<and> 5 * march_day m d + 2 < 153 * m + 153 \<and> march_day m d \<le> 365"
    using assms(3,4) by (auto simp: march_day_def march_length_def)
  then show "(5 * march_day m d + 2) div 153 = m" "march_day m d \<le> 365"
    by (auto intro!: int_div_pos_eq [where r = "5 * march_day m d + 2 - 153 * m"])
  show "march_day m d - (153 * m + 2) div 5 + 1 = d" by (simp add: march_day_def)
  show "0 \<le> march_day m d" using assms by (simp add: march_day_def)
qed

lemma leap_mod4: "leap y \<Longrightarrow> y mod 4 = 0"
  by (auto simp: leap_def)

lemma ymd_of_count:
  assumes y: "0 \<le> y" and m: "0 \<le> m" "m \<le> 11" and d: "1 \<le> d" "d \<le> march_length m"
    and feb: "m = 11 \<longrightarrow> d = 29 \<longrightarrow> leap (y + 1)" and N: "N + 32044 = day_count y (march_day m d)"
  shows "getYearMonthDay N = \<lparr>year = y - 4800 + (if m \<ge> 10 then 1 else 0), month = m + 3 - (if m \<ge> 10 then 12 else 0), day = d\<rparr>"
proof -
  let ?e = "march_day m d" and ?r = "y mod 100"
  note ms = month_split [OF m d]
  have "m = 11 \<and> d = 29" if "?e = 365"
  proof -
    have "m \<in> {0, 1, 2, 3, 4, 5, 6, 7, 8, 9, 10, 11}"
      using m by (simp only: insert_iff empty_iff) presburger
    then show ?thesis using that d by (auto simp: march_day_def march_length_def)
  qed
  then have e: "?e \<le> 364 \<or> ?e = 365 \<and> leap (y + 1)"
    using ms(4) feb by (cases "?e = 365") auto
  have "?r mod 4 = y mod 4" by (simp add: mod_mod_cancel)
  moreover have "y mod 4 = 3" if "leap (y + 1)"
    using leap_mod4 [OF that] by presburger
  ultimately have e': "?e \<le> 364 \<or> ?e = 365 \<and> ?r mod 4 = 3"
    using e by auto
  note cs = century_split [OF y ms(3) e]
  note ys = year_split [OF _ ms(3) e']
  have r: "0 \<le> ?r" by simp
  have count: "0 \<le> day_count y ?e"
    using y ms(3) zdiv_mono2 [of y 4 100] pos_imp_zdiv_nonneg_iff [of 400 y] unfolding day_count_def by linarith
  have m10: "m div 10 = (if m \<ge> 10 then 1 else 0)"
    using m by (auto simp: div_pos_pos_trivial intro: int_div_pos_eq [where r = "m - 10"])
  have step1: "cdiv (4 * (N + 32044) + 3) 146097 = y div 100"
    using cs(1) count by (simp add: N cdiv_nonneg)
  have step2: "N + 32044 - cdiv (y div 100 * 146097) 4 = 365 * ?r + ?r div 4 + ?e"
    using cs(2) y by (simp add: N cdiv_nonneg pos_imp_zdiv_nonneg_iff)
  have step3: "cdiv (4 * (365 * ?r + ?r div 4 + ?e) + 3) 1461 = ?r"
    using ys(1) [OF r] ms(3) by (simp add: cdiv_nonneg)
  have step4: "365 * ?r + ?r div 4 + ?e - cdiv (1461 * ?r) 4 = ?e"
    using ys(2) [OF r] by (simp add: cdiv_nonneg)
  have step5: "cdiv (5 * ?e + 2) 153 = m" "cdiv (153 * m + 2) 5 = (153 * m + 2) div 5" "cdiv m 10 = m div 10"
    using ms m by (simp_all add: cdiv_nonneg)
  have "y div 100 * 100 + ?r = y" by simp
  then show ?thesis
    unfolding getYearMonthDay_def Let_def step1 step2 step3 step4 step5 m10 using ms(2) by auto
qed

lemma march_of_month:
  assumes "calendar_day y m d"
  shows "m \<le> 2 \<Longrightarrow> 0 \<le> m + 9 \<and> m + 9 \<le> 11 \<and> 1 \<le> d \<and> d \<le> march_length (m + 9) \<and> (m + 9 = 11 \<longrightarrow> d = 29 \<longrightarrow> leap y)"
    "m > 2 \<Longrightarrow> 0 \<le> m - 3 \<and> m - 3 \<le> 9 \<and> 1 \<le> d \<and> d \<le> march_length (m - 3)"
  using assms by (auto simp: calendar_day_def days_in_month_def march_length_def split: if_splits)

lemma leap_shift: "leap (y + 4800) = leap y"
proof -
  have "k dvd y + 4800 \<longleftrightarrow> k dvd y" if "k dvd 4800" for k using that by (rule dvd_add_left_iff)
  then show ?thesis by (simp add: leap_def)
qed

lemma getYearMonthDay_julian:
  assumes "calendar_day y m d" "-4799 \<le> y"
  shows "getYearMonthDay (getJulianDayNumber y m d) = \<lparr>year = y, month = m, day = d\<rparr>"
proof -
  have m: "1 \<le> m" "m \<le> 12" using assms(1) by (simp_all add: calendar_day_def)
  note j = julian_march [OF m assms(2), of d]
  show ?thesis
  proof (cases "m \<le> 2")
    case True
    note b = march_of_month(1) [OF assms(1) True]
    have "leap (y + 4799 + 1) = leap y" using leap_shift [of y] by (simp add: add.commute)
    then show ?thesis
      using ymd_of_count [of "y + 4799" "m + 9" d "getJulianDayNumber y m d"] b j True assms(2) m by simp
  next
    case False
    then have b: "0 \<le> m - 3 \<and> m - 3 \<le> 9 \<and> 1 \<le> d \<and> d \<le> march_length (m - 3)"
      using march_of_month(2) [OF assms(1)] by simp
    then show ?thesis
      using ymd_of_count [of "y + 4800" "m - 3" d "getJulianDayNumber y m d"] j False assms(2) by simp
  qed
qed

text \<open>The next day of the calendar has the next number.\<close>

lemma div_succ: "0 < k \<Longrightarrow> (y + 1) div k = y div k + (if k dvd y + 1 then 1 else 0)" for y k :: int
proof -
  assume k: "0 < k"
  define j r where "j = (y + 1) div k" and "r = (y + 1) mod k"
  have jr: "y + 1 = k * j + r" "0 \<le> r" "r < k" using k by (simp_all add: j_def r_def)
  show ?thesis
  proof (cases "k dvd y + 1")
    case True
    then have "r = 0" by (simp add: r_def)
    then have "y = k * (j - 1) + (k - 1)" using jr(1) by (simp add: algebra_simps)
    then have "y div k = j - 1" by (rule int_div_pos_eq) (use k in simp_all)
    then show ?thesis using True by (simp add: j_def)
  next
    case False
    then have "r \<noteq> 0" by (simp add: r_def dvd_eq_mod_eq_0)
    then have "0 \<le> r - 1" "r - 1 < k" using jr by linarith+
    moreover have "y = k * j + (r - 1)" using jr(1) by simp
    ultimately have "y div k = j" using int_div_pos_eq by blast
    then show ?thesis using False by (simp add: j_def)
  qed
qed

lemma day_count_succ: "day_count (y + 1) 0 = day_count y 365 + (if leap (y + 1) then 1 else 0)"
proof -
  have dvd: "100 dvd y + 1" if "400 dvd y + 1" by (rule dvd_trans [OF _ that]) simp
  have dvd': "4 dvd y + 1" if "100 dvd y + 1" by (rule dvd_trans [OF _ that]) simp
  note d4 = div_succ [of 4 y, OF zero_less_numeral] and d100 = div_succ [of 100 y, OF zero_less_numeral]
    and d400 = div_succ [of 400 y, OF zero_less_numeral]
  show ?thesis
    unfolding day_count_def leap_def d4 d100 d400
    by (cases "4 dvd y + 1"; cases "100 dvd y + 1"; cases "400 dvd y + 1") (use dvd dvd' in \<open>simp_all only: if_True if_False simp_thms ring_distribs\<close>)
qed

lemma day_count_add: "day_count y e = day_count y 0 + e"
  by (simp add: day_count_def)

lemma julian_shift: "getJulianDayNumber y m d = getJulianDayNumber y m 0 + d"
  by (simp add: getJulianDayNumber_def Let_def)

lemma julian_feb:
  assumes "-4799 \<le> y"
  shows "getJulianDayNumber y 3 1 = getJulianDayNumber y 2 (days_in_month y 2) + 1"
proof -
  have "getJulianDayNumber y 3 1 + 32044 = day_count (y + 4799 + 1) 0"
    using julian_march [of 3 y 1] assms by (simp add: march_day_def add.commute)
  moreover have "getJulianDayNumber y 2 (days_in_month y 2) + 32044 = day_count (y + 4799) 0 + march_day 11 (days_in_month y 2)"
    using julian_march [of 2 y "days_in_month y 2"] assms day_count_add [of "y + 4799" "march_day 11 (days_in_month y 2)"] by simp
  moreover have "leap (y + 4799 + 1) = leap y" using leap_shift [of y] by (simp add: add.commute)
  moreover have "march_day 11 (days_in_month y 2) = (if leap y then 365 else 364)"
    by (simp add: march_day_def days_in_month_def)
  ultimately show ?thesis
    using day_count_succ [of "y + 4799"] day_count_add [of "y + 4799" 365] by (simp split: if_splits)
qed

lemma march_next:
  assumes "m \<in> {1, 3, 4, 5, 6, 7, 8, 9, 10, 11, 12}"
  shows "march_day (if m = 1 then 11 else m - 2) 1 = march_day (if m = 1 then 10 else m - 3) (days_in_month y m) + 1"
  using assms by (auto simp: march_day_def days_in_month_def)

lemma julian_month:
  assumes "1 \<le> m" "m < 12" "m \<noteq> 2" "-4799 \<le> y"
  shows "getJulianDayNumber y (m + 1) 1 = getJulianDayNumber y m (days_in_month y m) + 1"
proof -
  have "m \<in> {1, 3, 4, 5, 6, 7, 8, 9, 10, 11, 12}"
    using assms by (simp only: insert_iff empty_iff) presburger
  note b = march_next [OF this, of y]
  let ?Y = "if m = 1 then y + 4799 else y + 4800"
  have "getJulianDayNumber y (m + 1) 1 + 32044 = day_count ?Y 0 + march_day (if m = 1 then 11 else m - 2) 1"
    using julian_march [of "m + 1" y 1] assms day_count_add [of ?Y "march_day (if m = 1 then 11 else m - 2) 1"]
    by (cases "m = 1") simp_all
  moreover have "getJulianDayNumber y m (days_in_month y m) + 32044 = day_count ?Y 0 + march_day (if m = 1 then 10 else m - 3) (days_in_month y m)"
    using julian_march [of m y "days_in_month y m"] assms day_count_add [of ?Y "march_day (if m = 1 then 10 else m - 3) (days_in_month y m)"]
    by (cases "m = 1") simp_all
  ultimately show ?thesis using b by linarith
qed

lemma julian_year:
  assumes "-4799 \<le> y"
  shows "getJulianDayNumber (y + 1) 1 1 = getJulianDayNumber y 12 31 + 1"
proof -
  have "getJulianDayNumber (y + 1) 1 1 + 32044 = day_count (y + 4800) 0 + march_day 10 1"
    using julian_march [of 1 "y + 1" 1] assms day_count_add [of "y + 4800" "march_day 10 1"] by (simp add: add.commute)
  moreover have "getJulianDayNumber y 12 31 + 32044 = day_count (y + 4800) 0 + march_day 9 31"
    using julian_march [of 12 y 31] assms day_count_add [of "y + 4800" "march_day 9 31"] by (simp add: add.commute)
  ultimately show ?thesis by (simp add: march_day_def)
qed

lemma getJulianDayNumber_next:
  assumes "calendar_day y m d" "-4799 \<le> y" "next_day (y, m, d) = (y', m', d')"
  shows "calendar_day y' m' d'" "y \<le> y'" "getJulianDayNumber y' m' d' = getJulianDayNumber y m d + 1"
proof -
  have m: "1 \<le> m" "m \<le> 12" "1 \<le> d" "d \<le> days_in_month y m" using assms(1) by (simp_all add: calendar_day_def)
  consider (within) "d < days_in_month y m" | (mon) "d = days_in_month y m" "m < 12" | (dec) "d = days_in_month y m" "m = 12"
    using m by linarith
  note c = this
  show "calendar_day y' m' d'"
    using c by cases (use assms(3) m in \<open>auto simp: next_day_def calendar_day_def days_in_month_def\<close>)
  show "y \<le> y'" using assms(3) by (auto simp: next_day_def split: if_splits)
  show "getJulianDayNumber y' m' d' = getJulianDayNumber y m d + 1"
    using c
  proof cases
    case within
    then show ?thesis
      using assms(3) julian_shift [of y m d] julian_shift [of y m "d + 1"] by (simp add: next_day_def)
  next
    case mon
    then show ?thesis
      using assms(3) julian_month [OF m(1) mon(2) _ assms(2)] julian_feb [OF assms(2)] by (cases "m = 2") (simp_all add: next_day_def)
  next
    case dec
    then show ?thesis
      using assms(3) julian_year [OF assms(2)] by (simp add: next_day_def days_in_month_def)
  qed
qed

text \<open>From the first day on, the days of the calendar and the numbers run in step.\<close>

definition first_number :: int where
  "first_number = getJulianDayNumber (-4799) 1 1"

definition triple :: "year_month_day \<Rightarrow> int \<times> int \<times> int" where
  "triple t = (year t, month t, day t)"

definition before :: "int \<times> int \<times> int \<Rightarrow> int \<times> int \<times> int \<Rightarrow> bool" where
  "before = (\<lambda>(y, m, d) (y', m', d'). y < y' \<or> y = y' \<and> (m < m' \<or> m = m' \<and> d < d'))"

lemma first_number_value: "first_number = -31738"
  by (simp add: first_number_def getJulianDayNumber_def cdiv_def)

lemma number_of_day:
  assumes "first_number \<le> n"
  obtains y m d where "calendar_day y m d" "-4799 \<le> y" "getJulianDayNumber y m d = n"
proof -
  have "\<exists>y m d. calendar_day y m d \<and> -4799 \<le> y \<and> getJulianDayNumber y m d = n"
    using assms
  proof (induction n rule: int_ge_induct)
    case base
    have "calendar_day (-4799) 1 1" by (simp add: calendar_day_def days_in_month_def)
    then show ?case unfolding first_number_def by blast
  next
    case (step n)
    then obtain y m d where y: "calendar_day y m d" "-4799 \<le> y" "getJulianDayNumber y m d = n" by blast
    obtain y' m' d' where n: "next_day (y, m, d) = (y', m', d')" by (metis prod_cases3)
    show ?case using getJulianDayNumber_next [OF y(1,2) n] y(2,3) by (intro exI [of _ y'] exI [of _ m'] exI [of _ d']) simp
  qed
  then show thesis using that by blast
qed

lemma getYearMonthDay_day:
  assumes "first_number \<le> n" "triple (getYearMonthDay n) = (y, m, d)"
  shows "calendar_day y m d" "-4799 \<le> y" "getJulianDayNumber y m d = n"
proof -
  obtain y' m' d' where n: "calendar_day y' m' d'" "-4799 \<le> y'" "getJulianDayNumber y' m' d' = n"
    using number_of_day [OF assms(1)] .
  then have "(y, m, d) = (y', m', d')"
    using getYearMonthDay_julian [OF n(1,2)] assms(2) by (simp add: triple_def)
  then show "calendar_day y m d" "-4799 \<le> y" "getJulianDayNumber y m d = n" using n by simp_all
qed

lemma getYearMonthDay_next:
  assumes "first_number \<le> n"
  shows "triple (getYearMonthDay (n + 1)) = next_day (triple (getYearMonthDay n))"
proof -
  obtain y m d where t: "triple (getYearMonthDay n) = (y, m, d)" by (metis prod_cases3)
  obtain y' m' d' where t': "next_day (y, m, d) = (y', m', d')" by (metis prod_cases3)
  note g = getYearMonthDay_day [OF assms t]
  note g' = getJulianDayNumber_next [OF g(1,2) t']
  have "getYearMonthDay (getJulianDayNumber y' m' d') = \<lparr>year = y', month = m', day = d'\<rparr>"
    using g'(1,2) g(2) by (intro getYearMonthDay_julian) simp_all
  then show ?thesis using g'(3) g(3) t t' by (simp add: triple_def)
qed

lemma before_next: "before t (next_day t)"
  by (cases t) (simp add: before_def next_day_def)

lemma before_trans: "before a b \<Longrightarrow> before b c \<Longrightarrow> before a c"
  by (cases a; cases b; cases c) (auto simp: before_def)

lemma before_irrefl: "\<not> before a a"
  by (cases a) (simp add: before_def)

lemma getYearMonthDay_mono:
  assumes "n < k" "first_number \<le> n"
  shows "before (triple (getYearMonthDay n)) (triple (getYearMonthDay k))"
  using assms(1)
proof (induction k rule: int_gr_induct)
  case base
  then show ?case using getYearMonthDay_next [OF assms(2)] before_next by simp
next
  case (step k)
  then have "triple (getYearMonthDay (k + 1)) = next_day (triple (getYearMonthDay k))"
    using assms(2) by (intro getYearMonthDay_next) simp
  then show ?case using before_trans [OF step.IH] before_next by simp
qed

lemma first_number_least:
  assumes "calendar_day y m d" "-4799 \<le> y"
  shows "first_number \<le> getJulianDayNumber y m d"
proof -
  have m: "1 \<le> m" "m \<le> 12" "1 \<le> d" using assms(1) by (simp_all add: calendar_day_def)
  have c: "365 * x \<le> day_count x 0" if "0 \<le> x" for x
    using that zdiv_mono2 [of x 4 100] pos_imp_zdiv_nonneg_iff [of 400 x] unfolding day_count_def by linarith
  have a: "0 \<le> march_day k d" if "0 \<le> k" for k using that m(3) by (simp add: march_day_def)
  show ?thesis
  proof (cases "m \<le> 2")
    case True
    then have "306 \<le> march_day (m + 9) d" using m by (cases "m = 1") (auto simp: march_day_def)
    then show ?thesis
      using julian_march [OF m(1,2) assms(2), of d] c [of "y + 4799"] assms(2) True day_count_add [of "y + 4799" "march_day (m + 9) d"]
      by (simp add: first_number_value)
  next
    case False
    then show ?thesis
      using c [of "y + 4800"] assms(2) julian_march [OF m(1,2) assms(2), of d] False a [of "m - 3"] day_count_add [of "y + 4800" "march_day (m - 3) d"]
      by (simp add: first_number_value)
  qed
qed

lemma julian_before:
  assumes "calendar_day y m d" "-4799 \<le> y" "calendar_day y' m' d'" "-4799 \<le> y'"
  shows "getJulianDayNumber y m d < getJulianDayNumber y' m' d' \<longleftrightarrow> before (y, m, d) (y', m', d')"
proof -
  let ?n = "getJulianDayNumber y m d" and ?k = "getJulianDayNumber y' m' d'"
  have t: "triple (getYearMonthDay ?n) = (y, m, d)" "triple (getYearMonthDay ?k) = (y', m', d')"
    using getYearMonthDay_julian [OF assms(1,2)] getYearMonthDay_julian [OF assms(3,4)] by (simp_all add: triple_def)
  note l = first_number_least [OF assms(1,2)] first_number_least [OF assms(3,4)]
  consider "?n < ?k" | "?n = ?k" | "?k < ?n" by linarith
  then show ?thesis
  proof cases
    case 1
    then show ?thesis using getYearMonthDay_mono [OF 1 l(1)] unfolding t by simp
  next
    case 2
    then have "(y, m, d) = (y', m', d')" using t by (simp only:)
    then show ?thesis using before_irrefl [of "(y, m, d)"] 2 by (simp only:) simp
  next
    case 3
    then have "before (y', m', d') (y, m, d)" using getYearMonthDay_mono [OF 3 l(2)] unfolding t by simp
    then have "\<not> before (y, m, d) (y', m', d')" using before_trans before_irrefl by blast
    then show ?thesis using 3 by simp
  qed
qed

lemma number_zero: "getJulianDayNumber (-4713) 11 24 = 0"
  by (simp add: getJulianDayNumber_def cdiv_def)

lemma thursday: "weekDay (Date_ymd 1970 1 1) = 4"
  by (simp add: weekDay_def Date_ymd_def getJulianDayNumber_def kDaysPerWeek_def cdiv_def cmod_def)

lemma weekDay_next: "0 \<le> n \<Longrightarrow> weekDay (Date_julian (n + 1)) = (weekDay (Date_julian n) + 1) mod 7"
  unfolding weekDay_def Date_julian_def kDaysPerWeek_def by (simp add: cmod_nonneg mod_add_left_eq)

lemma length_print_year:
  assumes "1000 \<le> y" "y \<le> 9999"
  shows "length (print_int y) = 4"
proof -
  have "print_int y = print_nat (nat y)" using assms(1) print_int_of_nat [of "nat y"] by simp
  moreover have "length (print_nat (nat y)) = 4"
    using length_print_nat_le [of "nat y" 4] length_print_nat_ge [of 3 "nat y"] assms
    by (simp add: le_nat_iff nat_less_iff)
  ultimately show ?thesis by simp
qed

text \<open>The text has ten characters and is not cut by the buffer; its fields are those of the day.\<close>

lemma toIsoString_fields:
  assumes "calendar_day y m d" "1000 \<le> y" "y \<le> 9999"
  shows "toIsoString (Date_ymd y m d) = print_int y @ ''-'' @ print_int0 2 m @ ''-'' @ print_int0 2 d"
    "length (toIsoString (Date_ymd y m d)) = 10"
proof -
  have md: "1 \<le> m" "m \<le> 12" "1 \<le> d" "d \<le> 31" using assms(1) by (auto simp: calendar_day_def days_in_month_def split: if_splits)
  note y = length_print_year [OF assms(2,3)]
  have len: "length (print_int y @ ''-'' @ print_int0 2 m @ ''-'' @ print_int0 2 d) = 10"
    using y md by (simp add: length_print_int0)
  have "yearMonthDay (Date_ymd y m d) = \<lparr>year = y, month = m, day = d\<rparr>"
    unfolding yearMonthDay_def Date_ymd_def using getYearMonthDay_julian [OF assms(1)] assms(2) by simp
  then show iso: "toIsoString (Date_ymd y m d) = print_int y @ ''-'' @ print_int0 2 m @ ''-'' @ print_int0 2 d"
    using y len by (simp add: toIsoString_def Let_def snprintf_def pad_left_def)
  show "length (toIsoString (Date_ymd y m d)) = 10" unfolding iso by (rule len)
qed

section \<open>Properties\<close>



end
