(* ===== verification/Base_TimeZone.thy ===== *)
theory Base_TimeZone
  imports Base_Date Net_Endian
begin

text \<open>
  Time zones (\<^verbatim>\<open>muduo/base/TimeZone.h\<close>, \<^verbatim>\<open>TimeZone.cc\<close> of the annotated library): broken-down UTC time, the reading of
  time zone files, and local time. \<^verbatim>\<open>time_t\<close> is an \<open>int\<close>; the casts to 32 bits of \<^verbatim>\<open>toUtcTime\<close> are written out. The
  content of a file is the argument of the reading functions. A pointer or an index outside its object and a
  failed assertion are \<open>None\<close>. \<^verbatim>\<open>gmtime_r\<close> and \<^verbatim>\<open>timegm\<close> of the C library are written over the calendar.
\<close>

section \<open>Broken-down time\<close>

record struct_tm =
  tm_sec :: int
  tm_min :: int
  tm_hour :: int
  tm_mday :: int
  tm_mon :: int
  tm_year :: int
  tm_wday :: int
  tm_yday :: int
  tm_isdst :: int
  tm_gmtoff :: int
  tm_zone :: "string option"

text \<open>The effect of \<^verbatim>\<open>bzero\<close>.\<close>

definition tm_zero :: struct_tm where
  "tm_zero = \<lparr>tm_sec = 0, tm_min = 0, tm_hour = 0, tm_mday = 0, tm_mon = 0, tm_year = 0, tm_wday = 0, tm_yday = 0,
     tm_isdst = 0, tm_gmtoff = 0, tm_zone = None\<rparr>"

definition kSecondsPerDay :: int where
  "kSecondsPerDay = 24 * 60 * 60"

definition int_cast :: "int \<Rightarrow> int" where
  "int_cast x = sint (word_of_int x :: 32 word)"

definition fillHMS :: "int \<Rightarrow> struct_tm \<Rightarrow> struct_tm" where
  "fillHMS seconds utc =
     (let utc = utc\<lparr>tm_sec := cmod seconds 60\<rparr>;
          minutes = cdiv seconds 60;
          utc = utc\<lparr>tm_min := cmod minutes 60\<rparr>
      in utc\<lparr>tm_hour := cdiv minutes 60\<rparr>)"

definition toUtcTime :: "int \<Rightarrow> bool \<Rightarrow> struct_tm" where
  "toUtcTime secs yday =
     (let utc = tm_zero\<lparr>tm_zone := Some ''GMT''\<rparr>;
          seconds = int_cast (cmod secs kSecondsPerDay);
          days = int_cast (cdiv secs kSecondsPerDay);
          (seconds, days) = (if seconds < 0 then (seconds + kSecondsPerDay, days - 1) else (seconds, days));
          utc = fillHMS seconds utc;
          d = Date_julian (days + kJulianDayOf1970_01_01);
          ymd = yearMonthDay d;
          utc = utc\<lparr>tm_year := year ymd - 1900, tm_mon := month ymd - 1, tm_mday := day ymd, tm_wday := weekDay d\<rparr>
      in if yday
         then (let startOfYear = Date_ymd (year ymd) 1 1
               in utc\<lparr>tm_yday := julianDayNumber d - julianDayNumber startOfYear\<rparr>)
         else utc)"

definition fromUtcTime :: "int \<Rightarrow> int \<Rightarrow> int \<Rightarrow> int \<Rightarrow> int \<Rightarrow> int \<Rightarrow> int" where
  "fromUtcTime yr mon dy hour minute seconds =
     (let d = Date_ymd yr mon dy;
          secondsInDay = hour * 3600 + minute * 60 + seconds;
          days = julianDayNumber d - kJulianDayOf1970_01_01
      in days * kSecondsPerDay + secondsInDay)"

definition fromUtcTime_tm :: "struct_tm \<Rightarrow> int" where
  "fromUtcTime_tm utc = fromUtcTime (tm_year utc + 1900) (tm_mon utc + 1) (tm_mday utc) (tm_hour utc) (tm_min utc) (tm_sec utc)"

text \<open>
  \<^verbatim>\<open>gmtime_r\<close>: the day of the calendar, the time in it, and the days of the week and of the year. \<^verbatim>\<open>timegm\<close>: months
  outside of a year are carried into the year, days outside of a month and times outside of a day count on.
\<close>

definition gmtime_r :: "int \<Rightarrow> struct_tm" where
  "gmtime_r t =
     (let n = t div 86400 + kJulianDayOf1970_01_01;
          s = t mod 86400;
          ymd = getYearMonthDay n
      in \<lparr>tm_sec = s mod 60, tm_min = s div 60 mod 60, tm_hour = s div 3600,
          tm_mday = day ymd, tm_mon = month ymd - 1, tm_year = year ymd - 1900,
          tm_wday = (t div 86400 + 4) mod 7, tm_yday = n - getJulianDayNumber (year ymd) 1 1,
          tm_isdst = 0, tm_gmtoff = 0, tm_zone = Some ''GMT''\<rparr>)"

definition timegm :: "struct_tm \<Rightarrow> int" where
  "timegm t =
     (let n = getJulianDayNumber (tm_year t + 1900 + tm_mon t div 12) (tm_mon t mod 12 + 1) 1 + (tm_mday t - 1)
      in (n - kJulianDayOf1970_01_01) * 86400 + tm_hour t * 3600 + tm_min t * 60 + tm_sec t)"

text \<open>\<^verbatim>\<open>Timestamp::toFormattedString\<close> of \<^verbatim>\<open>base/Timestamp.cc\<close>, which prints the broken-down time.\<close>

definition Timestamp_toFormattedString :: "timestamp \<Rightarrow> string" where
  "Timestamp_toFormattedString t =
     (let seconds = cdiv t kMicroSecondsPerSecond;
          microseconds = int_cast (cmod t kMicroSecondsPerSecond);
          u = gmtime_r seconds
      in snprintf 32 (pad_left (CHR '' '') 4 (print_int (tm_year u + 1900)) @ print_int0 2 (tm_mon u + 1) @ print_int0 2 (tm_mday u) @ '' '' @
           print_int0 2 (tm_hour u) @ '':'' @ print_int0 2 (tm_min u) @ '':'' @ print_int0 2 (tm_sec u) @ ''.'' @ print_int0 6 microseconds))"

section \<open>The data of a zone\<close>

record transition =
  gmttime :: int
  localtime :: int
  localtimeIdx :: int

record local_type =
  gmtOffset :: int
  isDst :: bool
  arrbIdx :: int

record tz_data =
  transitions :: "transition list"
  localtimes :: "local_type list"
  names :: "string list"
  abbreviations :: string

definition tz_empty :: tz_data where
  "tz_empty = \<lparr>transitions = [], localtimes = [], names = [], abbreviations = []\<rparr>"

text \<open>\<^verbatim>\<open>operator[]\<close> of a vector.\<close>

definition vec_at :: "'a list \<Rightarrow> int \<Rightarrow> 'a option" where
  "vec_at xs i = (if 0 \<le> i \<and> nat i < length xs then Some (xs ! nat i) else None)"

section \<open>Reading a zone file\<close>

text \<open>A \<^verbatim>\<open>logic_error\<close> with its text, or behaviour that the language leaves undefined.\<close>

datatype file_error = Logic_error string | Undefined

definition and_then :: "'e + 'a \<Rightarrow> ('a \<Rightarrow> 'e + 'b) \<Rightarrow> 'e + 'b" where
  "and_then r f = (case r of Inl e \<Rightarrow> Inl e | Inr x \<Rightarrow> f x)"

definition File_readBytes :: "int \<Rightarrow> char list \<Rightarrow> file_error + char list \<times> char list" where
  "File_readBytes n cs =
     (if n < 0 then Inl Undefined
      else if length cs < nat n then Inl (Logic_error ''no enough data'')
      else Inr (take (nat n) cs, drop (nat n) cs))"

definition File_readInt32 :: "endian \<Rightarrow> char list \<Rightarrow> file_error + int \<times> char list" where
  "File_readInt32 e cs =
     (if length cs < 4 then Inl (Logic_error ''bad int32_t data'')
      else Inr (sint (htobe e 4 (mem_load e (take 4 cs) :: 32 word)), drop 4 cs))"

definition File_readUInt8 :: "char list \<Rightarrow> file_error + int \<times> char list" where
  "File_readUInt8 cs =
     (case cs of [] \<Rightarrow> Inl (Logic_error ''bad uint8_t data'') | c # cs' \<Rightarrow> Inr (of_char c, cs'))"

text \<open>The loops that fill the local vectors \<^verbatim>\<open>trans\<close> and \<^verbatim>\<open>localtimes\<close>.\<close>

fun read_ints :: "(char list \<Rightarrow> file_error + int \<times> char list) \<Rightarrow> nat \<Rightarrow> char list \<Rightarrow> file_error + int list \<times> char list" where
  "read_ints rd 0 cs = Inr ([], cs)"
| "read_ints rd (Suc n) cs =
     and_then (rd cs) (\<lambda>(x, cs). and_then (read_ints rd n cs) (\<lambda>(xs, cs). Inr (x # xs, cs)))"

text \<open>The loop over the local time types, which are pushed into \<^verbatim>\<open>data\<close> one by one and stay there if a read throws.\<close>

definition read_type :: "endian \<Rightarrow> char list \<Rightarrow> file_error + local_type \<times> char list" where
  "read_type e cs =
     and_then (File_readInt32 e cs) (\<lambda>(gmtoff, cs).
     and_then (File_readUInt8 cs) (\<lambda>(isdst, cs).
     and_then (File_readUInt8 cs) (\<lambda>(abbrind, cs).
     Inr (\<lparr>gmtOffset = gmtoff, isDst = (isdst \<noteq> 0), arrbIdx = abbrind\<rparr>, cs))))"

fun read_types :: "endian \<Rightarrow> nat \<Rightarrow> tz_data \<Rightarrow> char list \<Rightarrow> tz_data \<times> (file_error + char list)" where
  "read_types e 0 data cs = (data, Inr cs)"
| "read_types e (Suc n) data cs =
     (case read_type e cs of
        Inl err \<Rightarrow> (data, Inl err)
      | Inr (l, cs') \<Rightarrow> read_types e n (data\<lparr>localtimes := localtimes data @ [l]\<rparr>) cs')"

text \<open>The loop that computes the transitions.\<close>

fun push_transitions :: "(int \<times> int) list \<Rightarrow> tz_data \<Rightarrow> tz_data option" where
  "push_transitions [] data = Some data"
| "push_transitions ((gmt, localIdx) # ts) data =
     (case vec_at (localtimes data) localIdx of
        None \<Rightarrow> None
      | Some l \<Rightarrow> push_transitions ts (data\<lparr>transitions := transitions data @
          [\<lparr>gmttime = gmt, localtime = gmt + gmtOffset l, localtimeIdx = localIdx\<rparr>]\<rparr>))"

text \<open>The head of the file: the six counts.\<close>

definition read_head :: "endian \<Rightarrow> char list \<Rightarrow> file_error + int list \<times> char list" where
  "read_head e cs =
     and_then (File_readBytes 4 cs) (\<lambda>(head, cs).
     if head \<noteq> ''TZif'' then Inl (Logic_error ''bad head'')
     else and_then (File_readBytes 1 cs) (\<lambda>(version, cs).
     and_then (File_readBytes 15 cs) (\<lambda>(_, cs). read_ints (File_readInt32 e) 6 cs)))"

text \<open>The \<^verbatim>\<open>reserve\<close> of a negative number, a size beyond \<^verbatim>\<open>max_size\<close>, throws a \<^verbatim>\<open>length_error\<close>, which is a \<^verbatim>\<open>logic_error\<close>.\<close>

definition read_vectors :: "endian \<Rightarrow> int \<Rightarrow> char list \<Rightarrow> file_error + (int \<times> int) list \<times> char list" where
  "read_vectors e timecnt cs =
     (if timecnt < 0 then Inl (Logic_error ''vector::reserve'')
      else and_then (read_ints (File_readInt32 e) (nat timecnt) cs) (\<lambda>(times, cs).
           and_then (read_ints File_readUInt8 (nat timecnt) cs) (\<lambda>(locals, cs). Inr (zip times locals, cs))))"

text \<open>The body of the \<^verbatim>\<open>try\<close> block: the data as it is when the block is left, and how it is left.\<close>

definition read_body :: "endian \<Rightarrow> char list \<Rightarrow> tz_data \<Rightarrow> tz_data \<times> (file_error + unit)" where
  "read_body e cs data =
     (case and_then (read_head e cs) (\<lambda>(counts, cs).
             and_then (read_vectors e (counts ! 3) cs) (\<lambda>(ts, cs). Inr (counts, ts, cs))) of
        Inl err \<Rightarrow> (data, Inl err)
      | Inr (counts, ts, cs) \<Rightarrow>
          (case read_types e (nat (counts ! 4)) data cs of
             (data, Inl err) \<Rightarrow> (data, Inl err)
           | (data, Inr cs) \<Rightarrow>
               (case push_transitions ts data of
                  None \<Rightarrow> (data, Inl Undefined)
                | Some data \<Rightarrow>
                    (case File_readBytes (counts ! 5) cs of
                       Inl err \<Rightarrow> (data, Inl err)
                     | Inr (abbr, cs) \<Rightarrow> (data\<lparr>abbreviations := abbr\<rparr>, Inr ())))))"

text \<open>The content is \<open>None\<close> if the file cannot be opened. A \<^verbatim>\<open>logic_error\<close> is caught (and its text printed).\<close>

definition readTimeZoneFile :: "endian \<Rightarrow> char list option \<Rightarrow> tz_data \<Rightarrow> (bool \<times> tz_data) option" where
  "readTimeZoneFile e content data =
     (case content of
        None \<Rightarrow> Some (True, data)
      | Some cs \<Rightarrow> (case read_body e cs data of (data', Inl Undefined) \<Rightarrow> None | (data', _) \<Rightarrow> Some (True, data')))"

section \<open>Local time\<close>

definition comp_less :: "bool \<Rightarrow> transition \<Rightarrow> transition \<Rightarrow> bool" where
  "comp_less compareGmt lhs rhs = (if compareGmt then gmttime lhs < gmttime rhs else localtime lhs < localtime rhs)"

definition comp_equal :: "bool \<Rightarrow> transition \<Rightarrow> transition \<Rightarrow> bool" where
  "comp_equal compareGmt lhs rhs = (if compareGmt then gmttime lhs = gmttime rhs else localtime lhs = localtime rhs)"

text \<open>\<^verbatim>\<open>std::lower_bound\<close>: the range of length \<open>len\<close> at \<open>first\<close> is halved until it is empty.\<close>

function lower_bound :: "('a \<Rightarrow> 'a \<Rightarrow> bool) \<Rightarrow> 'a list \<Rightarrow> 'a \<Rightarrow> nat \<Rightarrow> nat \<Rightarrow> nat" where
  "lower_bound lt xs v first len =
     (if len = 0 then first
      else let half = len div 2; middle = first + half
           in if lt (xs ! middle) v then lower_bound lt xs v (middle + 1) (len - half - 1)
              else lower_bound lt xs v first half)"
  by auto
termination by (relation "measure (\<lambda>(lt, xs, v, first, len). len)") auto

declare lower_bound.simps [simp del]

definition findLocaltime :: "tz_data \<Rightarrow> transition \<Rightarrow> bool \<Rightarrow> local_type option" where
  "findLocaltime data sentry gmt =
     (let ts = transitions data
      in if ts = [] \<or> comp_less gmt sentry (hd ts)
         then vec_at (localtimes data) 0
         else let transI = lower_bound (comp_less gmt) ts sentry 0 (length ts)
              in if transI \<noteq> length ts
                 then do {
                   transI \<leftarrow> (if comp_equal gmt sentry (ts ! transI) then Some transI
                             else do { check (transI \<noteq> 0); Some (transI - 1) });
                   vec_at (localtimes data) (localtimeIdx (ts ! transI))
                 }
                 else vec_at (localtimes data) (localtimeIdx (last ts)))"

type_synonym time_zone = "tz_data option"

definition TimeZone_file :: "endian \<Rightarrow> char list option \<Rightarrow> time_zone option" where
  "TimeZone_file e content =
     do { (ok, data) \<leftarrow> readTimeZoneFile e content tz_empty; Some (if ok then Some data else None) }"

definition TimeZone_fixed :: "int \<Rightarrow> string \<Rightarrow> time_zone" where
  "TimeZone_fixed eastOfUtc nm =
     Some (tz_empty\<lparr>localtimes := [\<lparr>gmtOffset = eastOfUtc, isDst = False, arrbIdx = 0\<rparr>], abbreviations := nm\<rparr>)"

definition TimeZone_none :: time_zone where
  "TimeZone_none = None"

definition valid_zone :: "time_zone \<Rightarrow> bool" where
  "valid_zone z \<longleftrightarrow> z \<noteq> None"

text \<open>The C string that begins at an index of the abbreviations; the index may be that of the terminating zero.\<close>

definition abbr_at :: "string \<Rightarrow> int \<Rightarrow> string option" where
  "abbr_at s i = (if 0 \<le> i \<and> nat i \<le> length s then Some (takeWhile (\<lambda>c. c \<noteq> CHR 0x00) (drop (nat i) s)) else None)"

definition toLocalTime :: "time_zone \<Rightarrow> int \<Rightarrow> struct_tm option" where
  "toLocalTime z seconds =
     do {
       data \<leftarrow> z;
       local \<leftarrow> findLocaltime data \<lparr>gmttime = seconds, localtime = 0, localtimeIdx = 0\<rparr> True;
       let localSeconds = seconds + gmtOffset local;
       let localTime = gmtime_r localSeconds;
       zone \<leftarrow> abbr_at (abbreviations data) (arrbIdx local);
       Some (localTime\<lparr>tm_isdst := (if isDst local then 1 else 0), tm_gmtoff := gmtOffset local, tm_zone := Some zone\<rparr>)
     }"

definition fromLocalTime :: "time_zone \<Rightarrow> struct_tm \<Rightarrow> int option" where
  "fromLocalTime z localTm =
     do {
       data \<leftarrow> z;
       let seconds = timegm localTm;
       local \<leftarrow> findLocaltime data \<lparr>gmttime = 0, localtime = seconds, localtimeIdx = 0\<rparr> False;
       seconds \<leftarrow>
         (if tm_isdst localTm \<noteq> 0
          then do {
            tryTm \<leftarrow> toLocalTime z (seconds - gmtOffset local);
            Some (if tm_isdst tryTm = 0 \<and> tm_hour tryTm = tm_hour localTm \<and> tm_min tryTm = tm_min localTm
                  then seconds - 3600 else seconds)
          }
          else Some seconds);
       Some (seconds - gmtOffset local)
     }"

section \<open>UTC\<close>

lemma int_cast_id: "- (2 ^ 31) \<le> x \<Longrightarrow> x < 2 ^ 31 \<Longrightarrow> int_cast x = x"
  by (simp add: int_cast_def sint_word_ariths signed_of_int signed_take_bit_int_eq_self)

lemma epoch_number: "kJulianDayOf1970_01_01 = 2440588"
  by (simp add: kJulianDayOf1970_01_01_def getJulianDayNumber_def cdiv_def)

text \<open>Truncating division with the correction of negative remainders is division that rounds down.\<close>

lemma floor_of_trunc:
  assumes "0 < b"
  shows "(if cmod a b < 0 then cmod a b + b else cmod a b) = a mod b"
    "(if cmod a b < 0 then cdiv a b - 1 else cdiv a b) = a div b"
proof -
  have "(if cmod a b < 0 then cmod a b + b else cmod a b) = a mod b \<and>
    (if cmod a b < 0 then cdiv a b - 1 else cdiv a b) = a div b"
  proof (cases "0 \<le> a")
    case True
    then show ?thesis using assms by (simp add: cmod_nonneg cdiv_nonneg not_less)
  next
    case False
    define c where "c = - a"
    have c: "a = - c" "0 < c" using False by (simp_all add: c_def)
    have q: "cdiv a b = - (c div b)" using assms c by (simp add: cdiv_def)
    have r: "cmod a b = - (c mod b)" unfolding cmod_def q by (simp add: c(1) minus_div_mult_eq_mod [symmetric] algebra_simps)
    have "\<not> 0 < c mod b \<longrightarrow> c mod b = 0" using pos_mod_sign [OF assms, of c] by linarith
    then show ?thesis
      unfolding q r using assms by (simp add: c(1) zmod_zminus1_eq_if zdiv_zminus1_eq_if)
  qed
  then show "(if cmod a b < 0 then cmod a b + b else cmod a b) = a mod b"
    "(if cmod a b < 0 then cdiv a b - 1 else cdiv a b) = a div b" by simp_all
qed

lemma day_bounds:
  assumes "- (2 ^ 37) \<le> t" "t \<le> 2 ^ 40"
  shows "-1590729 \<le> t div 86400" "t div 86400 \<le> 12725830"
    "- (2 ^ 31) \<le> cdiv t 86400" "cdiv t 86400 < 2 ^ 31" "- (2 ^ 31) \<le> cmod t 86400" "cmod t 86400 < 2 ^ 31"
proof -
  have "- (2 ^ 37) div 86400 \<le> t div 86400" "t div 86400 \<le> 2 ^ 40 div 86400"
    using assms by (intro zdiv_mono1; simp)+
  then show b: "-1590729 \<le> t div 86400" "t div 86400 \<le> 12725830" by simp_all
  have "0 \<le> t mod 86400" "t mod 86400 < 86400" by simp_all
  then show "- (2 ^ 31) \<le> cdiv t 86400" "cdiv t 86400 < 2 ^ 31" "- (2 ^ 31) \<le> cmod t 86400" "cmod t 86400 < 2 ^ 31"
    using b floor_of_trunc [of 86400 t] by (simp_all split: if_splits)
qed

lemma fillHMS_value:
  assumes "0 \<le> s"
  shows "fillHMS s u = u\<lparr>tm_sec := s mod 60, tm_min := s div 60 mod 60, tm_hour := s div 3600\<rparr>"
proof -
  have "s div 60 div 60 = s div 3600" by (simp add: zdiv_zmult2_eq [symmetric])
  then show ?thesis
    using assms by (simp add: fillHMS_def Let_def cmod_nonneg cdiv_nonneg pos_imp_zdiv_nonneg_iff)
qed

lemma weekDay_epoch:
  assumes "-2440588 \<le> n"
  shows "weekDay (Date_julian (n + 2440588)) = (n + 4) mod 7"
proof -
  have "n + 2440588 + 1 = (n + 4) + 7 * 348655" by simp
  then have "(n + 2440588 + 1) mod 7 = (n + 4) mod 7" by (simp only: mod_mult_self2)
  then show ?thesis using assms by (simp add: weekDay_def Date_julian_def kDaysPerWeek_def cmod_nonneg)
qed

lemma toUtcTime_gmtime:
  assumes "- (2 ^ 37) \<le> t" "t \<le> 2 ^ 40"
  shows "toUtcTime t True = gmtime_r t" "toUtcTime t False = (gmtime_r t)\<lparr>tm_yday := 0\<rparr>"
proof -
  note b = day_bounds [OF assms]
  have k: "kSecondsPerDay = 86400" by (simp add: kSecondsPerDay_def)
  have c: "int_cast (cmod t 86400) = cmod t 86400" "int_cast (cdiv t 86400) = cdiv t 86400"
    using b by (simp_all add: int_cast_id)
  have split: "(if cmod t 86400 < 0 then (cmod t 86400 + 86400, cdiv t 86400 - 1) else (cmod t 86400, cdiv t 86400)) =
      (t mod 86400, t div 86400)"
    using floor_of_trunc [of 86400 t] by (simp split: if_splits)
  have w: "weekDay \<lparr>julianDayNumber = t div 86400 + 2440588\<rparr> = (t div 86400 + 4) mod 7"
    using weekDay_epoch [of "t div 86400"] b(1) by (simp add: Date_julian_def)
  show "toUtcTime t True = gmtime_r t" "toUtcTime t False = (gmtime_r t)\<lparr>tm_yday := 0\<rparr>"
    unfolding toUtcTime_def k c gmtime_r_def epoch_number
    by (simp_all add: Let_def split fillHMS_value tm_zero_def Date_julian_def Date_ymd_def yearMonthDay_def w)
qed

lemma hms: "s div 3600 * 3600 + s div 60 mod 60 * 60 + s mod 60 = s" for s :: int
proof -
  have h: "s div 60 div 60 = s div 3600" by (simp add: zdiv_zmult2_eq [symmetric])
  have "s div 3600 * 60 + s div 60 mod 60 = s div 60" unfolding h [symmetric] by (rule div_mult_mod_eq)
  then have "(s div 3600 * 60 + s div 60 mod 60) * 60 + s mod 60 = s" by simp
  then show ?thesis by simp
qed

lemma gmtime_day:
  assumes "- (2 ^ 37) \<le> t"
  shows "calendar_day (tm_year (gmtime_r t) + 1900) (tm_mon (gmtime_r t) + 1) (tm_mday (gmtime_r t))"
    "-4799 \<le> tm_year (gmtime_r t) + 1900"
    "getJulianDayNumber (tm_year (gmtime_r t) + 1900) (tm_mon (gmtime_r t) + 1) (tm_mday (gmtime_r t)) = t div 86400 + 2440588"
proof -
  let ?n = "t div 86400 + 2440588"
  have "- (2 ^ 37) div 86400 \<le> t div 86400" using assms by (intro zdiv_mono1) simp_all
  then have n: "first_number \<le> ?n" by (simp add: first_number_value)
  have f: "tm_year (gmtime_r t) + 1900 = year (getYearMonthDay ?n)" "tm_mon (gmtime_r t) + 1 = month (getYearMonthDay ?n)"
    "tm_mday (gmtime_r t) = day (getYearMonthDay ?n)"
    by (simp_all add: gmtime_r_def epoch_number Let_def)
  show "calendar_day (tm_year (gmtime_r t) + 1900) (tm_mon (gmtime_r t) + 1) (tm_mday (gmtime_r t))"
    "-4799 \<le> tm_year (gmtime_r t) + 1900"
    "getJulianDayNumber (tm_year (gmtime_r t) + 1900) (tm_mon (gmtime_r t) + 1) (tm_mday (gmtime_r t)) = ?n"
    unfolding f by (rule getYearMonthDay_day [OF n], simp add: triple_def)+
qed

lemma gmtime_hms:
  "tm_hour (gmtime_r t) * 3600 + tm_min (gmtime_r t) * 60 + tm_sec (gmtime_r t) = t mod 86400"
  "0 \<le> tm_hour (gmtime_r t)" "tm_hour (gmtime_r t) < 24" "0 \<le> tm_min (gmtime_r t)" "tm_min (gmtime_r t) < 60"
  "0 \<le> tm_sec (gmtime_r t)" "tm_sec (gmtime_r t) < 60"
proof -
  have "t mod 86400 div 3600 \<le> 86399 div 3600" by (rule zdiv_mono1) simp_all
  moreover have "0 \<le> t mod 86400 div 3600" by (simp add: pos_imp_zdiv_nonneg_iff)
  moreover have f: "tm_hour (gmtime_r t) = t mod 86400 div 3600" "tm_min (gmtime_r t) = t mod 86400 div 60 mod 60"
    "tm_sec (gmtime_r t) = t mod 86400 mod 60"
    by (simp_all add: gmtime_r_def Let_def)
  ultimately show "0 \<le> tm_hour (gmtime_r t)" "tm_hour (gmtime_r t) < 24" by simp_all
  show "tm_hour (gmtime_r t) * 3600 + tm_min (gmtime_r t) * 60 + tm_sec (gmtime_r t) = t mod 86400"
    unfolding f by (rule hms)
  show "0 \<le> tm_min (gmtime_r t)" "tm_min (gmtime_r t) < 60" "0 \<le> tm_sec (gmtime_r t)" "tm_sec (gmtime_r t) < 60"
    unfolding f by simp_all
qed

lemma fromUtcTime_gmtime:
  assumes "- (2 ^ 37) \<le> t"
  shows "fromUtcTime_tm (gmtime_r t) = t"
  using gmtime_day(3) [OF assms] gmtime_hms(1) [of t] div_mult_mod_eq [of t 86400]
  by (simp add: fromUtcTime_tm_def fromUtcTime_def Let_def Date_ymd_def epoch_number kSecondsPerDay_def)

lemma add_diff_shift: "a + 1 + (d - 1) = a + d" for a d :: int
  by simp

lemma timegm_zone: "timegm (u\<lparr>tm_isdst := a, tm_gmtoff := b, tm_zone := c\<rparr>) = timegm u"
  by (simp add: timegm_def)

lemma timegm_gmtime:
  assumes "- (2 ^ 37) \<le> t"
  shows "timegm ((gmtime_r t)\<lparr>tm_isdst := a, tm_gmtoff := b, tm_zone := c\<rparr>) = t"
proof -
  have "0 \<le> tm_mon (gmtime_r t)" "tm_mon (gmtime_r t) < 12"
    using gmtime_day(1) [OF assms] by (simp_all add: calendar_day_def)
  then have m: "tm_mon (gmtime_r t) div 12 = 0" "tm_mon (gmtime_r t) mod 12 = tm_mon (gmtime_r t)" by simp_all
  let ?y = "tm_year (gmtime_r t) + 1900" and ?m = "tm_mon (gmtime_r t) + 1" and ?d = "tm_mday (gmtime_r t)"
  have shift: "getJulianDayNumber ?y ?m 1 + (?d - 1) = getJulianDayNumber ?y ?m ?d"
    unfolding julian_shift [of ?y ?m 1] julian_shift [of ?y ?m ?d] by (rule add_diff_shift)
  have "(getJulianDayNumber ?y ?m ?d - kJulianDayOf1970_01_01) * 86400 + tm_hour (gmtime_r t) * 3600 + tm_min (gmtime_r t) * 60 + tm_sec (gmtime_r t) = t"
    using fromUtcTime_gmtime [OF assms] unfolding fromUtcTime_tm_def fromUtcTime_def Let_def Date_ymd_def kSecondsPerDay_def
    by (simp add: add.assoc)
  then show ?thesis
    unfolding timegm_zone unfolding timegm_def Let_def m add_0_right shift .
qed

text \<open>A documented year keeps all values far inside of 32 bits.\<close>

lemma number_1900_2500:
  assumes "calendar_day y m d" "1900 \<le> y" "y \<le> 2500"
  shows "2415021 \<le> getJulianDayNumber y m d" "getJulianDayNumber y m d \<le> 2634531"
proof -
  have n: "getJulianDayNumber 1900 1 1 = 2415021" "getJulianDayNumber 2500 12 31 = 2634531"
    by (simp_all add: getJulianDayNumber_def cdiv_def)
  have c: "calendar_day 1900 1 1" "calendar_day 2500 12 31" by (simp_all add: calendar_day_def days_in_month_def)
  have d: "d \<le> 31" "1 \<le> m" "m \<le> 12" "1 \<le> d" using assms(1) by (auto simp: calendar_day_def days_in_month_def split: if_splits)
  then have "\<not> before (y, m, d) (1900, 1, 1)" "\<not> before (2500, 12, 31) (y, m, d)"
    using assms(2,3) by (simp_all add: before_def)
  then show "2415021 \<le> getJulianDayNumber y m d" "getJulianDayNumber y m d \<le> 2634531"
    using julian_before [OF assms(1) _ c(1)] julian_before [OF c(2) _ assms(1)] assms(2) unfolding n by simp_all
qed

lemma gmtime_fromUtcTime:
  assumes "calendar_day y m d" "1900 \<le> y" "y \<le> 2500" "0 \<le> h" "h < 24" "0 \<le> mi" "mi < 60" "0 \<le> s" "s < 60"
  defines "t \<equiv> fromUtcTime y m d h mi s"
  shows "- (2 ^ 37) \<le> t" "t \<le> 2 ^ 40" "tm_year (gmtime_r t) + 1900 = y" "tm_mon (gmtime_r t) + 1 = m" "tm_mday (gmtime_r t) = d"
    "tm_hour (gmtime_r t) = h" "tm_min (gmtime_r t) = mi" "tm_sec (gmtime_r t) = s"
proof -
  let ?n = "getJulianDayNumber y m d - 2440588" and ?s = "h * 3600 + mi * 60 + s"
  have s: "0 \<le> ?s" "?s < 86400" using assms(4-9) by simp_all
  have t: "t = 86400 * ?n + ?s"
    by (simp add: t_def fromUtcTime_def Date_ymd_def epoch_number kSecondsPerDay_def)
  have q: "t div 86400 = ?n" "t mod 86400 = ?s"
    using int_div_pos_eq [OF t s] int_mod_pos_eq [OF t s] by simp_all
  show "- (2 ^ 37) \<le> t" "t \<le> 2 ^ 40" using number_1900_2500 [OF assms(1-3)] s unfolding t by simp_all
  have "getYearMonthDay (?n + 2440588) = \<lparr>year = y, month = m, day = d\<rparr>"
    using getYearMonthDay_julian [OF assms(1)] assms(2) by simp
  then show "tm_year (gmtime_r t) + 1900 = y" "tm_mon (gmtime_r t) + 1 = m" "tm_mday (gmtime_r t) = d"
    by (simp_all add: gmtime_r_def q(1) epoch_number Let_def)
  have "?s div 3600 = h" "?s div 60 = h * 60 + mi" "?s mod 60 = s" "(h * 60 + mi) mod 60 = mi"
    using assms(4-9) int_div_pos_eq [of ?s 3600 h "mi * 60 + s"] int_div_pos_eq [of ?s 60 "h * 60 + mi" s]
      int_mod_pos_eq [of ?s 60 "h * 60 + mi" s] int_mod_pos_eq [of "h * 60 + mi" 60 h mi] by simp_all
  then show "tm_hour (gmtime_r t) = h" "tm_min (gmtime_r t) = mi" "tm_sec (gmtime_r t) = s"
    by (simp_all add: gmtime_r_def q(2) Let_def)
qed

text \<open>The formatted text has 24 characters, so the buffer does not cut it, and every field has its width.\<close>

lemma toFormattedString_full:
  assumes t: "0 \<le> t" and y: "1000 \<le> tm_year (gmtime_r (t div 1000000)) + 1900" "tm_year (gmtime_r (t div 1000000)) + 1900 \<le> 9999"
  defines "u \<equiv> gmtime_r (t div 1000000)"
  shows "Timestamp_toFormattedString t = print_int (tm_year u + 1900) @ print_int0 2 (tm_mon u + 1) @ print_int0 2 (tm_mday u) @ '' '' @
      print_int0 2 (tm_hour u) @ '':'' @ print_int0 2 (tm_min u) @ '':'' @ print_int0 2 (tm_sec u) @ ''.'' @ print_int0 6 (t mod 1000000)"
    "length (Timestamp_toFormattedString t) = 24"
proof -
  let ?s = "print_int (tm_year u + 1900) @ print_int0 2 (tm_mon u + 1) @ print_int0 2 (tm_mday u) @ '' '' @
      print_int0 2 (tm_hour u) @ '':'' @ print_int0 2 (tm_min u) @ '':'' @ print_int0 2 (tm_sec u) @ ''.'' @ print_int0 6 (t mod 1000000)"
  have "0 \<le> t div 1000000" using t by (simp add: pos_imp_zdiv_nonneg_iff)
  then have day: "calendar_day (tm_year u + 1900) (tm_mon u + 1) (tm_mday u)"
    unfolding u_def by (intro gmtime_day(1)) simp
  have md: "0 \<le> tm_mon u + 1" "tm_mon u + 1 < 100" "0 \<le> tm_mday u" "tm_mday u < 100"
    using day by (auto simp: calendar_day_def days_in_month_def split: if_splits)
  have hms: "0 \<le> tm_hour u" "tm_hour u < 100" "0 \<le> tm_min u" "tm_min u < 100" "0 \<le> tm_sec u" "tm_sec u < 100"
    using gmtime_hms(2-7) [of "t div 1000000"] unfolding u_def by linarith+
  have us: "int_cast (cmod t 1000000) = t mod 1000000" "0 \<le> t mod 1000000" "t mod 1000000 < 10 ^ 6"
    using t pos_mod_bound [of 1000000 t] by (simp_all add: cmod_nonneg int_cast_id)
  have year: "length (print_int (tm_year u + 1900)) = 4" using length_print_year [OF y] by (simp add: u_def)
  then have len: "length ?s = 24" using md hms us(2,3) by (simp add: length_print_int0)
  have "cdiv t 1000000 = t div 1000000" using t by (simp add: cdiv_nonneg)
  then have "Timestamp_toFormattedString t = snprintf 32 ?s"
    using year us(1) unfolding Timestamp_toFormattedString_def Let_def kMicroSecondsPerSecond_def
    by (simp add: u_def pad_left_def)
  also have "\<dots> = ?s" unfolding snprintf_def using len by (intro take_all) linarith
  finally show eq: "Timestamp_toFormattedString t = ?s" .
  show "length (Timestamp_toFormattedString t) = 24" unfolding eq by (rule len)
qed

section \<open>The search for the local time type\<close>

lemma lower_bound_partition:
  assumes "\<forall>i < length xs. lt (xs ! i) v \<longleftrightarrow> i < k" "first \<le> k" "k \<le> first + len" "first + len \<le> length xs"
  shows "lower_bound lt xs v first len = k"
  using assms
proof (induction lt xs v first len rule: lower_bound.induct)
  case (1 lt xs v first len)
  show ?case
  proof (cases "len = 0")
    case True
    then show ?thesis using "1.prems"(2,3) by (simp add: lower_bound.simps)
  next
    case False
    then have "first + len div 2 < length xs" using "1.prems"(4) by linarith
    then have lt: "lt (xs ! (first + len div 2)) v \<longleftrightarrow> first + len div 2 < k" using "1.prems"(1) by simp
    show ?thesis
    proof (cases "first + len div 2 < k")
      case True
      then show ?thesis
        using "1.IH"(1) [OF False refl refl] lt "1.prems" False by (subst lower_bound.simps) (simp add: Let_def)
    next
      case no: False
      then show ?thesis
        using "1.IH"(2) [OF False refl refl] lt "1.prems" False by (subst lower_bound.simps) (simp add: Let_def)
    qed
  qed
qed

definition key :: "bool \<Rightarrow> transition \<Rightarrow> int" where
  "key gmt t = (if gmt then gmttime t else localtime t)"

lemma comp_key: "comp_less gmt a b \<longleftrightarrow> key gmt a < key gmt b" "comp_equal gmt a b \<longleftrightarrow> key gmt a = key gmt b"
  by (simp_all add: comp_less_def comp_equal_def key_def)

text \<open>The index into the local time types that is in force after the transitions \<open>as\<close>.\<close>

definition idx_after :: "transition list \<Rightarrow> int" where
  "idx_after as = (if as = [] then 0 else localtimeIdx (last as))"

lemma lower_bound_split:
  assumes ts: "ts = butlast as @ last as # bs" and sorted: "sorted_wrt (\<lambda>a b. key gmt a < key gmt b) ts"
    and le: "key gmt (last as) \<le> key gmt v" and gt: "\<forall>b\<in>set bs. key gmt v < key gmt b"
  shows "lower_bound (comp_less gmt) ts v 0 (length ts) =
    (if key gmt (last as) = key gmt v then length (butlast as) else Suc (length (butlast as)))"
proof (rule lower_bound_partition)
  let ?n = "length (butlast as)"
  have before: "key gmt a < key gmt (last as)" if "a \<in> set (butlast as)" for a
    using sorted that unfolding ts by (auto simp: sorted_wrt_append)
  show "\<forall>i < length ts. comp_less gmt (ts ! i) v \<longleftrightarrow> i < (if key gmt (last as) = key gmt v then ?n else Suc ?n)"
  proof (intro allI impI)
    fix i assume i: "i < length ts"
    consider "i < ?n" | "i = ?n" | "?n < i" by linarith
    then show "comp_less gmt (ts ! i) v \<longleftrightarrow> i < (if key gmt (last as) = key gmt v then ?n else Suc ?n)"
    proof cases
      case 1
      then have "ts ! i \<in> set (butlast as)" unfolding ts by (simp only: nth_append if_True nth_mem)
      then have "comp_less gmt (ts ! i) v" using before le by (fastforce simp: comp_key)
      then show ?thesis using 1 by (simp del: length_butlast)
    next
      case 2
      then show ?thesis using le unfolding ts by (simp add: nth_append comp_key)
    next
      case 3
      then have "ts ! i = (last as # bs) ! (i - ?n)" unfolding ts by (simp add: nth_append del: length_butlast)
      also have "\<dots> = bs ! (i - ?n - 1)" using 3 by (simp only: nth_Cons_pos zero_less_diff)
      finally have "ts ! i \<in> set bs" using 3 i unfolding ts by (simp del: length_butlast)
      then have "\<not> comp_less gmt (ts ! i) v" using gt by (fastforce simp: comp_key)
      then show ?thesis using 3 by (simp del: length_butlast)
    qed
  qed
qed (simp_all add: ts)

lemma findLocaltime_split:
  assumes ts: "transitions data = as @ bs" and sorted: "sorted_wrt (\<lambda>a b. key gmt a < key gmt b) (transitions data)"
    and le: "as \<noteq> [] \<Longrightarrow> key gmt (last as) \<le> key gmt v" and gt: "\<forall>b\<in>set bs. key gmt v < key gmt b"
  shows "findLocaltime data v gmt = vec_at (localtimes data) (idx_after as)"
proof (cases "as = []")
  case True
  then have "transitions data = [] \<or> comp_less gmt v (hd (transitions data))"
    using ts gt by (cases bs) (simp_all add: comp_key)
  then show ?thesis using True by (simp add: findLocaltime_def idx_after_def)
next
  case False
  let ?n = "length (butlast as)"
  have as: "as = butlast as @ [last as]" using False by simp
  have ts': "transitions data = butlast as @ last as # bs" using ts as by (metis append.assoc append_Cons append_Nil)
  note lb = lower_bound_split [OF ts' sorted le [OF False] gt]
  have "key gmt (hd (transitions data)) \<le> key gmt (last as)"
    using sorted unfolding ts' by (cases "butlast as") (auto simp: sorted_wrt_append)
  then have nf: "\<not> (transitions data = [] \<or> comp_less gmt v (hd (transitions data)))"
    using le [OF False] ts' by (auto simp: comp_key)
  have nth: "transitions data ! ?n = last as" unfolding ts' by (rule nth_append_length)
  have idx: "idx_after as = localtimeIdx (last as)" using False by (simp add: idx_after_def)
  show ?thesis
  proof (cases "key gmt (last as) = key gmt v")
    case True
    have "?n \<noteq> length (transitions data)" unfolding ts' by simp
    then show ?thesis
      unfolding findLocaltime_def Let_def lb if_not_P [OF nf] using True by (simp add: nth comp_key(2) idx del: length_butlast)
  next
    case ne: False
    show ?thesis
    proof (cases bs)
      case Nil
      then have "Suc ?n = length (transitions data)" "last (transitions data) = last as" unfolding ts' by simp_all
      then show ?thesis
        unfolding findLocaltime_def Let_def lb if_not_P [OF nf] using ne by (simp add: idx del: length_butlast)
    next
      case (Cons b bs')
      have "Suc ?n \<noteq> length (transitions data)" unfolding ts' Cons by simp
      moreover have "transitions data ! Suc ?n = b" unfolding ts' Cons by (simp add: nth_append)
      moreover have "key gmt v \<noteq> key gmt b" using gt Cons by auto
      ultimately show ?thesis
        unfolding findLocaltime_def Let_def lb if_not_P [OF nf] using ne
        by (simp add: nth comp_key(2) idx check_def del: length_butlast)
    qed
  qed
qed

section \<open>Local time and back\<close>

text \<open>
  The zones the code is made for. Where the clock is set back, summer time ends and the clock goes back by one
  hour, and the next transition is at least an hour of either clock away.
\<close>

definition type_of :: "tz_data \<Rightarrow> int \<Rightarrow> local_type" where
  "type_of data i = localtimes data ! nat i"

definition set_back_ok :: "local_type \<Rightarrow> local_type \<Rightarrow> transition \<Rightarrow> transition list \<Rightarrow> bool" where
  "set_back_ok old new b bs \<longleftrightarrow>
     (if gmtOffset new < gmtOffset old
      then isDst old \<and> \<not> isDst new \<and> gmtOffset old = gmtOffset new + 3600 \<and>
           (bs = [] \<or> gmttime b + 3600 \<le> gmttime (hd bs) \<and> gmttime b + gmtOffset old \<le> localtime (hd bs))
      else True)"

fun changes_ok :: "tz_data \<Rightarrow> local_type \<Rightarrow> transition list \<Rightarrow> bool" where
  "changes_ok data l [] \<longleftrightarrow> True"
| "changes_ok data l (b # bs) \<longleftrightarrow>
     set_back_ok l (type_of data (localtimeIdx b)) b bs \<and> changes_ok data (type_of data (localtimeIdx b)) bs"

definition type_ok :: "tz_data \<Rightarrow> local_type \<Rightarrow> bool" where
  "type_ok data l \<longleftrightarrow> 0 \<le> arrbIdx l \<and> nat (arrbIdx l) \<le> length (abbreviations data) \<and> \<bar>gmtOffset l\<bar> \<le> 86400"

definition transition_ok :: "tz_data \<Rightarrow> transition \<Rightarrow> bool" where
  "transition_ok data t \<longleftrightarrow> 0 \<le> localtimeIdx t \<and> nat (localtimeIdx t) < length (localtimes data) \<and>
     localtime t = gmttime t + gmtOffset (type_of data (localtimeIdx t))"

definition zone_ok :: "tz_data \<Rightarrow> bool" where
  "zone_ok data \<longleftrightarrow> localtimes data \<noteq> [] \<and> list_all (type_ok data) (localtimes data) \<and>
     list_all (transition_ok data) (transitions data) \<and>
     sorted_wrt (\<lambda>a b. gmttime a < gmttime b \<and> localtime a < localtime b) (transitions data) \<and>
     changes_ok data (type_of data 0) (transitions data)"

definition type_after :: "tz_data \<Rightarrow> transition list \<Rightarrow> local_type" where
  "type_after data as = type_of data (idx_after as)"

lemma changes_ok_at:
  "changes_ok data l (as @ b # bs) \<Longrightarrow>
   set_back_ok (if as = [] then l else type_of data (localtimeIdx (last as))) (type_of data (localtimeIdx b)) b bs"
  by (induction as arbitrary: l) (auto split: if_splits)

lemma set_back_at:
  assumes "zone_ok data" "transitions data = as @ b # bs"
  shows "set_back_ok (type_after data as) (type_of data (localtimeIdx b)) b bs"
  using changes_ok_at [of data "type_of data 0" as b bs] assms
  by (auto simp: zone_ok_def type_after_def idx_after_def split: if_splits)

lemma zone_ok_sorted:
  assumes "zone_ok data"
  shows "sorted_wrt (\<lambda>a b. key gmt a < key gmt b) (transitions data)"
  using assms unfolding zone_ok_def by (auto simp: key_def elim: sorted_wrt_mono_rel [rotated])

lemma zone_ok_split:
  assumes "zone_ok data" "transitions data = as @ bs"
  shows "vec_at (localtimes data) (idx_after as) = Some (type_after data as)" "type_ok data (type_after data as)"
proof -
  have "0 \<le> idx_after as \<and> nat (idx_after as) < length (localtimes data)"
    using assms by (auto simp: zone_ok_def idx_after_def transition_ok_def list_all_iff)
  then show "vec_at (localtimes data) (idx_after as) = Some (type_after data as)" "type_ok data (type_after data as)"
    using assms(1) by (simp_all add: vec_at_def type_after_def type_of_def zone_ok_def list_all_iff)
qed

text \<open>The transitions up to a time, by either clock.\<close>

definition splits :: "tz_data \<Rightarrow> bool \<Rightarrow> int \<Rightarrow> transition list \<Rightarrow> transition list \<Rightarrow> bool" where
  "splits data gmt s as bs \<longleftrightarrow> transitions data = as @ bs \<and> (as \<noteq> [] \<longrightarrow> key gmt (last as) \<le> s) \<and>
     (bs \<noteq> [] \<longrightarrow> s < key gmt (hd bs))"

lemma splits_exists:
  obtains as bs where "splits data gmt s as bs"
proof
  let ?P = "\<lambda>t. key gmt t \<le> s"
  have "?P (last (takeWhile ?P (transitions data)))" if "takeWhile ?P (transitions data) \<noteq> []"
    using set_takeWhileD [OF last_in_set [OF that]] by simp
  then show "splits data gmt s (takeWhile ?P (transitions data)) (dropWhile ?P (transitions data))"
    using hd_dropWhile [of ?P "transitions data"] unfolding splits_def not_le by simp
qed

lemma splits_bounds:
  assumes "zone_ok data" "splits data gmt s as bs"
  shows "\<forall>a\<in>set as. key gmt a \<le> s" "\<forall>b\<in>set bs. s < key gmt b"
proof -
  have ts: "transitions data = as @ bs" using assms(2) by (simp add: splits_def)
  have so: "sorted_wrt (\<lambda>a b. key gmt a < key gmt b) as" "sorted_wrt (\<lambda>a b. key gmt a < key gmt b) bs"
    using zone_ok_sorted [OF assms(1), of gmt] unfolding ts by (simp_all add: sorted_wrt_append)
  show "\<forall>b\<in>set bs. s < key gmt b"
    using assms(2) so(2) by (cases bs) (fastforce simp: splits_def)+
  show "\<forall>a\<in>set as. key gmt a \<le> s"
    using assms(2) so(1) by (cases as rule: rev_cases) (fastforce simp: splits_def sorted_wrt_append)+
qed

lemma findLocaltime_splits:
  assumes "zone_ok data" "splits data gmt (key gmt v) as bs"
  shows "findLocaltime data v gmt = Some (type_after data as)"
proof -
  have ts: "transitions data = as @ bs" using assms(2) by (simp add: splits_def)
  show ?thesis
    using findLocaltime_split [OF ts zone_ok_sorted [OF assms(1)]] splits_bounds(2) [OF assms] assms zone_ok_split(1) [OF assms(1) ts]
    by (simp add: splits_def)
qed

definition local_tm :: "tz_data \<Rightarrow> local_type \<Rightarrow> int \<Rightarrow> struct_tm" where
  "local_tm data l t = (gmtime_r (t + gmtOffset l))\<lparr>tm_isdst := (if isDst l then 1 else 0), tm_gmtoff := gmtOffset l,
     tm_zone := abbr_at (abbreviations data) (arrbIdx l)\<rparr>"

lemma toLocalTime_splits:
  assumes "zone_ok data" "splits data True t as bs"
  shows "toLocalTime (Some data) t = Some (local_tm data (type_after data as) t)"
proof -
  have ts: "transitions data = as @ bs" using assms(2) by (simp add: splits_def)
  have "findLocaltime data \<lparr>gmttime = t, localtime = 0, localtimeIdx = 0\<rparr> True = Some (type_after data as)"
    using findLocaltime_splits [OF assms(1), of True "\<lparr>gmttime = t, localtime = 0, localtimeIdx = 0\<rparr>"] assms(2) by (simp add: key_def)
  then show ?thesis
    using zone_ok_split(2) [OF assms(1) ts] by (simp add: toLocalTime_def Let_def local_tm_def type_ok_def abbr_at_def)
qed

lemma fromLocalTime_splits:
  assumes "zone_ok data" "timegm u = s" "splits data False s as bs" "splits data True (s - gmtOffset (type_after data as)) as' bs'"
  defines "v \<equiv> local_tm data (type_after data as') (s - gmtOffset (type_after data as))"
  shows "fromLocalTime (Some data) u = Some
    ((if tm_isdst u \<noteq> 0 \<and> tm_isdst v = 0 \<and> tm_hour v = tm_hour u \<and> tm_min v = tm_min u then s - 3600 else s)
      - gmtOffset (type_after data as))"
proof -
  have "findLocaltime data \<lparr>gmttime = 0, localtime = s, localtimeIdx = 0\<rparr> False = Some (type_after data as)"
    using findLocaltime_splits [OF assms(1), of False "\<lparr>gmttime = 0, localtime = s, localtimeIdx = 0\<rparr>"] assms(3) by (simp add: key_def)
  then show ?thesis
    using toLocalTime_splits [OF assms(1,4)] by (simp add: fromLocalTime_def assms(2) Let_def v_def [symmetric])
qed

text \<open>The two cases: the clock is not set back within the hour, or the time is in the hour that is repeated.\<close>

lemma round_trip_plain:
  assumes "zone_ok data" "splits data True t as bs" "splits data False (t + gmtOffset (type_after data as)) as bs" "- (2 ^ 36) \<le> t"
  shows "fromLocalTime (Some data) (local_tm data (type_after data as) t) = Some t"
proof -
  let ?o = "gmtOffset (type_after data as)"
  have "transitions data = as @ bs" using assms(2) by (simp add: splits_def)
  then have "\<bar>?o\<bar> \<le> 86400" using zone_ok_split(2) [OF assms(1)] by (simp add: type_ok_def)
  then have g: "timegm (local_tm data (type_after data as) t) = t + ?o"
    unfolding local_tm_def using assms(4) by (intro timegm_gmtime) simp
  have "splits data True (t + ?o - ?o) as bs" using assms(2) by simp
  note f = fromLocalTime_splits [OF assms(1) g assms(3) this]
  show ?thesis unfolding f by (simp add: local_tm_def)
qed

lemma round_trip_repeated:
  assumes z: "zone_ok data" and s: "splits data True t as (b # bs)" and le: "localtime b \<le> t + gmtOffset (type_after data as)"
    and t: "- (2 ^ 36) \<le> t"
  shows "fromLocalTime (Some data) (local_tm data (type_after data as) t) = Some t"
proof -
  let ?l = "type_after data as" and ?n = "type_after data (as @ [b])"
  have ts: "transitions data = as @ b # bs" "t < gmttime b" using s by (simp_all add: splits_def key_def)
  have n: "?n = type_of data (localtimeIdx b)" by (simp add: type_after_def idx_after_def)
  have lb: "localtime b = gmttime b + gmtOffset ?n"
    using z ts(1) by (simp add: zone_ok_def transition_ok_def n)
  then have lt: "gmtOffset ?n < gmtOffset ?l" using le ts(2) by simp
  have c: "isDst ?l" "\<not> isDst ?n" "gmtOffset ?l = gmtOffset ?n + 3600"
      "bs = [] \<or> gmttime b + 3600 \<le> gmttime (hd bs) \<and> gmttime b + gmtOffset ?l \<le> localtime (hd bs)"
    using set_back_at [OF z ts(1)] unfolding set_back_ok_def n [symmetric] if_P [OF lt] by blast+
  have s1: "splits data False (t + gmtOffset ?l) (as @ [b]) bs"
    using ts le c(4) by (auto simp: splits_def key_def)
  have s2: "splits data True (t + gmtOffset ?l - gmtOffset ?n) (as @ [b]) bs"
    using ts lb le c(3,4) by (auto simp: splits_def key_def)
  have "\<bar>gmtOffset ?l\<bar> \<le> 86400" using zone_ok_split(2) [OF z ts(1)] by (simp add: type_ok_def)
  then have g: "timegm (local_tm data ?l t) = t + gmtOffset ?l"
    unfolding local_tm_def using t by (intro timegm_gmtime) simp
  show ?thesis
    unfolding fromLocalTime_splits [OF z g s1 s2] using c(1-3) by (simp add: local_tm_def ac_simps)
qed

lemma local_round_trip:
  assumes z: "zone_ok data" and t: "- (2 ^ 36) \<le> t"
  shows "\<exists>u. toLocalTime (Some data) t = Some u \<and> fromLocalTime (Some data) u = Some t"
proof -
  obtain as bs where s: "splits data True t as bs" using splits_exists .
  let ?l = "type_after data as"
  have ts: "transitions data = as @ bs" using s by (simp add: splits_def)
  have "fromLocalTime (Some data) (local_tm data ?l t) = Some t"
  proof (cases "bs \<noteq> [] \<and> localtime (hd bs) \<le> t + gmtOffset ?l")
    case True
    then obtain b bs' where "bs = b # bs'" by (cases bs) auto
    then show ?thesis using round_trip_repeated [OF z _ _ t, of as b bs'] s True by simp
  next
    case False
    have "localtime (last as) \<le> t + gmtOffset ?l" if "as \<noteq> []"
    proof -
      have "last as \<in> set (transitions data)" using ts that by simp
      then have "transition_ok data (last as)" using z by (auto simp: zone_ok_def list_all_iff)
      then show ?thesis using s that by (simp add: transition_ok_def splits_def key_def type_after_def idx_after_def)
    qed
    then have "splits data False (t + gmtOffset ?l) as bs" using False ts by (auto simp: splits_def key_def)
    then show ?thesis by (rule round_trip_plain [OF z s _ t])
  qed
  then show ?thesis using toLocalTime_splits [OF z s] by blast
qed

section \<open>Zone files\<close>

text \<open>The file of a zone, in version 1 of the format: the data block that the code reads.\<close>

definition be32 :: "int \<Rightarrow> char list" where
  "be32 k = rev (word_bytes 4 (word_of_int k :: 32 word))"

definition byte_of :: "int \<Rightarrow> char" where
  "byte_of k = char_of k"

definition type_bytes :: "local_type \<Rightarrow> char list" where
  "type_bytes l = be32 (gmtOffset l) @ [byte_of (if isDst l then 1 else 0), byte_of (arrbIdx l)]"

definition zone_file :: "tz_data \<Rightarrow> char list" where
  "zone_file data = ''TZif'' @ [CHR 0x00] @ replicate 15 (CHR 0x00) @
     concat (map be32 [0, 0, 0, int (length (transitions data)), int (length (localtimes data)), int (length (abbreviations data))]) @
     concat (map be32 (map gmttime (transitions data))) @ map byte_of (map localtimeIdx (transitions data)) @
     concat (map type_bytes (localtimes data)) @ abbreviations data"

definition fits32 :: "int \<Rightarrow> bool" where
  "fits32 k \<longleftrightarrow> - (2 ^ 31) \<le> k \<and> k < 2 ^ 31"

definition fits8 :: "int \<Rightarrow> bool" where
  "fits8 k \<longleftrightarrow> 0 \<le> k \<and> k < 256"

definition file_ok :: "tz_data \<Rightarrow> bool" where
  "file_ok data \<longleftrightarrow> names data = [] \<and> list_all (\<lambda>t. fits32 (gmttime t) \<and> fits8 (localtimeIdx t)) (transitions data) \<and>
     list_all (\<lambda>l. fits32 (gmtOffset l) \<and> fits8 (arrbIdx l)) (localtimes data) \<and>
     fits32 (int (length (transitions data))) \<and> fits32 (int (length (localtimes data))) \<and> fits32 (int (length (abbreviations data)))"

lemma File_readInt32_be32: "fits32 k \<Longrightarrow> File_readInt32 e (be32 k @ cs) = Inr (k, cs)"
  using htobe_mem_load [of 4 e "word_of_int k :: 32 word"] int_cast_id [of k]
  by (simp add: File_readInt32_def be32_def fits32_def int_cast_def)

lemma File_readUInt8_byte: "fits8 k \<Longrightarrow> File_readUInt8 (byte_of k # cs) = Inr (k, cs)"
  by (simp add: File_readUInt8_def byte_of_def fits8_def)

lemma read_ints_int32:
  "list_all fits32 ks \<Longrightarrow> read_ints (File_readInt32 e) (length ks) (concat (map be32 ks) @ cs) = Inr (ks, cs)"
  by (induction ks) (simp_all add: File_readInt32_be32 and_then_def)

lemma read_ints_uint8: "list_all fits8 ks \<Longrightarrow> read_ints File_readUInt8 (length ks) (map byte_of ks @ cs) = Inr (ks, cs)"
  by (induction ks) (simp_all add: File_readUInt8_byte and_then_def)

lemma read_type_bytes:
  "fits32 (gmtOffset l) \<Longrightarrow> fits8 (arrbIdx l) \<Longrightarrow> read_type e (type_bytes l @ cs) = Inr (l, cs)"
  by (simp add: read_type_def type_bytes_def File_readInt32_be32 and_then_def File_readUInt8_byte fits8_def)

lemma read_types_bytes:
  "list_all (\<lambda>l. fits32 (gmtOffset l) \<and> fits8 (arrbIdx l)) ls \<Longrightarrow>
   read_types e (length ls) data (concat (map type_bytes ls) @ cs) = (data\<lparr>localtimes := localtimes data @ ls\<rparr>, Inr cs)"
  by (induction ls arbitrary: data) (simp_all add: read_type_bytes)

lemma push_transitions_ok:
  "list_all (transition_ok data) ts \<Longrightarrow>
   push_transitions (zip (map gmttime ts) (map localtimeIdx ts)) data = Some (data\<lparr>transitions := transitions data @ ts\<rparr>)"
proof (induction ts arbitrary: data)
  case (Cons t ts)
  let ?d = "data\<lparr>transitions := transitions data @ [t]\<rparr>"
  have "transition_ok ?d = transition_ok data" by (simp add: transition_ok_def type_of_def fun_eq_iff)
  then have "push_transitions (zip (map gmttime ts) (map localtimeIdx ts)) ?d = Some (data\<lparr>transitions := transitions data @ t # ts\<rparr>)"
    using Cons by simp
  moreover have "vec_at (localtimes data) (localtimeIdx t) = Some (type_of data (localtimeIdx t))"
    "\<lparr>gmttime = gmttime t, localtime = gmttime t + gmtOffset (type_of data (localtimeIdx t)), localtimeIdx = localtimeIdx t\<rparr> = t"
    using Cons.prems by (simp_all add: transition_ok_def vec_at_def type_of_def)
  ultimately show ?case by simp
qed simp

lemma read_head_file:
  assumes "list_all fits32 ks" "length ks = 6"
  shows "read_head e (''TZif'' @ [CHR 0x00] @ replicate 15 (CHR 0x00) @ concat (map be32 ks) @ cs) = Inr (ks, cs)"
  using read_ints_int32 [OF assms(1), of e cs] unfolding assms(2)
  by (simp add: read_head_def and_then_def File_readBytes_def)

lemma zone_file_read:
  assumes z: "zone_ok data" and f: "file_ok data"
  shows "readTimeZoneFile e (Some (zone_file data)) tz_empty = Some (True, data)"
proof -
  let ?ts = "transitions data" and ?ls = "localtimes data" and ?abbr = "abbreviations data"
  let ?n = "[0, 0, 0, int (length ?ts), int (length ?ls), int (length ?abbr)]"
  let ?rest2 = "concat (map type_bytes ?ls) @ ?abbr"
  let ?rest1 = "concat (map be32 (map gmttime ?ts)) @ map byte_of (map localtimeIdx ?ts) @ ?rest2"
  have "list_all fits32 ?n" using f by (simp add: file_ok_def fits32_def)
  then have head: "read_head e (zone_file data) = Inr (?n, ?rest1)"
    unfolding zone_file_def by (rule read_head_file) simp
  have "list_all fits32 (map gmttime ?ts)" "list_all fits8 (map localtimeIdx ?ts)"
    using f by (simp_all add: file_ok_def list_all_iff)
  note l1 = read_ints_int32 [OF this(1), of e "map byte_of (map localtimeIdx ?ts) @ ?rest2"]
    and l2 = read_ints_uint8 [OF this(2), of ?rest2]
  have vectors: "read_vectors e (int (length ?ts)) ?rest1 = Inr (zip (map gmttime ?ts) (map localtimeIdx ?ts), ?rest2)"
    using l1 l2 by (simp add: read_vectors_def and_then_def)
  let ?d1 = "tz_empty\<lparr>localtimes := ?ls\<rparr>"
  have types: "read_types e (length ?ls) tz_empty ?rest2 = (?d1, Inr ?abbr)"
    using read_types_bytes [of ?ls e tz_empty ?abbr] f by (simp add: file_ok_def tz_empty_def)
  have "transition_ok ?d1 = transition_ok data" by (simp add: transition_ok_def type_of_def fun_eq_iff)
  then have push: "push_transitions (zip (map gmttime ?ts) (map localtimeIdx ?ts)) ?d1 = Some (?d1\<lparr>transitions := ?ts\<rparr>)"
    using push_transitions_ok [of ?d1 ?ts] z by (simp add: zone_ok_def tz_empty_def)
  have abbr: "File_readBytes (int (length ?abbr)) ?abbr = Inr (?abbr, [])" by (simp add: File_readBytes_def)
  have "read_body e (zone_file data) tz_empty = (?d1\<lparr>transitions := ?ts, abbreviations := ?abbr\<rparr>, Inr ())"
    unfolding read_body_def head by (simp add: and_then_def vectors types push abbr del: map_map list.map_comp)
  moreover have "?d1\<lparr>transitions := ?ts, abbreviations := ?abbr\<rparr> = data"
    using f by (simp add: tz_empty_def file_ok_def)
  ultimately show ?thesis by (simp add: readTimeZoneFile_def)
qed

text \<open>A file that is missing, cut within its head or of another kind leaves the zone valid but without types.\<close>

lemma read_ints_short: "length cs < 4 * n \<Longrightarrow> \<exists>msg. read_ints (File_readInt32 e) n cs = Inl (Logic_error msg)"
proof (induction n arbitrary: cs)
  case (Suc n)
  show ?case
  proof (cases "length cs < 4")
    case True
    then show ?thesis by (simp add: File_readInt32_def and_then_def)
  next
    case False
    then have "length (drop 4 cs) < 4 * n" using Suc.prems by simp
    then obtain msg where "read_ints (File_readInt32 e) n (drop 4 cs) = Inl (Logic_error msg)" using Suc.IH by blast
    then show ?thesis using False by (simp add: File_readInt32_def [of e cs] and_then_def)
  qed
qed simp

lemma read_head_bad:
  assumes "length cs < 44 \<or> take 4 cs \<noteq> ''TZif''"
  shows "\<exists>msg. read_head e cs = Inl (Logic_error msg)"
proof (cases "length cs < 20 \<or> take 4 cs \<noteq> ''TZif''")
  case True
  then show ?thesis by (auto simp: read_head_def and_then_def File_readBytes_def)
next
  case False
  then have "length (drop 20 cs) < 4 * 6" using assms by auto
  then obtain msg where "read_ints (File_readInt32 e) 6 (drop 20 cs) = Inl (Logic_error msg)" using read_ints_short by blast
  then show ?thesis using False by (simp add: read_head_def and_then_def File_readBytes_def)
qed

theorem bad_zone_file_valid:
  assumes "content = None \<or> content = Some cs \<and> (length cs < 44 \<or> take 4 cs \<noteq> ''TZif'')"
  shows "\<exists>z. TimeZone_file e content = Some z \<and> valid_zone z \<and> toLocalTime z t = None"
proof (intro exI conjI)
  show "TimeZone_file e content = Some (Some tz_empty)"
  proof (cases "content = None")
    case False
    then obtain msg where "content = Some cs" "read_head e cs = Inl (Logic_error msg)" using assms read_head_bad by blast
    then show ?thesis by (simp add: TimeZone_file_def readTimeZoneFile_def read_body_def and_then_def)
  qed (simp add: TimeZone_file_def readTimeZoneFile_def)
qed (simp_all add: valid_zone_def toLocalTime_def findLocaltime_def tz_empty_def vec_at_def Let_def)

text \<open>A fixed zone is one of the zones that the round trip covers.\<close>

lemma TimeZone_fixed_ok:
  assumes "\<bar>east\<bar> \<le> 86400"
  obtains data where "TimeZone_fixed east nm = Some data" "zone_ok data"
  using assms by (simp add: TimeZone_fixed_def zone_ok_def tz_empty_def type_ok_def)

section \<open>Properties of times\<close>

text \<open>
  C26. \<^verbatim>\<open>TimeZone::toUtcTime\<close> is \<^verbatim>\<open>gmtime\<close>, as its comment says: for every time of more than two thousand years before and
  thirty thousand after the epoch it gives the fields that \<^verbatim>\<open>gmtime_r\<close> gives, with 32-bit casts and truncating
  division, also before 1970; \<^verbatim>\<open>fromUtcTime\<close> recovers the time from them. In the documented years every day and
  time of day is recovered from the time \<^verbatim>\<open>fromUtcTime\<close> makes of it.
\<close>

theorem utc_round_trip:
  assumes "- (2 ^ 37) \<le> t" "t \<le> 2 ^ 40"
    and "calendar_day y m d" "1900 \<le> y" "y \<le> 2500" "0 \<le> h" "h < 24" "0 \<le> mi" "mi < 60" "0 \<le> s" "s < 60"
  shows "toUtcTime t True = gmtime_r t \<and> toUtcTime t False = (gmtime_r t)\<lparr>tm_yday := 0\<rparr>
    \<and> fromUtcTime_tm (toUtcTime t yday) = t
    \<and> (let u = toUtcTime (fromUtcTime y m d h mi s) yday
       in (tm_year u + 1900, tm_mon u + 1, tm_mday u, tm_hour u, tm_min u, tm_sec u) = (y, m, d, h, mi, s))"
proof -
  have upd: "fromUtcTime_tm ((gmtime_r t)\<lparr>tm_yday := 0\<rparr>) = fromUtcTime_tm (gmtime_r t)" by (simp add: fromUtcTime_tm_def)
  note f = gmtime_fromUtcTime [OF assms(3-)]
  have "fromUtcTime_tm (toUtcTime t yday) = t"
    using toUtcTime_gmtime [OF assms(1,2)] fromUtcTime_gmtime [OF assms(1)] upd by (cases yday) simp_all
  moreover have "let u = toUtcTime (fromUtcTime y m d h mi s) yday
      in (tm_year u + 1900, tm_mon u + 1, tm_mday u, tm_hour u, tm_min u, tm_sec u) = (y, m, d, h, mi, s)"
    using toUtcTime_gmtime [OF f(1,2)] f(3-) by (cases yday) (simp_all add: Let_def)
  ultimately show ?thesis using toUtcTime_gmtime [OF assms(1,2)] by blast
qed

theorem utc_round_trip_witness:
  "fromUtcTime_tm (toUtcTime (- 1) False) = - 1
    \<and> (let u = toUtcTime (fromUtcTime 2000 2 29 23 59 59) False
       in (tm_year u + 1900, tm_mon u + 1, tm_mday u, tm_hour u, tm_min u, tm_sec u) = (2000, 2, 29, 23, 59, 59))"
proof -
  have "calendar_day 2000 2 29" by (simp add: calendar_day_def days_in_month_def leap_def)
  note u = utc_round_trip [OF _ _ this, of "- 1" 23 59 59 False]
  show ?thesis by (intro conjI; rule u [THEN conjunct2, THEN conjunct2, THEN conjunct1] u [THEN conjunct2, THEN conjunct2, THEN conjunct2]; simp)
qed


text \<open>Summer time that begins at 1000000 and ends at 2000000, and a time within the repeated hour.\<close>

definition example_zone :: tz_data where
  "example_zone = \<lparr>
     transitions = [\<lparr>gmttime = 1000000, localtime = 1007200, localtimeIdx = 1\<rparr>, \<lparr>gmttime = 2000000, localtime = 2003600, localtimeIdx = 0\<rparr>],
     localtimes = [\<lparr>gmtOffset = 3600, isDst = False, arrbIdx = 0\<rparr>, \<lparr>gmtOffset = 7200, isDst = True, arrbIdx = 4\<rparr>],
     names = [], abbreviations = ''CET'' @ [CHR 0x00] @ ''CEST'' @ [CHR 0x00]\<rparr>"


end
