(* ===== verification/Spec2Isabelle.thy ===== *)
theory Spec2Isabelle
  imports Net_Buffer Net_Poller Net_TimerProps Net_LoopProtocol Net_TcpConnProps Net_Acceptor Net_TcpServerProps
    Base_LogFile Base_Sync Base_Thread Base_StringPiece Net_HttpServer Net_TcpClient Base_AsyncLogging Base_TimeZone
begin

text \<open>
  A verification library for tinymuduo, a staged re-implementation of the C++ network library muduo.

  \<^bold>\<open>The program.\<close> The directory \<^verbatim>\<open>src/src\<close> grows the library in numbered stages; the last one,
  \<^verbatim>\<open>src/src/37~38_TcpConnWithBuf/muduo\<close>, contains all of it and is what is modelled here
  (\<^verbatim>\<open>base/\<close> and \<^verbatim>\<open>net/\<close> below are its directories). The parts of muduo that the stages have not reached are
  modelled from the annotated copy \<^verbatim>\<open>src/comments/muduo\<close>. It is a reactor: an \<^verbatim>\<open>EventLoop\<close> owns a \<^verbatim>\<open>Poller\<close> and waits for
  events of \<^verbatim>\<open>Channel\<close>s; a \<^verbatim>\<open>TimerQueue\<close> is a channel on a timerfd; other threads hand functors to a loop and
  wake it through an eventfd; an \<^verbatim>\<open>Acceptor\<close> is a channel on a listening socket; a \<^verbatim>\<open>TcpConnection\<close> is a channel
  with an input and an output \<^verbatim>\<open>Buffer\<close>; a \<^verbatim>\<open>TcpServer\<close> accepts in one loop, spreads its connections over the
  loops of an \<^verbatim>\<open>EventLoopThreadPool\<close> and keeps them in a map until they are removed. Below that are threads,
  locks, queues and logging. From the annotated copy come the \<^verbatim>\<open>Connector\<close> and the \<^verbatim>\<open>TcpClient\<close> on it, the HTTP
  server, whose parser reads the input buffer of a connection, the asynchronous log, dates and time zones.

  \<^bold>\<open>Conventions.\<close> Classes are records, enumerations are datatypes, member functions are functions that return the
  new state. A failed \<^verbatim>\<open>assert\<close>, \<^verbatim>\<open>LOG_FATAL\<close>, the use of a deleted object and an access outside an array are
  \<open>None\<close>; so a lemma that an operation is \<open>Some\<close> says that none of them happens. Objects that others point to live
  in a store or heap (a map from addresses). Concurrency is a step relation or a list of steps in any order; what
  happens under a mutex is one step, a thread that waits on a condition is in the state as waiting or as woken.
  What comes from outside (results of system calls, the clock, the allocator, user callbacks) is an argument of
  the definitions, with the documented behaviour the code relies on as a named predicate.

  \<^bold>\<open>Theories.\<close>
  \<^item> \<open>Muduo_Prelude\<close>: assertions, \<^verbatim>\<open>memcpy\<close>, the part of \<^verbatim>\<open>printf\<close> that is used, shared lemmas.
  \<^item> \<open>Net_Endian\<close> (\<^verbatim>\<open>net/Endian.h\<close>), \<open>Net_Buffer\<close> (\<^verbatim>\<open>net/Buffer.h\<close>, \<^verbatim>\<open>.cc\<close>): the buffer refines a byte queue
    (locale \<open>byte_queue\<close>), \<^verbatim>\<open>readFd\<close> loses nothing, integers survive the network, eight bytes can always be
    prepended, lines are framed.
  \<^item> \<open>Net_Channel\<close> (\<^verbatim>\<open>net/Channel.h\<close>, \<^verbatim>\<open>.cc\<close>), \<open>Net_Poller\<close> (\<^verbatim>\<open>net/Poller.h\<close>, \<^verbatim>\<open>net/poller/*\<close>): the contract of
    a poller is the locale \<open>event_poller\<close> and its extension \<open>total_poller\<close>; epoll is an instance of the second, poll
    only of the first. The two assertions and the lost interest that separate poll from it are theorems.
  \<^item> \<open>Base_Time\<close> (\<^verbatim>\<open>base/Timestamp.*\<close>), \<open>Net_Timer\<close>, \<open>Net_TimerFacts\<close>, \<open>Net_TimerProps\<close> (\<^verbatim>\<open>net/Timer.*\<close>,
    \<^verbatim>\<open>net/TimerId.h\<close>, \<^verbatim>\<open>net/TimerQueue.*\<close>): definitions, the invariant of the queue, and its properties for any
    clients, callbacks that add and cancel timers, and an allocator (\<open>malloc\<close>) that reuses memory.
  \<^item> \<open>Net_EventLoop\<close>, \<open>Net_LoopProtocol\<close> (\<^verbatim>\<open>net/EventLoop.*\<close>): the loop in its thread, and its protocol with other
    threads as the inductive relation \<open>pstep\<close>.
  \<^item> \<open>Net_TcpConnection\<close>, \<open>Net_TcpConnFacts\<close>, \<open>Net_TcpConnProps\<close> (\<^verbatim>\<open>net/TcpConnection.*\<close>): the connection with its
    buffers, channel and queued functors; \<open>conn_inv\<close> and its preservation; safety, conservation of the bytes,
    callbacks, \<^verbatim>\<open>send\<close>, graceful shutdown.
  \<^item> \<open>Net_Socket\<close> (\<^verbatim>\<open>net/SocketsOps.*\<close>, \<^verbatim>\<open>net/InetAddress.*\<close>, \<^verbatim>\<open>net/Socket.*\<close>), \<open>Net_Acceptor\<close> (\<^verbatim>\<open>net/Acceptor.*\<close>):
    error handling of the system calls, addresses and their text, accepting with a full descriptor table. The
    kernel's descriptors are a parameter with the law \<open>fd_kernel\<close>, which the list model \<open>list_kernel\<close> satisfies.
  \<^item> \<open>Net_LoopThread\<close> (\<^verbatim>\<open>net/EventLoopThread.*\<close>, \<^verbatim>\<open>net/EventLoopThreadPool.*\<close>), \<open>Net_TcpServer\<close>,
    \<open>Net_TcpServerProps\<close> (\<^verbatim>\<open>net/TcpServer.*\<close>): the hand-over of a loop from its thread, round robin, and the server
    composed of connections, pool and queues between the loops. Its invariant discharges, for every reachable
    state of the server, the conditions under which a connection was shown safe.
  \<^item> \<open>Base_LogStream\<close>, \<open>Base_Logging\<close>, \<open>Base_LogFile\<close> (\<^verbatim>\<open>base/LogStream.*\<close>, \<^verbatim>\<open>base/Logging.*\<close>,
    \<^verbatim>\<open>base/CurrentThread.h\<close>, \<^verbatim>\<open>base/LogFile.*\<close>, \<^verbatim>\<open>base/FileUtil.*\<close>): integer conversion, bounds of the stream's
    buffer, the text of a record, rolling files.
  \<^item> \<open>Base_Sync\<close>, \<open>Base_Thread\<close> (\<^verbatim>\<open>base/Mutex.h\<close>, \<^verbatim>\<open>base/Condition.*\<close>, \<^verbatim>\<open>base/CountDownLatch.*\<close>, the two queues,
    \<^verbatim>\<open>base/Atomic.h\<close>, \<^verbatim>\<open>base/Thread.*\<close>, \<^verbatim>\<open>base/ThreadPool.*\<close>): the queues share the contract \<open>fifo_monitor\<close>.
  \<^item> \<open>Net_Http\<close>, \<open>Net_HttpServer\<close> (\<^verbatim>\<open>comments/muduo/net/http/*\<close>): the request parser refines a parser on texts that
    does not depend on how the text is cut; with it and the facts about \<^verbatim>\<open>send\<close> the server answers a request with
    exactly the text of its response. Two theorems show where it fails its clients.
  \<^item> \<open>Net_Connector\<close> (\<^verbatim>\<open>comments/muduo/net/Connector.*\<close>): the state machine with its functors and retry timers; its
    invariant accounts for every descriptor and every delay.
  \<^item> \<open>Net_TcpClient\<close> (\<^verbatim>\<open>comments/muduo/net/TcpClient.*\<close>): the client composed of the connector and its connections;
    its invariant discharges the conditions under which both were shown safe.
  \<^item> \<open>Base_AsyncLogging\<close> (\<^verbatim>\<open>comments/muduo/base/AsyncLogging.*\<close>): appending threads and the logging thread interleaved,
    over the fixed buffers and the log file.
  \<^item> \<open>Base_Date\<close> (\<^verbatim>\<open>comments/muduo/base/Date.*\<close>): day numbers; the conversions are inverse to each other and follow
    the Gregorian calendar.
  \<^item> \<open>Base_TimeZone\<close> (\<^verbatim>\<open>comments/muduo/base/TimeZone.*\<close>): UTC and local time, both ways; the reading of zone
    files; \<^verbatim>\<open>Timestamp::toFormattedString\<close>.
  \<^item> \<open>Base_StringPiece\<close> (\<^verbatim>\<open>base/StringPiece.h\<close>): string pieces as a linear order.

  \<^bold>\<open>Bounds and termination.\<close> No definition uses fuel. The loop of the HTTP parser is a partial function, because it does not end in two of its
  states; that it ends on every request is part of the theorems about it. Other loops are structural recursion over what they consume
  (expired timers, active channels, the digits of a number, the results of \<^verbatim>\<open>read\<close>) or have a measure. Loops that
  depend on the outside are given the list of what the outside does, and that they end is a theorem: the partial
  writes of a closing connection by the number of bytes left, the write loop of a log file by the law
  \<open>fwrite_progress\<close>, \<^verbatim>\<open>startLoop\<close> and the stopping of a pool by a decreasing measure. Event masks, the bytes of
  integers and atomic integers are words of their width; sizes of buffers are \<open>nat\<close> and time stamps \<open>int\<close>, because
  the code's values stay far below the range of \<^verbatim>\<open>size_t\<close> and \<^verbatim>\<open>int64_t\<close>.

  \<^bold>\<open>Not modelled.\<close> \<^verbatim>\<open>base/Singleton.h\<close> and \<^verbatim>\<open>base/ThreadLocal*.h\<close> (one \<^verbatim>\<open>pthread\<close> call each), \<^verbatim>\<open>base/Exception.*\<close>
  (stack traces of the C++ runtime), \<^verbatim>\<open>base/ProcessInfo.*\<close> (reads of \<^verbatim>\<open>/proc\<close>), \<^verbatim>\<open>TcpClient::~TcpClient\<close> (it calls
  \<^verbatim>\<open>forceClose\<close>, which the modelled stage does not have), type definitions without behaviour (\<^verbatim>\<open>Types.h\<close>,
  \<^verbatim>\<open>copyable.h\<close>, \<^verbatim>\<open>Callbacks.h\<close>); the earlier stages of \<^verbatim>\<open>src/src\<close>, which the last one contains; of \<^verbatim>\<open>src/comments\<close>
  the copies of what is modelled from the last stage, \<^verbatim>\<open>GzipFile\<close> (a wrapper of zlib), the parts that depend on
  generated protobuf classes (\<^verbatim>\<open>protobuf\<close>, \<^verbatim>\<open>protorpc\<close>), \<^verbatim>\<open>inspect\<close>, the examples and the tests; \<^verbatim>\<open>src/recipes\<close>,
  exercises and other programs. Fairness of the scheduler, memory exhaustion and the C++ memory model (the
  unsynchronised reads of \<^verbatim>\<open>quit_\<close> and of \<^verbatim>\<open>state_\<close>) are outside the model.
\<close>

end
